(* ===== verification/Prelude.thy ===== *)
theory Prelude
  imports Main "HOL-Library.Word" "HOL-Library.Monad_Syntax"
begin

text \<open>
  Shared ground of the development: the conventions by which C becomes HOL, and the lemmas on
  option values, flag words, powers of two and function updates that every component uses.

  \<^item> A C unsigned integer is a \<open>nat\<close> (frame numbers, sizes, counters) with the
    wrap-around written out by \<open>u8\<close>, \<open>u16\<close>, \<open>u32\<close>, \<open>u64\<close> and \<open>sub64\<close> where the
    code's arithmetic could leave its width, or a \<open>w word\<close> where the code works on bits
    (flag words, bitmaps, device registers).
  \<^item> \<open>KASSERT\<close> and \<open>panic\<close> end the kernel. An operation that can reach one
    returns an \<open>option\<close>, and \<open>None\<close> is the panic.
  \<^item> A spinlock is a boolean: taken, or not.
\<close>

unbundle bit_operations_syntax

named_theorems flag_simps \<open>reading and writing single bits of a flag word\<close>
named_theorems wrap_simps \<open>wrap-around that does not happen inside the width\<close>

section \<open>Widths\<close>

type_synonym pfn = nat
type_synonym paddr = nat

abbreviation W8 :: nat where "W8 \<equiv> 256"
abbreviation W16 :: nat where "W16 \<equiv> 65536"
abbreviation W32 :: nat where "W32 \<equiv> 4294967296"
abbreviation W64 :: nat where "W64 \<equiv> 18446744073709551616"

definition u8 :: "nat \<Rightarrow> nat" where "u8 n = n mod W8"
definition u16 :: "nat \<Rightarrow> nat" where "u16 n = n mod W16"
definition u32 :: "nat \<Rightarrow> nat" where "u32 n = n mod W32"
definition u64 :: "nat \<Rightarrow> nat" where "u64 n = n mod W64"

definition sub32 :: "nat \<Rightarrow> nat \<Rightarrow> nat" where "sub32 a b = (a + W32 - b mod W32) mod W32"
definition sub64 :: "nat \<Rightarrow> nat \<Rightarrow> nat" where "sub64 a b = (a + W64 - b mod W64) mod W64"

lemma u8_id [wrap_simps]: "n < W8 \<Longrightarrow> u8 n = n" by (simp add: u8_def)
lemma u16_id [wrap_simps]: "n < W16 \<Longrightarrow> u16 n = n" by (simp add: u16_def)
lemma u32_id [wrap_simps]: "n < W32 \<Longrightarrow> u32 n = n" by (simp add: u32_def)
lemma u64_id [wrap_simps]: "n < W64 \<Longrightarrow> u64 n = n" by (simp add: u64_def)

lemma u16_less [simp]: "u16 n < W16" by (simp add: u16_def)
lemma u32_less [simp]: "u32 n < W32" by (simp add: u32_def)
lemma u64_less [simp]: "u64 n < W64" by (simp add: u64_def)

lemma sub64_id [wrap_simps]:
  assumes "b \<le> a" and "a < W64"
  shows "sub64 a b = a - b"
proof -
  have "a + W64 - b mod W64 = (a - b) + W64" using assms by simp
  then have "sub64 a b = ((a - b) + W64) mod W64" by (simp only: sub64_def)
  also have "\<dots> = (a - b) mod W64" by (rule mod_add_self2)
  finally show ?thesis using assms by simp
qed

lemma sub32_id [wrap_simps]:
  assumes "b \<le> a" and "a < W32"
  shows "sub32 a b = a - b"
proof -
  have "a + W32 - b mod W32 = (a - b) + W32" using assms by simp
  then have "sub32 a b = ((a - b) + W32) mod W32" by (simp only: sub32_def)
  also have "\<dots> = (a - b) mod W32" by (rule mod_add_self2)
  finally show ?thesis using assms by simp
qed

section \<open>Panics\<close>

definition kassert :: "bool \<Rightarrow> unit option" where
  "kassert b = (if b then Some () else None)"

lemma kassert_True [simp]: "kassert True = Some ()" by (simp add: kassert_def)
lemma kassert_False [simp]: "kassert False = None" by (simp add: kassert_def)

lemma kassert_Some [simp]: "kassert b = Some u \<longleftrightarrow> b" by (simp add: kassert_def)

lemma kassert_bind_Some [simp]:
  "(kassert b \<bind> f) = Some x \<longleftrightarrow> b \<and> f () = Some x"
  by (auto simp: kassert_def)

section \<open>Flag words\<close>

text \<open>A flag is one bit of a word, written in the code as a shifted one.\<close>

definition flag :: "nat \<Rightarrow> 'a::len word" where
  "flag k = push_bit k 1"

definition has :: "'a::len word \<Rightarrow> 'a word \<Rightarrow> bool" where
  "has w m \<longleftrightarrow> w AND m \<noteq> 0"

lemma has_flag [flag_simps]: "has w (flag k) \<longleftrightarrow> bit w k"
  unfolding has_def flag_def by (rule bit_iff_and_push_bit_not_eq_0 [symmetric])

lemma has_flag_or [flag_simps]: "has w (flag j OR m) \<longleftrightarrow> bit w j \<or> has w m"
proof -
  have "w AND (flag j OR m) = (w AND flag j) OR (w AND m)" by (rule bit.conj_disj_distrib)
  then have "w AND (flag j OR m) = 0 \<longleftrightarrow> w AND flag j = 0 \<and> w AND m = 0"
    by (metis or_eq_0_iff)
  then show ?thesis using has_flag [of w j] by (auto simp: has_def)
qed

lemma bit_flag [flag_simps]:
  "bit (flag k :: 'a::len word) j \<longleftrightarrow> j = k \<and> k < LENGTH('a)"
  unfolding flag_def by (auto simp: bit_push_bit_iff bit_1_iff simp del: push_bit_of_1)

lemmas [flag_simps] = bit_or_iff bit_and_iff bit_xor_iff

lemma bit_not_flag [flag_simps]:
  "bit (NOT m :: 'a::len word) j \<longleftrightarrow> j < LENGTH('a) \<and> \<not> bit m j"
  by (simp add: bit_not_iff)

lemma bit_length: "bit (w :: 'a::len word) j \<Longrightarrow> j < LENGTH('a)"
  by (rule bit_imp_le_length)

section \<open>Powers of two\<close>

lemma pow2_dvd_le: "a \<le> b \<Longrightarrow> (2::nat) ^ a dvd 2 ^ b"
  by (rule le_imp_power_dvd)

lemma pow2_dvd_trans: "a \<le> b \<Longrightarrow> 2 ^ b dvd (n::nat) \<Longrightarrow> 2 ^ a dvd n"
  using pow2_dvd_le dvd_trans by blast

text \<open>The alignment test \<open>(n & ((1 << k) - 1)) == 0\<close>.\<close>

lemma and_mask_dvd_iff: "(n::nat) AND (2 ^ k - 1) = 0 \<longleftrightarrow> 2 ^ k dvd n"
proof -
  have "n AND (2 ^ k - 1) = n AND mask k" by (simp add: mask_eq_exp_minus_1)
  also have "\<dots> = take_bit k n" by (simp add: take_bit_eq_mask)
  also have "\<dots> = n mod 2 ^ k" by (simp add: take_bit_eq_mod)
  finally show ?thesis by (simp add: dvd_eq_mod_eq_0)
qed

text \<open>Clearing the low bits rounds down to a multiple.\<close>

definition align_down :: "nat \<Rightarrow> nat \<Rightarrow> nat" where
  "align_down x a = x - x mod a"

lemma align_down_dvd [simp]: "a dvd align_down x a"
  by (simp add: align_down_def dvd_minus_mod)

lemma align_down_le [simp]: "align_down x a \<le> x"
  by (simp add: align_down_def)

lemma align_down_gt: "0 < a \<Longrightarrow> x < align_down x a + a"
  unfolding align_down_def by (metis add.commute add_less_cancel_left le_add_diff_inverse2
      mod_less_divisor mod_less_eq_dividend)

lemma align_down_greatest:
  assumes "a dvd y" and "y \<le> x"
  shows "y \<le> align_down x a"
proof (cases "a = 0")
  case False
  have "y = (y div a) * a" using assms(1) by simp
  also have "\<dots> \<le> (x div a) * a" using assms(2) by (simp add: div_le_mono)
  also have "\<dots> = align_down x a" by (simp add: align_down_def minus_mod_eq_div_mult)
  finally show ?thesis .
qed (use assms in \<open>simp add: align_down_def\<close>)

definition align_up :: "nat \<Rightarrow> nat \<Rightarrow> nat" where
  "align_up x a = align_down (x + a - 1) a"

lemma align_up_dvd [simp]: "a dvd align_up x a"
  by (simp add: align_up_def)

lemma align_up_ge: "0 < a \<Longrightarrow> x \<le> align_up x a"
  using align_down_gt [of a "x + a - 1"] by (simp add: align_up_def)

lemma align_up_less: "0 < a \<Longrightarrow> align_up x a < x + a"
  using align_down_le [of "x + a - 1" a] unfolding align_up_def by linarith

text \<open>The number of trailing zero bits, \<open>__builtin_ctzll\<close> of a non-zero value.\<close>

fun ctz :: "nat \<Rightarrow> nat" where
  "ctz n = (if n = 0 \<or> odd n then 0 else Suc (ctz (n div 2)))"

declare ctz.simps [simp del]

lemma ctz_dvd: "2 ^ ctz n dvd n"
proof (induction n rule: ctz.induct)
  case (1 n)
  show ?case
  proof (cases "n = 0 \<or> odd n")
    case True
    then show ?thesis by (simp add: ctz.simps)
  next
    case False
    then have "2 ^ ctz (n div 2) dvd n div 2" using 1 by blast
    then have "2 * 2 ^ ctz (n div 2) dvd 2 * (n div 2)" by (rule mult_dvd_mono [OF dvd_refl])
    moreover have "2 * (n div 2) = n" using False by simp
    ultimately show ?thesis using False by (simp only: ctz.simps [of n] if_False power_Suc)
  qed
qed

lemma ctz_bit: "0 < n \<Longrightarrow> bit n (ctz n)"
proof (induction n rule: ctz.induct)
  case (1 n)
  show ?case
  proof (cases "odd n")
    case True
    then show ?thesis by (simp add: ctz.simps [of n] bit_0)
  next
    case False
    then have "bit (n div 2) (ctz (n div 2))" using 1 by (auto elim!: evenE)
    then show ?thesis using False 1 by (simp add: ctz.simps [of n] bit_Suc)
  qed
qed

lemma ctz_least: "j < ctz n \<Longrightarrow> \<not> bit n j"
proof -
  assume "j < ctz n"
  then have "2 ^ Suc j dvd n" using ctz_dvd pow2_dvd_trans Suc_leI by blast
  then have "even (n div 2 ^ j)"
    by (metis dvd_mult_imp_div mult.commute power_Suc)
  then show "\<not> bit n j" by (simp add: bit_iff_odd)
qed

definition ctz64 :: "64 word \<Rightarrow> nat" where
  "ctz64 w = ctz (unat w)"

lemma ctz64_bit: "w \<noteq> 0 \<Longrightarrow> bit w (ctz64 w) \<and> ctz64 w < 64"
proof -
  assume "w \<noteq> 0"
  then have "bit (unat w) (ctz (unat w))" by (intro ctz_bit) (simp add: unat_gt_0)
  then have "bit w (ctz64 w)" by (simp add: ctz64_def bit_unsigned_iff)
  then show ?thesis using bit_length [of w "ctz64 w"] by simp
qed

lemma ctz64_least: "bit w j \<Longrightarrow> ctz64 w \<le> j"
  using ctz_least [of j "unat w"] bit_length [of w j] by (force simp: ctz64_def bit_unsigned_iff not_less)

section \<open>Sums over a finite index range\<close>

lemma sum_lessThan_upd:
  fixes f :: "nat \<Rightarrow> nat"
  assumes "i < n"
  shows "(\<Sum>k<n. (f(i := v)) k) + f i = (\<Sum>k<n. f k) + v"
proof -
  have "(\<Sum>k<n. (f(i := v)) k) = v + (\<Sum>k\<in>{..<n} - {i}. f k)"
    using assms by (subst sum.remove [of _ i]) (auto intro!: sum.cong)
  moreover have "(\<Sum>k<n. f k) = f i + (\<Sum>k\<in>{..<n} - {i}. f k)"
    using assms by (subst sum.remove [of _ i]) auto
  ultimately show ?thesis by simp
qed

end
