(* ===== verification/KList.thy ===== *)
theory KList
  imports Prelude
begin

text \<open>
  The intrusive circular doubly linked list of \<open>kernel/include/kernel/list.h\<close>, which every
  queue of the kernel is threaded on. A node is an address; the heap holds each node's
  \<open>next\<close> and \<open>prev\<close>. The operations are the header's inline functions, statement by
  statement, and \<open>list_repr h head xs\<close> says that the list headed by \<open>head\<close> holds the nodes
  \<open>xs\<close>, front first. The other theories work on the list \<open>xs\<close>: the lemmas here, collected
  in the interpretation of \<open>node_list\<close>, are what lets them.
\<close>

section \<open>The heap and the operations\<close>

type_synonym node = nat

record heap =
  nxt :: "node \<Rightarrow> node"
  prv :: "node \<Rightarrow> node"

definition set_next :: "node \<Rightarrow> node \<Rightarrow> heap \<Rightarrow> heap" where
  "set_next a v h = h\<lparr>nxt := (nxt h)(a := v)\<rparr>"

definition set_prev :: "node \<Rightarrow> node \<Rightarrow> heap \<Rightarrow> heap" where
  "set_prev a v h = h\<lparr>prv := (prv h)(a := v)\<rparr>"

definition list_init :: "heap \<Rightarrow> node \<Rightarrow> heap" where
  "list_init h head =
     (let h = set_next head head h
      in set_prev head head h)"

definition list_empty :: "heap \<Rightarrow> node \<Rightarrow> bool" where
  "list_empty h head \<longleftrightarrow> nxt h head = head"

definition list_insert_between :: "heap \<Rightarrow> node \<Rightarrow> node \<Rightarrow> node \<Rightarrow> heap" where
  "list_insert_between h n p q =
     (let h = set_next n q h;
          h = set_prev n p h;
          h = set_next p n h
      in set_prev q n h)"

definition list_insert_after :: "heap \<Rightarrow> node \<Rightarrow> node \<Rightarrow> heap" where
  "list_insert_after h at n = list_insert_between h n at (nxt h at)"

definition list_insert_before :: "heap \<Rightarrow> node \<Rightarrow> node \<Rightarrow> heap" where
  "list_insert_before h at n = list_insert_between h n (prv h at) at"

definition list_push_front :: "heap \<Rightarrow> node \<Rightarrow> node \<Rightarrow> heap" where
  "list_push_front h head n = list_insert_after h head n"

definition list_push_back :: "heap \<Rightarrow> node \<Rightarrow> node \<Rightarrow> heap" where
  "list_push_back h head n = list_insert_before h head n"

definition list_remove :: "heap \<Rightarrow> node \<Rightarrow> heap" where
  "list_remove h n =
     (let h = set_next (prv h n) (nxt h n) h;
          h = set_prev (nxt h n) (prv h n) h;
          h = set_next n n h
      in set_prev n n h)"

definition list_pop_front :: "heap \<Rightarrow> node \<Rightarrow> node option \<times> heap" where
  "list_pop_front h head =
     (if list_empty h head then (None, h)
      else (let n = nxt h head in (Some n, list_remove h n)))"

definition list_move_all :: "heap \<Rightarrow> node \<Rightarrow> node \<Rightarrow> heap" where
  "list_move_all h from to =
     (if list_empty h from then h
      else
        (let first = nxt h from; lst = prv h from;
             h = set_prev first (prv h to) h;
             h = set_next (prv h to) first h;
             h = set_next lst to h;
             h = set_prev to lst h
         in list_init h from))"

text \<open>
  \<open>list_for_each(pos, head)\<close>: the nodes the loop visits, starting at \<open>pos\<close>. The loop has no
  bound of its own; the fuel is one, and \<open>list_walk_repr\<close> shows that the length of the list is
  enough.
\<close>

fun list_walk :: "nat \<Rightarrow> heap \<Rightarrow> node \<Rightarrow> node \<Rightarrow> node list option" where
  "list_walk 0 h head pos = (if pos = head then Some [] else None)"
| "list_walk (Suc fuel) h head pos =
     (if pos = head then Some []
      else map_option ((#) pos) (list_walk fuel h head (nxt h pos)))"

fun list_walk_reverse :: "nat \<Rightarrow> heap \<Rightarrow> node \<Rightarrow> node \<Rightarrow> node list option" where
  "list_walk_reverse 0 h head pos = (if pos = head then Some [] else None)"
| "list_walk_reverse (Suc fuel) h head pos =
     (if pos = head then Some []
      else map_option ((#) pos) (list_walk_reverse fuel h head (prv h pos)))"

lemmas list_ops =
  list_init_def list_empty_def list_insert_between_def list_insert_after_def
  list_insert_before_def list_push_front_def list_push_back_def list_remove_def
  set_next_def set_prev_def Let_def

section \<open>What a heap represents\<close>

text \<open>From \<open>a\<close> through the nodes \<open>xs\<close> to \<open>b\<close>, linked both ways.\<close>

fun seg :: "heap \<Rightarrow> node \<Rightarrow> node list \<Rightarrow> node \<Rightarrow> bool" where
  "seg h a [] b \<longleftrightarrow> nxt h a = b \<and> prv h b = a"
| "seg h a (x # xs) b \<longleftrightarrow> nxt h a = x \<and> prv h x = a \<and> seg h x xs b"

definition list_repr :: "heap \<Rightarrow> node \<Rightarrow> node list \<Rightarrow> bool" where
  "list_repr h head xs \<longleftrightarrow> distinct (head # xs) \<and> seg h head xs head"

lemma seg_append: "seg h a (xs @ y # ys) b \<longleftrightarrow> seg h a xs y \<and> seg h y ys b"
  by (induction xs arbitrary: a) auto

lemma seg_cong:
  assumes "seg h a xs b"
    and "\<And>x. x \<in> insert a (set xs) \<Longrightarrow> nxt h' x = nxt h x"
    and "\<And>x. x \<in> insert b (set xs) \<Longrightarrow> prv h' x = prv h x"
  shows "seg h' a xs b"
  using assms by (induction xs arbitrary: a) auto

lemma seg_next: "seg h a xs b \<Longrightarrow> nxt h a = (case xs of [] \<Rightarrow> b | x # _ \<Rightarrow> x)"
  by (cases xs) auto

lemma seg_prev: "seg h a xs b \<Longrightarrow> prv h b = last (a # xs)"
  by (induction xs arbitrary: a) auto

lemma list_repr_frame:
  assumes "list_repr h head xs"
    and "\<And>x. x \<in> set (head # xs) \<Longrightarrow> nxt h' x = nxt h x"
    and "\<And>x. x \<in> set (head # xs) \<Longrightarrow> prv h' x = prv h x"
  shows "list_repr h' head xs"
  using assms unfolding list_repr_def by (auto intro: seg_cong)

lemma list_repr_empty_iff: "list_repr h head xs \<Longrightarrow> list_empty h head \<longleftrightarrow> xs = []"
  by (cases xs) (auto simp: list_repr_def list_empty_def)

lemma list_repr_init: "list_repr (list_init h head) head []"
  by (simp add: list_repr_def list_ops)

text \<open>Inserting after the last of \<open>xs\<close> (or the head, when \<open>xs\<close> is empty).\<close>

lemma list_repr_insert_between:
  assumes "list_repr h head (xs @ ys)" and "n \<notin> set (head # xs @ ys)"
    and "p = last (head # xs)" and "q = (case ys of [] \<Rightarrow> head | y # _ \<Rightarrow> y)"
  shows "list_repr (list_insert_between h n p q) head (xs @ n # ys)"
proof -
  let ?h = "list_insert_between h n p q"
  have d: "distinct (head # xs @ ys)" and s: "seg h head (xs @ ys) head"
    using assms(1) by (auto simp: list_repr_def)
  have nx: "nxt ?h x = (if x = p then n else if x = n then q else nxt h x)" for x
    using assms(2,3) by (auto simp: list_ops split: if_splits)
  have pv: "prv ?h x = (if x = q then n else if x = n then p else prv h x)" for x
    using assms(2,4) by (auto simp: list_ops split: if_splits)
  have pn: "p \<noteq> n" using assms(2,3) last_in_set [of "head # xs"] by auto
  have qn: "q \<noteq> n" using assms(2,4) by (auto split: list.splits)
  have e: "nxt ?h p = n" "nxt ?h n = q" "prv ?h q = n" "prv ?h n = p"
    using pn qn by (simp_all only: nx pv refl if_True if_False not_sym [OF pn] not_sym [OF qn])
  have left: "seg ?h a xs n" if "seg h a (xs @ ys) head" "distinct (a # xs)" "p = last (a # xs)"
    "n \<notin> set (a # xs)" "q \<notin> set xs" for a
    using that
  proof (induction xs arbitrary: a)
    case Nil
    then have "a = p" by simp
    then show ?case using e by (simp only: seg.simps)
  next
    case (Cons x xs)
    then have "a \<noteq> p" "x \<noteq> q" "x \<noteq> n" "a \<noteq> n" by auto
    moreover have "seg ?h x xs n" using Cons by (auto split: if_splits)
    ultimately show ?case using Cons.prems(1) by (simp add: nx pv)
  qed
  have "seg ?h n ys head"
  proof (cases ys)
    case Nil
    then have "q = head" using assms(4) by simp
    then show ?thesis using e Nil by (simp only: seg.simps)
  next
    case (Cons y ys')
    then have q: "q = y" using assms(4) by simp
    have "seg h head xs y \<and> seg h y ys' head" using s by (simp add: Cons seg_append)
    moreover have "p \<notin> set ys" "y \<notin> set ys'" "n \<notin> set ys" "y \<noteq> head" "n \<noteq> head"
      using d assms(2,3) last_in_set [of "head # xs"] by (auto simp: Cons)
    ultimately have "seg ?h y ys' head"
      by (elim conjE seg_cong) (auto simp: nx pv Cons q [symmetric])
    then show ?thesis using e q Cons by (simp only: seg.simps)
  qed
  moreover have "seg ?h head xs n"
    using left [of head] s d assms by (auto split: list.splits)
  ultimately show ?thesis
    using d assms(2) by (auto simp: list_repr_def seg_append)
qed

lemma list_repr_push_front:
  assumes "list_repr h head xs" and "n \<notin> set (head # xs)"
  shows "list_repr (list_push_front h head n) head (n # xs)"
proof -
  have "nxt h head = (case xs of [] \<Rightarrow> head | y # _ \<Rightarrow> y)"
    using assms(1) unfolding list_repr_def by (blast intro: seg_next)
  then show ?thesis
    using list_repr_insert_between [of h head "[]" xs n head "nxt h head"] assms
    by (simp add: list_push_front_def list_insert_after_def)
qed

lemma list_repr_push_back:
  assumes "list_repr h head xs" and "n \<notin> set (head # xs)"
  shows "list_repr (list_push_back h head n) head (xs @ [n])"
proof -
  have "prv h head = last (head # xs)"
    using assms(1) unfolding list_repr_def by (blast intro: seg_prev)
  then show ?thesis
    using list_repr_insert_between [of h head xs "[]" n "prv h head" head] assms
    by (simp add: list_push_back_def list_insert_before_def)
qed

lemma list_repr_insert_after:
  assumes "list_repr h head (xs @ a # ys)" and "n \<notin> set (head # xs @ a # ys)"
  shows "list_repr (list_insert_after h a n) head (xs @ a # n # ys)"
proof -
  have "seg h a ys head" using assms(1) by (simp add: list_repr_def seg_append)
  then have "nxt h a = (case ys of [] \<Rightarrow> head | y # _ \<Rightarrow> y)" by (rule seg_next)
  then show ?thesis
    using list_repr_insert_between [of h head "xs @ [a]" ys n a "nxt h a"] assms
    by (simp add: list_insert_after_def)
qed

lemma list_repr_remove:
  assumes "list_repr h head (xs @ n # ys)"
  shows "list_repr (list_remove h n) head (xs @ ys)"
proof -
  let ?h = "list_remove h n"
  have d: "distinct (head # xs @ n # ys)" and s1: "seg h head xs n" and s2: "seg h n ys head"
    using assms by (auto simp: list_repr_def seg_append)
  define p where "p = last (head # xs)"
  define q where "q = (case ys of [] \<Rightarrow> head | y # _ \<Rightarrow> y)"
  have p: "prv h n = p" using s1 unfolding p_def by (rule seg_prev)
  have q: "nxt h n = q" using s2 unfolding q_def by (rule seg_next)
  have pq: "p \<noteq> n" "q \<noteq> n" using d by (auto simp: p_def q_def split: list.splits)
  have nx: "nxt ?h x = (if x = n then n else if x = p then q else nxt h x)" for x
    using pq by (simp add: list_ops p q)
  have pv: "prv ?h x = (if x = n then n else if x = q then p else prv h x)" for x
    using pq by (simp add: list_ops p q)
  have left: "seg ?h a xs q" if "seg h a xs n" "distinct (a # xs)" "p = last (a # xs)"
    "n \<notin> set (a # xs)" "q \<notin> set xs" for a
    using that
  proof (induction xs arbitrary: a)
    case Nil
    then show ?case using pq by (simp add: nx pv)
  next
    case (Cons x xs)
    then have "a \<noteq> p" "x \<noteq> q" by auto
    moreover have "seg ?h x xs q" using Cons by (auto split: if_splits)
    ultimately show ?case using Cons.prems by (simp add: nx pv)
  qed
  have l: "seg ?h head xs q"
    using left [of head] s1 d by (auto simp: p_def q_def split: list.splits)
  have "seg ?h head (xs @ ys) head"
  proof (cases ys)
    case Nil
    then show ?thesis using l by (simp add: q_def)
  next
    case (Cons y ys')
    have "p \<notin> set ys" using d last_in_set [of "head # xs"] by (auto simp: p_def)
    moreover have "seg h y ys' head" "q = y" using s2 by (simp_all add: Cons q_def)
    ultimately have "seg ?h y ys' head"
      using d by (elim seg_cong) (auto simp: nx pv Cons)
    then show ?thesis using l Cons by (simp add: q_def seg_append)
  qed
  then show ?thesis using d by (auto simp: list_repr_def)
qed

lemma list_remove_self:
  assumes "list_repr h head (xs @ n # ys)"
  shows "list_repr (list_remove h n) n []"
proof -
  have "prv h n = last (head # xs)" "nxt h n = (case ys of [] \<Rightarrow> head | y # _ \<Rightarrow> y)"
    using assms by (auto simp: list_repr_def seg_append dest: seg_prev seg_next)
  moreover have "last (head # xs) \<in> set (head # xs)" by (rule last_in_set) simp
  moreover have "n \<notin> set (head # xs @ ys)" using assms by (auto simp: list_repr_def)
  ultimately have "prv h n \<noteq> n" "nxt h n \<noteq> n" by (auto split: list.splits)
  then show ?thesis by (simp add: list_repr_def list_ops)
qed

lemma list_repr_pop_front:
  "list_repr h head [] \<Longrightarrow> list_pop_front h head = (None, h)"
  "list_repr h head (x # xs) \<Longrightarrow> list_pop_front h head = (Some x, list_remove h x)"
  by (auto simp: list_pop_front_def list_repr_empty_iff list_repr_def list_empty_def Let_def)

lemma list_walk_seg:
  assumes "seg h a xs head" and "head \<notin> set xs" and "length xs \<le> fuel"
  shows "list_walk fuel h head (nxt h a) = Some xs"
  using assms
proof (induction xs arbitrary: a fuel)
  case Nil
  then show ?case by (cases fuel) auto
next
  case (Cons x xs)
  then obtain f where "fuel = Suc f" by (cases fuel) auto
  then show ?case using Cons by auto
qed

lemma list_walk_reverse_seg:
  assumes "seg h head xs b" and "head \<notin> set xs" and "length xs \<le> fuel"
  shows "list_walk_reverse fuel h head (prv h b) = Some (rev xs)"
  using assms
proof (induction xs arbitrary: b fuel rule: rev_induct)
  case Nil
  then show ?case by (cases fuel) auto
next
  case (snoc x xs)
  then obtain f where "fuel = Suc f" by (cases fuel) auto
  moreover have "seg h head xs x" "prv h b = x" using snoc.prems by (auto simp: seg_append)
  ultimately show ?case using snoc by auto
qed

lemma list_walk_repr:
  "list_repr h head xs \<Longrightarrow> length xs \<le> fuel \<Longrightarrow> list_walk fuel h head (nxt h head) = Some xs"
  by (auto simp: list_repr_def intro: list_walk_seg)

lemma list_repr_move_all:
  assumes "list_repr h from xs" and "list_repr h to ys"
    and "set (from # xs) \<inter> set (to # ys) = {}"
  shows "list_repr (list_move_all h from to) to (ys @ xs)"
    and "list_repr (list_move_all h from to) from []"
proof -
  let ?h = "list_move_all h from to"
  have s1: "seg h from xs from" and d1: "distinct (from # xs)"
    and s2: "seg h to ys to" and d2: "distinct (to # ys)"
    using assms(1,2) by (auto simp: list_repr_def)
  show "list_repr ?h from []"
    using assms(1) list_repr_empty_iff [OF assms(1)]
    by (auto simp: list_move_all_def Let_def list_repr_init)
  show "list_repr ?h to (ys @ xs)"
  proof (cases xs)
    case Nil
    then show ?thesis
      using assms(2) list_repr_empty_iff [OF assms(1)] by (simp add: list_move_all_def)
  next
    case (Cons x xs')
    define l where "l = last (to # ys)"
    define m where "m = last (from # xs)"
    have ends: "prv h to = l" "prv h from = m" "nxt h from = x"
      using seg_prev [OF s1] seg_prev [OF s2] s1 by (auto simp: l_def m_def Cons)
    have l: "l \<in> set (to # ys)" unfolding l_def by (rule last_in_set) simp
    have m: "m \<in> set xs" by (simp add: m_def Cons)
    have neq: "x \<noteq> from" "x \<noteq> to" "m \<noteq> from" "l \<noteq> from" "l \<noteq> m" "to \<noteq> from"
      using l m d1 assms(3) by (auto simp: Cons)
    have eq: "?h = list_init (set_prev to m (set_next m to (set_next l x (set_prev x l h)))) from"
      using list_repr_empty_iff [OF assms(1)] neq
      by (simp add: list_move_all_def Cons ends Let_def set_prev_def set_next_def)
    have nx: "nxt ?h a = (if a = from then from else if a = m then to else if a = l then x else nxt h a)"
      and pv: "prv ?h a = (if a = from then from else if a = to then m else if a = x then l else prv h a)"
      for a using neq by (auto simp: eq list_ops)
    have "seg ?h a ys x" if "seg h a ys to" "l = last (a # ys)" "distinct (a # ys)"
      "set (a # ys) \<inter> set (from # xs) = {}" "to \<notin> set ys" for a
      using that
    proof (induction ys arbitrary: a)
      case Nil
      then show ?case using neq m by (auto simp: nx pv Cons)
    next
      case (Cons b ys)
      then have "a \<noteq> l" "a \<noteq> m" "a \<noteq> from" "b \<noteq> x" "b \<noteq> from" "b \<noteq> to"
        using m \<open>xs = x # xs'\<close> by auto
      moreover have "seg ?h b ys x" using Cons by (auto split: if_splits)
      ultimately show ?case using Cons.prems(1) by (simp add: nx pv)
    qed
    then have left: "seg ?h to ys x" using s2 d2 assms(3) by (simp add: l_def) blast
    have "seg ?h a zs to" if "seg h a zs from" "m = last (a # zs)" "distinct (a # zs)"
      "set (a # zs) \<subseteq> set xs" "x \<notin> set zs" for a zs
      using that
    proof (induction zs arbitrary: a)
      case Nil
      then show ?case using neq by (auto simp: nx pv)
    next
      case (Cons b zs)
      then have "a \<noteq> m" "a \<noteq> l" "a \<noteq> from" "b \<noteq> x" "b \<noteq> from" "b \<noteq> to"
        using l d1 assms(3) by auto
      moreover have "seg ?h b zs to" using Cons by (auto split: if_splits)
      ultimately show ?case using Cons.prems(1) by (simp add: nx pv)
    qed
    from this [of x xs'] have "seg ?h x xs' to" using s1 d1 by (simp add: Cons m_def)
    then show ?thesis
      using left d1 d2 assms(3) by (auto simp: list_repr_def seg_append Cons)
  qed
qed

section \<open>The interface\<close>

text \<open>
  What the kernel's queues rely on: a representation predicate and what each operation does to the
  sequence it represents. Anything proved here holds of every queue built on the list.
\<close>

locale node_list =
  fixes repr :: "'h \<Rightarrow> 'n \<Rightarrow> 'n list \<Rightarrow> bool"
    and init :: "'h \<Rightarrow> 'n \<Rightarrow> 'h"
    and push_back :: "'h \<Rightarrow> 'n \<Rightarrow> 'n \<Rightarrow> 'h"
    and remove :: "'h \<Rightarrow> 'n \<Rightarrow> 'h"
    and pop_front :: "'h \<Rightarrow> 'n \<Rightarrow> 'n option \<times> 'h"
  assumes repr_init: "repr (init h q) q []"
    and repr_push_back: "repr h q xs \<Longrightarrow> n \<notin> set (q # xs) \<Longrightarrow> repr (push_back h q n) q (xs @ [n])"
    and repr_remove: "repr h q (xs @ n # ys) \<Longrightarrow> repr (remove h n) q (xs @ ys)"
    and pop_front_Nil: "repr h q [] \<Longrightarrow> pop_front h q = (None, h)"
    and pop_front_Cons: "repr h q (x # xs) \<Longrightarrow> pop_front h q = (Some x, remove h x)"
begin

text \<open>Enqueueing a sequence of nodes, and draining \<open>k\<close> of them.\<close>

definition enqueue :: "'h \<Rightarrow> 'n \<Rightarrow> 'n list \<Rightarrow> 'h" where
  "enqueue h q ns = foldl (\<lambda>h n. push_back h q n) h ns"

primrec drain :: "nat \<Rightarrow> 'h \<Rightarrow> 'n \<Rightarrow> 'n list \<times> 'h" where
  "drain 0 h q = ([], h)"
| "drain (Suc k) h q =
     (case pop_front h q of
        (None, h') \<Rightarrow> ([], h')
      | (Some n, h') \<Rightarrow> (case drain k h' q of (ns, h'') \<Rightarrow> (n # ns, h'')))"

lemma repr_enqueue:
  assumes "repr h q xs" and "distinct ns" and "set ns \<inter> set (q # xs) = {}"
  shows "repr (enqueue h q ns) q (xs @ ns)"
  using assms
proof (induction ns arbitrary: h xs)
  case Nil
  then show ?case by (simp add: enqueue_def)
next
  case (Cons n ns)
  then have "repr (push_back h q n) q (xs @ [n])" by (intro repr_push_back) auto
  moreover have "set ns \<inter> set (q # xs @ [n]) = {}" using Cons.prems by auto
  ultimately have "repr (enqueue (push_back h q n) q ns) q ((xs @ [n]) @ ns)"
    using Cons.prems(2) by (intro Cons.IH) auto
  then show ?case by (simp add: enqueue_def)
qed

lemma drain_all:
  assumes "repr h q xs" and "length xs \<le> k"
  shows "fst (drain k h q) = xs \<and> repr (snd (drain k h q)) q []"
  using assms
proof (induction k arbitrary: h xs)
  case 0
  then show ?case by simp
next
  case (Suc k)
  show ?case
  proof (cases xs)
    case Nil
    then show ?thesis using Suc.prems pop_front_Nil by simp
  next
    case (Cons x ys)
    then have "repr (remove h x) q ys" using Suc.prems repr_remove [of h q "[]" x ys] by simp
    then show ?thesis
      using Suc.IH [of "remove h x" ys] Suc.prems Cons pop_front_Cons [of h q x ys]
      by (auto split: prod.splits)
  qed
qed

lemma fifo:
  assumes "repr h q []" and "distinct ns" and "q \<notin> set ns"
  shows "fst (drain (length ns) (enqueue h q ns) q) = ns"
  using drain_all [OF repr_enqueue [OF assms(1,2)], of "length ns"] assms(3) by simp

end

interpretation klist: node_list list_repr list_init list_push_back list_remove list_pop_front
  by unfold_locales
    (auto intro: list_repr_init list_repr_push_back list_repr_remove list_repr_pop_front)

section \<open>The list's contract\<close>

text \<open>
  C37. The kernel's linked list is a first-in first-out queue on the heap: after initialising a
  head and pushing distinct nodes to the back, popping from the front as many times gives those
  nodes in the order they were pushed.
\<close>

theorem klist_fifo:
  assumes "distinct ns" and "q \<notin> set ns"
  shows "fst (klist.drain (length ns) (klist.enqueue (list_init h q) q ns) q) = ns"
  using klist.fifo [OF list_repr_init assms] .

theorem klist_fifo_witness:
  "distinct [3, 1, 2::node] \<and> 0 \<notin> set [3, 1, 2::node]
   \<and> fst (klist.drain 3 (klist.enqueue (list_init \<lparr>nxt = id, prv = id\<rparr> 0) 0 [3, 1, 2]) 0) = [3, 1, 2]"
  using klist_fifo [of "[3, 1, 2]" 0 "\<lparr>nxt = id, prv = id\<rparr>"] by (simp add: numeral_3_eq_3)

text \<open>
  C40. \<open>list_move_all\<close> splices one list onto the end of another: walking the target visits its
  old nodes and then the moved ones, in order, forwards and (reversed) backwards, and the source
  is left empty.
\<close>

theorem list_move_all_splices:
  assumes "list_repr h from xs" and "list_repr h to ys"
    and "set (from # xs) \<inter> set (to # ys) = {}"
  shows "list_walk (length ys + length xs) (list_move_all h from to) to
           (nxt (list_move_all h from to) to) = Some (ys @ xs)
       \<and> list_walk_reverse (length ys + length xs) (list_move_all h from to) to
           (prv (list_move_all h from to) to) = Some (rev (ys @ xs))
       \<and> list_empty (list_move_all h from to) from"
proof -
  note M = list_repr_move_all [OF assms]
  have "seg (list_move_all h from to) to (ys @ xs) to" "to \<notin> set (ys @ xs)"
    using M(1) by (auto simp: list_repr_def)
  then show ?thesis
    using list_walk_repr [OF M(1)] list_walk_reverse_seg [of _ to "ys @ xs" to] list_repr_empty_iff [OF M(2)]
    by simp
qed

definition demo_heap :: heap where
  "demo_heap = list_push_back (list_push_back (list_push_back
     (list_init (list_init \<lparr>nxt = id, prv = id\<rparr> 0) 10) 0 1) 0 2) 10 11"

theorem list_move_all_splices_witness:
  "list_repr demo_heap 0 [1, 2] \<and> list_repr demo_heap 10 [11]
   \<and> list_walk 3 (list_move_all demo_heap 0 10) 10 (nxt (list_move_all demo_heap 0 10) 10) = Some [11, 1, 2]"
proof -
  have "list_repr demo_heap 0 [1, 2]" "list_repr demo_heap 10 [11]"
    by (auto simp: list_repr_def demo_heap_def list_ops)
  then show ?thesis
    using list_move_all_splices [of demo_heap 0 "[1, 2]" 10 "[11]"] by (simp add: numeral_3_eq_3)
qed

end
