(* ===== verification/Buddy.thy ===== *)
theory Buddy
  imports Prelude
begin

text \<open>
  The binary buddy allocator over one zone, \<open>kernel/memory/buddy.c\<close>, with the page descriptor
  of \<open>kernel/include/kernel/page.h\<close> and the zone of \<open>kernel/include/kernel/pmm.h\<close>.

  The page array is a function from frame numbers to descriptors; a free list is the list of the
  frame numbers on it, front first (theory \<open>KList\<close> shows that the kernel's linked list behaves as
  one). Frame numbers are 64-bit addresses shifted right by 12, so they and their sums with a
  block size stay far below \<open>2 ^ 64\<close>; the counters wrap as \<open>uint64_t\<close> does.

  \<open>zone_ok\<close> is the allocator's invariant: the free blocks are aligned, inside the zone and
  pairwise disjoint, a frame is flagged exactly when it heads one of them, the counters agree, and
  no two free buddies of one order are left unmerged.
\<close>

section \<open>Data\<close>

definition PMM_MAX_ORDER :: nat where "PMM_MAX_ORDER = 11"

definition PG_RESERVED :: "32 word" where "PG_RESERVED = flag 0"
definition PG_BUDDY :: "32 word" where "PG_BUDDY = flag 1"
definition PG_SLAB :: "32 word" where "PG_SLAB = flag 2"
definition PG_KMALLOC_LARGE :: "32 word" where "PG_KMALLOC_LARGE = flag 3"
definition PG_PAGETABLE :: "32 word" where "PG_PAGETABLE = flag 4"
definition PG_DEFERRED :: "32 word" where "PG_DEFERRED = flag 5"
definition PG_POISONED :: "32 word" where "PG_POISONED = flag 6"
definition PG_PAGECACHE :: "32 word" where "PG_PAGECACHE = flag 7"

lemmas PG_defs =
  PG_RESERVED_def PG_BUDDY_def PG_SLAB_def PG_KMALLOC_LARGE_def PG_PAGETABLE_def
  PG_DEFERRED_def PG_POISONED_def PG_PAGECACHE_def

record page =
  pg_flags :: "32 word"
  pg_refcount :: "32 word"
  pg_order :: nat
  pg_zone :: nat
  pg_slab :: "nat option"

type_synonym page_array = "pfn \<Rightarrow> page"

record pmm_free_area =
  fa_list :: "pfn list"
  nr_free :: nat

record pmm_zone =
  z_name :: string
  start_pfn :: pfn
  end_pfn :: pfn
  free_area :: "nat \<Rightarrow> pmm_free_area"
  nr_pages_total :: nat
  nr_pages_free :: nat
  z_held :: bool

section \<open>Operations\<close>

definition pfn_in_zone :: "pmm_zone \<Rightarrow> pfn \<Rightarrow> bool" where
  "pfn_in_zone z p \<longleftrightarrow> p \<ge> start_pfn z \<and> p < end_pfn z"

definition free_area_push ::
    "pmm_zone \<Rightarrow> page_array \<Rightarrow> pfn \<Rightarrow> nat \<Rightarrow> pmm_zone \<times> page_array" where
  "free_area_push z ps p ord =
     (let ps = ps(p := (ps p)\<lparr>pg_order := u8 ord, pg_flags := pg_flags (ps p) OR PG_BUDDY\<rparr>);
          a = free_area z ord;
          a = a\<lparr>fa_list := p # fa_list a, nr_free := u64 (nr_free a + 1)\<rparr>
      in (z\<lparr>free_area := (free_area z)(ord := a)\<rparr>, ps))"

definition free_area_remove ::
    "pmm_zone \<Rightarrow> page_array \<Rightarrow> pfn \<Rightarrow> nat \<Rightarrow> (pmm_zone \<times> page_array) option" where
  "free_area_remove z ps p ord = do {
     let a = free_area z ord;
     let ps = ps(p := (ps p)\<lparr>pg_flags := pg_flags (ps p) AND NOT PG_BUDDY\<rparr>);
     kassert (nr_free a > 0);
     let a = a\<lparr>fa_list := remove1 p (fa_list a), nr_free := sub64 (nr_free a) 1\<rparr>;
     Some (z\<lparr>free_area := (free_area z)(ord := a)\<rparr>, ps)
   }"

definition buddy_zone_init :: "string \<Rightarrow> pfn \<Rightarrow> pfn \<Rightarrow> pmm_zone" where
  "buddy_zone_init name s e =
     \<lparr>z_name = name, start_pfn = s, end_pfn = e,
      free_area = (\<lambda>_. \<lparr>fa_list = [], nr_free = 0\<rparr>),
      nr_pages_total = 0, nr_pages_free = 0, z_held = False\<rparr>"

text \<open>The split loop: the upper half of what is left goes back, one order at a time.\<close>

fun split_block ::
    "pmm_zone \<Rightarrow> page_array \<Rightarrow> pfn \<Rightarrow> nat \<Rightarrow> nat \<Rightarrow> pmm_zone \<times> page_array" where
  "split_block z ps p ord k =
     (if k > ord
      then (case free_area_push z ps (p + 2 ^ (k - 1)) (k - 1) of
              (z, ps) \<Rightarrow> split_block z ps p ord (k - 1))
      else (z, ps))"

declare split_block.simps [simp del]

text \<open>The search loop of \<open>buddy_alloc_block\<close>, from order \<open>k\<close> on.\<close>

function alloc_from ::
    "pmm_zone \<Rightarrow> page_array \<Rightarrow> nat \<Rightarrow> nat \<Rightarrow> (pmm_zone \<times> page_array \<times> pfn option) option" where
  "alloc_from z ps ord k =
     (if k < PMM_MAX_ORDER then
        (case fa_list (free_area z k) of
           [] \<Rightarrow> alloc_from z ps ord (Suc k)
         | p # rest \<Rightarrow> do {
             let a = (free_area z k)\<lparr>fa_list := rest\<rparr>;
             kassert (has (pg_flags (ps p)) PG_BUDDY);
             kassert (pg_order (ps p) = k);
             let ps = ps(p := (ps p)\<lparr>pg_flags := pg_flags (ps p) AND NOT PG_BUDDY\<rparr>);
             let a = a\<lparr>nr_free := sub64 (nr_free a) 1\<rparr>;
             let z = z\<lparr>free_area := (free_area z)(k := a)\<rparr>;
             let (z, ps) = split_block z ps p ord k;
             let ps = ps(p := (ps p)\<lparr>pg_order := u8 ord, pg_refcount := 1\<rparr>);
             let z = z\<lparr>nr_pages_free := sub64 (nr_pages_free z) (2 ^ ord)\<rparr>;
             Some (z, ps, Some p)
           })
      else Some (z, ps, None))"
  by pat_completeness auto
termination
  by (relation "measure (\<lambda>(z, ps, ord, k). PMM_MAX_ORDER - k)") auto

declare alloc_from.simps [simp del]

definition buddy_alloc_block ::
    "pmm_zone \<Rightarrow> page_array \<Rightarrow> nat \<Rightarrow> (pmm_zone \<times> page_array \<times> pfn option) option" where
  "buddy_alloc_block z ps ord = do {
     kassert (z_held z);
     kassert (ord < PMM_MAX_ORDER);
     alloc_from z ps ord ord
   }"

text \<open>The merge loop of \<open>buddy_free_block\<close>.\<close>

function free_merge ::
    "pmm_zone \<Rightarrow> page_array \<Rightarrow> pfn \<Rightarrow> nat \<Rightarrow> (pmm_zone \<times> page_array \<times> pfn \<times> nat) option" where
  "free_merge z ps p ord =
     (if ord < PMM_MAX_ORDER - 1 then
        (let b = p XOR 2 ^ ord in
         if \<not> pfn_in_zone z b then Some (z, ps, p, ord)
         else if b + 2 ^ ord > end_pfn z then Some (z, ps, p, ord)
         else if \<not> has (pg_flags (ps b)) PG_BUDDY \<or> pg_order (ps b) \<noteq> ord
         then Some (z, ps, p, ord)
         else (case free_area_remove z ps b ord of
                 None \<Rightarrow> None
               | Some (z, ps) \<Rightarrow> free_merge z ps (if b < p then b else p) (Suc ord)))
      else Some (z, ps, p, ord))"
  by pat_completeness auto
termination
  by (relation "measure (\<lambda>(z, ps, p, ord). PMM_MAX_ORDER - ord)") auto

declare free_merge.simps [simp del]

definition buddy_free_block ::
    "pmm_zone \<Rightarrow> page_array \<Rightarrow> pfn \<Rightarrow> nat \<Rightarrow> (pmm_zone \<times> page_array) option" where
  "buddy_free_block z ps p ord = do {
     kassert (z_held z);
     kassert (ord < PMM_MAX_ORDER);
     kassert (pfn_in_zone z p);
     kassert (p + 2 ^ ord \<le> end_pfn z);
     kassert (p AND (2 ^ ord - 1) = 0);
     kassert (pg_refcount (ps p) = 0);
     kassert (\<not> has (pg_flags (ps p)) (PG_BUDDY OR PG_RESERVED));
     let z = z\<lparr>nr_pages_free := u64 (nr_pages_free z + 2 ^ ord)\<rparr>;
     (z, ps, p, ord) \<leftarrow> free_merge z ps p ord;
     Some (free_area_push z ps p ord)
   }"

definition clear_reserved :: "page \<Rightarrow> page" where
  "clear_reserved pg =
     pg\<lparr>pg_flags := pg_flags pg AND NOT (PG_RESERVED OR PG_DEFERRED), pg_refcount := 0\<rparr>"

fun shrink_order :: "pfn \<Rightarrow> pfn \<Rightarrow> nat \<Rightarrow> nat" where
  "shrink_order p e ord =
     (if ord > 0 \<and> p + 2 ^ ord > e then shrink_order p e (ord - 1) else ord)"

declare shrink_order.simps [simp del]

definition range_order :: "pfn \<Rightarrow> pfn \<Rightarrow> nat" where
  "range_order p e =
     (let ord = PMM_MAX_ORDER - 1;
          ord = (if p \<noteq> 0 \<and> ctz p < ord then ctz p else ord)
      in shrink_order p e ord)"

function free_chunks ::
    "pmm_zone \<Rightarrow> page_array \<Rightarrow> pfn \<Rightarrow> pfn \<Rightarrow> (pmm_zone \<times> page_array) option" where
  "free_chunks z ps p e =
     (if p < e then
        (let ord = range_order p e in
         case buddy_free_block z ps p ord of
           None \<Rightarrow> None
         | Some (z, ps) \<Rightarrow> free_chunks z ps (p + 2 ^ ord) e)
      else Some (z, ps))"
  by pat_completeness auto
termination
  by (relation "measure (\<lambda>(z, ps, p, e). e - p)") (auto simp: diff_less_mono2)

declare free_chunks.simps [simp del]

definition buddy_free_range ::
    "pmm_zone \<Rightarrow> page_array \<Rightarrow> pfn \<Rightarrow> pfn \<Rightarrow> (pmm_zone \<times> page_array) option" where
  "buddy_free_range z ps s e = do {
     kassert (z_held z);
     kassert (s \<ge> start_pfn z \<and> e \<le> end_pfn z);
     kassert (s \<le> e);
     let ps = fold (\<lambda>p ps. ps(p := clear_reserved (ps p))) [s..<e] ps;
     let z = z\<lparr>nr_pages_total := u64 (nr_pages_total z + (e - s))\<rparr>;
     free_chunks z ps s e
   }"

definition check_area :: "pmm_zone \<Rightarrow> page_array \<Rightarrow> nat \<Rightarrow> bool" where
  "check_area z ps ord \<longleftrightarrow>
     list_all (\<lambda>p. has (pg_flags (ps p)) PG_BUDDY \<and> pg_order (ps p) = ord
                 \<and> pfn_in_zone z p \<and> p AND (2 ^ ord - 1) = 0
                 \<and> pg_refcount (ps p) = 0)
       (fa_list (free_area z ord))
     \<and> length (fa_list (free_area z ord)) = nr_free (free_area z ord)"

definition buddy_zone_check :: "pmm_zone \<Rightarrow> page_array \<Rightarrow> bool" where
  "buddy_zone_check z ps \<longleftrightarrow>
     list_all (check_area z ps) [0..<PMM_MAX_ORDER]
     \<and> (let free_pages = foldl (\<lambda>n ord. u64 (n + length (fa_list (free_area z ord)) * 2 ^ ord))
                           0 [0..<PMM_MAX_ORDER]
        in free_pages = nr_pages_free z \<and> free_pages \<le> nr_pages_total z)"

section \<open>The invariant\<close>

abbreviation is_buddy :: "page_array \<Rightarrow> pfn \<Rightarrow> bool" where
  "is_buddy ps p \<equiv> has (pg_flags (ps p)) PG_BUDDY"

definition span :: "pfn \<Rightarrow> nat \<Rightarrow> pfn set" where
  "span p k = {p..<p + 2 ^ k}"

definition blocks :: "pmm_zone \<Rightarrow> (pfn \<times> nat) set" where
  "blocks z = {(p, k). k < PMM_MAX_ORDER \<and> p \<in> set (fa_list (free_area z k))}"

definition free_pages :: "pmm_zone \<Rightarrow> pfn set" where
  "free_pages z = (\<Union>(p, k) \<in> blocks z. span p k)"

definition listed :: "pmm_zone \<Rightarrow> nat" where
  "listed z = (\<Sum>k<PMM_MAX_ORDER. length (fa_list (free_area z k)) * 2 ^ k)"

definition managed :: "pmm_zone \<Rightarrow> page_array \<Rightarrow> pfn set" where
  "managed z ps =
     {p \<in> {start_pfn z..<end_pfn z}. \<not> has (pg_flags (ps p)) (PG_RESERVED OR PG_DEFERRED)}"

definition block_ok :: "pmm_zone \<Rightarrow> pfn \<Rightarrow> nat \<Rightarrow> bool" where
  "block_ok z p k \<longleftrightarrow> k < PMM_MAX_ORDER \<and> start_pfn z \<le> p \<and> p + 2 ^ k \<le> end_pfn z \<and> 2 ^ k dvd p"

definition areas_ok :: "pmm_zone \<Rightarrow> bool" where
  "areas_ok z \<longleftrightarrow>
     end_pfn z \<le> 2 ^ 52 \<and>
     (\<forall>k<PMM_MAX_ORDER. distinct (fa_list (free_area z k))
        \<and> nr_free (free_area z k) = length (fa_list (free_area z k)))"

definition lists_ok :: "pmm_zone \<Rightarrow> page_array \<Rightarrow> bool" where
  "lists_ok z ps \<longleftrightarrow>
     areas_ok z
     \<and> (\<forall>(p, k) \<in> blocks z. block_ok z p k \<and> is_buddy ps p \<and> pg_order (ps p) = k)
     \<and> (\<forall>p. start_pfn z \<le> p \<and> p < end_pfn z \<and> is_buddy ps p \<longrightarrow> (p, pg_order (ps p)) \<in> blocks z)
     \<and> (\<forall>p k q j x. (p, k) \<in> blocks z \<and> (q, j) \<in> blocks z \<and> x \<in> span p k \<and> x \<in> span q j
          \<longrightarrow> p = q \<and> k = j)
     \<and> (\<forall>p \<in> free_pages z. pg_refcount (ps p) = 0)"

definition coalesced :: "pmm_zone \<Rightarrow> bool" where
  "coalesced z \<longleftrightarrow>
     (\<forall>(p, k) \<in> blocks z. k < PMM_MAX_ORDER - 1 \<longrightarrow> (p XOR 2 ^ k, k) \<notin> blocks z)"

definition zone_ok :: "pmm_zone \<Rightarrow> page_array \<Rightarrow> bool" where
  "zone_ok z ps \<longleftrightarrow>
     lists_ok z ps \<and> coalesced z \<and> nr_pages_free z = listed z
     \<and> nr_pages_total z = card (managed z ps) \<and> free_pages z \<subseteq> managed z ps"

section \<open>Blocks and spans\<close>

lemma span_self [simp, intro]: "p \<in> span p k"
  by (simp add: span_def)

lemma span_nonempty [simp]: "span p k \<noteq> {}"
  using span_self by blast

lemma card_span [simp]: "card (span p k) = 2 ^ k"
  by (simp add: span_def)

lemma finite_span [simp]: "finite (span p k)"
  by (simp add: span_def)

lemma span_split: "span p (Suc k) = span p k \<union> span (p + 2 ^ k) k"
  by (auto simp: span_def)

lemma span_halves_disjoint: "span p k \<inter> span (p + 2 ^ k) k = {}"
  by (auto simp: span_def)

lemma span_mono: "j \<le> k \<Longrightarrow> span p j \<subseteq> span p k"
  using power_increasing [of j k "2::nat"] by (auto simp: span_def)

lemma block_ok_in_zone: "block_ok z p k \<Longrightarrow> span p k \<subseteq> {start_pfn z..<end_pfn z}"
  by (auto simp: block_ok_def span_def)

lemma block_ok_checks:
  assumes "block_ok z p k"
  shows "pfn_in_zone z p" and "p + 2 ^ k \<le> end_pfn z" and "p AND (2 ^ k - Suc 0) = 0" and "k < PMM_MAX_ORDER"
  using assms block_ok_in_zone [OF assms] span_self [of p k] and_mask_dvd_iff [of p k]
  by (auto simp: block_ok_def pfn_in_zone_def)

text \<open>The buddy of an aligned block is the other half of the block of the next order.\<close>

lemma buddy_cases:
  assumes "2 ^ k dvd (p::nat)"
  shows "p XOR 2 ^ k = (if 2 ^ Suc k dvd p then p + 2 ^ k else p - 2 ^ k)"
proof -
  obtain m where m: "p = 2 ^ k * m" using assms by blast
  have "p = push_bit k m" "2 ^ k = push_bit k (1::nat)"
    by (simp_all add: push_bit_eq_mult m mult.commute)
  then have "p XOR 2 ^ k = push_bit k (m XOR 1)" by (simp only: push_bit_xor)
  also have "\<dots> = 2 ^ k * (if even m then m + 1 else m - 1)"
    unfolding push_bit_eq_mult xor_one_eq by (auto simp: mult.commute)
  finally show ?thesis by (auto simp: m algebra_simps diff_mult_distrib2)
qed

lemma buddy_dvd: "2 ^ k dvd (p::nat) \<Longrightarrow> 2 ^ k dvd p XOR 2 ^ k"
  by (simp add: buddy_cases dvd_diff_nat)

lemma buddy_involutive: "((p::nat) XOR 2 ^ k) XOR 2 ^ k = p"
  by (simp add: xor.assoc)

lemma buddy_neq: "(p::nat) XOR 2 ^ k \<noteq> p"
proof
  assume "p XOR 2 ^ k = p"
  then have "p XOR (p XOR 2 ^ k) = p XOR p" by (rule arg_cong)
  then show False by (simp add: xor.assoc [symmetric])
qed

lemma buddy_merge:
  assumes "2 ^ k dvd (p::nat)" and "b = p XOR 2 ^ k" and "m = (if b < p then b else p)"
  shows "2 ^ Suc k dvd m" and "span m (Suc k) = span p k \<union> span b k"
    and "span p k \<inter> span b k = {}" and "m = min p b"
proof -
  have odd: "2 ^ Suc k dvd p - 2 ^ k \<and> 2 ^ k \<le> p" if "\<not> 2 ^ Suc k dvd p"
  proof -
    obtain n where n: "p = 2 ^ k * n" using assms(1) by blast
    then have "odd n" using that by auto
    then obtain j where "n = 2 * j + 1" by (rule oddE)
    then have "p = 2 ^ Suc k * j + 2 ^ k" by (simp add: n algebra_simps)
    then show ?thesis by simp
  qed
  consider (lo) "2 ^ Suc k dvd p" "b = p + 2 ^ k" "m = p"
    | (hi) "\<not> 2 ^ Suc k dvd p" "b = p - 2 ^ k" "m = b" "2 ^ Suc k dvd b" "b + 2 ^ k = p"
    using buddy_cases [OF assms(1)] assms(2,3) odd by (auto split: if_splits)
  note c = this
  show "2 ^ Suc k dvd m" using c by cases auto
  show "span m (Suc k) = span p k \<union> span b k"
    using c by cases (auto simp: span_split)
  show "span p k \<inter> span b k = {}"
    using c span_halves_disjoint [of p k] span_halves_disjoint [of b k] by cases (auto simp: Int_commute)
  show "m = min p b" using assms(3) by auto
qed

section \<open>Counting\<close>

lemma finite_blocks [simp]: "finite (blocks z)"
proof -
  have "blocks z \<subseteq> (\<Union>k<PMM_MAX_ORDER. set (fa_list (free_area z k)) \<times> {k})"
    by (auto simp: blocks_def)
  then show ?thesis by (rule finite_subset) auto
qed

lemma blocks_order: "(p, k) \<in> blocks z \<Longrightarrow> k < PMM_MAX_ORDER"
  by (simp add: blocks_def)

lemma free_pagesI: "(p, k) \<in> blocks z \<Longrightarrow> q \<in> span p k \<Longrightarrow> q \<in> free_pages z"
  by (auto simp: free_pages_def)

lemma free_pagesE:
  assumes "q \<in> free_pages z"
  obtains p k where "(p, k) \<in> blocks z" and "q \<in> span p k"
  using assms by (auto simp: free_pages_def)

lemma finite_free_pages [simp]: "finite (free_pages z)"
  by (auto simp: free_pages_def)

lemma lists_okD:
  assumes "lists_ok z ps"
  shows "areas_ok z"
    and "(p, k) \<in> blocks z \<Longrightarrow> block_ok z p k"
    and "(p, k) \<in> blocks z \<Longrightarrow> is_buddy ps p"
    and "(p, k) \<in> blocks z \<Longrightarrow> pg_order (ps p) = k"
    and "start_pfn z \<le> p \<Longrightarrow> p < end_pfn z \<Longrightarrow> is_buddy ps p \<Longrightarrow> (p, pg_order (ps p)) \<in> blocks z"
    and "(p, k) \<in> blocks z \<Longrightarrow> (q, j) \<in> blocks z \<Longrightarrow> x \<in> span p k \<Longrightarrow> x \<in> span q j \<Longrightarrow> p = q \<and> k = j"
    and "p \<in> free_pages z \<Longrightarrow> pg_refcount (ps p) = 0"
proof -
  show "(p, k) \<in> blocks z \<Longrightarrow> (q, j) \<in> blocks z \<Longrightarrow> x \<in> span p k \<Longrightarrow> x \<in> span q j \<Longrightarrow> p = q \<and> k = j"
    using assms unfolding lists_ok_def by blast
qed (use assms in \<open>auto simp: lists_ok_def\<close>)

lemma areas_okD:
  assumes "areas_ok z" and "k < PMM_MAX_ORDER"
  shows "distinct (fa_list (free_area z k))"
    and "nr_free (free_area z k) = length (fa_list (free_area z k))"
  using assms by (auto simp: areas_ok_def)

lemma free_pages_in_zone: "lists_ok z ps \<Longrightarrow> free_pages z \<subseteq> {start_pfn z..<end_pfn z}"
  using lists_okD(2) block_ok_in_zone by (fastforce elim!: free_pagesE)

lemma listed_eq_card:
  assumes "lists_ok z ps"
  shows "listed z = card (free_pages z)"
proof -
  have "(case b of (p, k) \<Rightarrow> span p k) \<inter> (case c of (p, k) \<Rightarrow> span p k) = {}"
    if "b \<in> blocks z" "c \<in> blocks z" "b \<noteq> c" for b c
    using that lists_okD(6) [OF assms] by (cases b; cases c) (auto simp: disjoint_iff)
  then have "card (free_pages z) = (\<Sum>b\<in>blocks z. card (case b of (p, k) \<Rightarrow> span p k))"
    unfolding free_pages_def by (intro card_UN_disjoint) auto
  also have "\<dots> = (\<Sum>(p, k)\<in>blocks z. 2 ^ k)"
    by (intro sum.cong) auto
  also have "\<dots> = (\<Sum>(k, p)\<in>(SIGMA k:{..<PMM_MAX_ORDER}. set (fa_list (free_area z k))). 2 ^ k)"
    by (rule sum.reindex_bij_witness [of _ "\<lambda>(k, p). (p, k)" "\<lambda>(p, k). (k, p)"])
      (auto simp: blocks_def)
  also have "\<dots> = (\<Sum>k<PMM_MAX_ORDER. \<Sum>p\<in>set (fa_list (free_area z k)). 2 ^ k)"
    by (subst sum.Sigma) auto
  also have "\<dots> = listed z"
    unfolding listed_def
    using areas_okD(1) [OF lists_okD(1) [OF assms]]
    by (intro sum.cong) (auto simp: distinct_card)
  finally show ?thesis by simp
qed

lemma listed_bound:
  assumes "lists_ok z ps"
  shows "listed z \<le> end_pfn z - start_pfn z" and "listed z \<le> 2 ^ 52"
proof -
  have "card (free_pages z) \<le> card {start_pfn z..<end_pfn z}"
    using free_pages_in_zone [OF assms] by (intro card_mono) auto
  then show "listed z \<le> end_pfn z - start_pfn z" by (simp add: listed_eq_card [OF assms])
  then show "listed z \<le> 2 ^ 52"
    using lists_okD(1) [OF assms] by (auto simp: areas_ok_def)
qed

lemma length_le_listed:
  assumes "k < PMM_MAX_ORDER"
  shows "length (fa_list (free_area z k)) * 2 ^ k \<le> listed z"
  unfolding listed_def
  using assms by (intro member_le_sum [of k "{..<PMM_MAX_ORDER}" "\<lambda>k. length (fa_list (free_area z k)) * 2 ^ k"]) auto

lemma nr_free_bound:
  assumes "lists_ok z ps" and "k < PMM_MAX_ORDER"
  shows "nr_free (free_area z k) \<le> 2 ^ 52"
proof -
  have "length (fa_list (free_area z k)) * 1 \<le> length (fa_list (free_area z k)) * 2 ^ k"
    by (intro mult_le_mono) auto
  then show ?thesis
    using length_le_listed [OF assms(2), of z] listed_bound(2) [OF assms(1)]
      areas_okD(2) [OF lists_okD(1) [OF assms(1)] assms(2)] by linarith
qed

section \<open>Pushing and removing one block\<close>

lemma zone_frame [simp]:
  "blocks (z\<lparr>nr_pages_free := n\<rparr>) = blocks z"
  "blocks (z\<lparr>nr_pages_total := n\<rparr>) = blocks z"
  "blocks (z\<lparr>z_held := b\<rparr>) = blocks z"
  "free_pages (z\<lparr>nr_pages_free := n\<rparr>) = free_pages z"
  "free_pages (z\<lparr>nr_pages_total := n\<rparr>) = free_pages z"
  "free_pages (z\<lparr>z_held := b\<rparr>) = free_pages z"
  "listed (z\<lparr>nr_pages_free := n\<rparr>) = listed z"
  "listed (z\<lparr>nr_pages_total := n\<rparr>) = listed z"
  "listed (z\<lparr>z_held := b\<rparr>) = listed z"
  "lists_ok (z\<lparr>nr_pages_free := n\<rparr>) ps = lists_ok z ps"
  "lists_ok (z\<lparr>nr_pages_total := n\<rparr>) ps = lists_ok z ps"
  "lists_ok (z\<lparr>z_held := b\<rparr>) ps = lists_ok z ps"
  "coalesced (z\<lparr>nr_pages_free := n\<rparr>) = coalesced z"
  "coalesced (z\<lparr>nr_pages_total := n\<rparr>) = coalesced z"
  "coalesced (z\<lparr>z_held := b\<rparr>) = coalesced z"
  "managed (z\<lparr>nr_pages_free := n\<rparr>) ps = managed z ps"
  "managed (z\<lparr>nr_pages_total := n\<rparr>) ps = managed z ps"
  "managed (z\<lparr>z_held := b\<rparr>) ps = managed z ps"
  by (simp_all add: blocks_def free_pages_def listed_def lists_ok_def areas_ok_def block_ok_def
      coalesced_def managed_def)

text \<open>What the helpers leave alone: the zone's bounds, counters and lock.\<close>

definition same_zone :: "pmm_zone \<Rightarrow> pmm_zone \<Rightarrow> bool" where
  "same_zone z z' \<longleftrightarrow>
     z_name z' = z_name z \<and> start_pfn z' = start_pfn z \<and> end_pfn z' = end_pfn z
     \<and> nr_pages_total z' = nr_pages_total z \<and> nr_pages_free z' = nr_pages_free z
     \<and> z_held z' = z_held z"

lemma same_zone_refl [simp, intro]: "same_zone z z"
  by (simp add: same_zone_def)

lemma same_zone_trans: "same_zone a b \<Longrightarrow> same_zone b c \<Longrightarrow> same_zone a c"
  by (simp add: same_zone_def)

lemma same_zone_block_ok: "same_zone z z' \<Longrightarrow> block_ok z' = block_ok z"
  by (simp add: same_zone_def block_ok_def fun_eq_iff)

text \<open>What the helpers leave alone of the descriptors: all but the buddy flag and the order.\<close>

definition same_pages :: "page_array \<Rightarrow> page_array \<Rightarrow> bool" where
  "same_pages ps ps' \<longleftrightarrow>
     (\<forall>p. pg_refcount (ps' p) = pg_refcount (ps p) \<and> pg_zone (ps' p) = pg_zone (ps p)
        \<and> pg_slab (ps' p) = pg_slab (ps p)
        \<and> (\<forall>j. j \<noteq> 1 \<longrightarrow> bit (pg_flags (ps' p)) j = bit (pg_flags (ps p)) j))"

lemma same_pages_refl [simp, intro]: "same_pages ps ps"
  by (simp add: same_pages_def)

lemma same_pages_trans: "same_pages a b \<Longrightarrow> same_pages b c \<Longrightarrow> same_pages a c"
  by (simp add: same_pages_def)

lemma same_pages_managed:
  "same_zone z z' \<Longrightarrow> same_pages ps ps' \<Longrightarrow> managed z' ps' = managed z ps"
  by (auto simp: managed_def same_zone_def same_pages_def PG_defs flag_simps)

lemma set_buddy_flag [simp]:
  "has (w OR PG_BUDDY) PG_BUDDY" "\<not> has (w AND NOT PG_BUDDY) PG_BUDDY"
  by (simp_all add: PG_defs flag_simps)

lemma free_area_push:
  assumes ok: "lists_ok z ps" and b: "block_ok z p k" and fresh: "span p k \<inter> free_pages z = {}"
    and rc: "\<forall>q \<in> span p k. pg_refcount (ps q) = 0"
    and push: "free_area_push z ps p k = (z', ps')"
  shows "lists_ok z' ps'" and "blocks z' = insert (p, k) (blocks z)"
    and "free_pages z' = free_pages z \<union> span p k" and "listed z' = listed z + 2 ^ k"
    and "same_zone z z'" and "same_pages ps ps'"
proof -
  let ?a = "(free_area z k)\<lparr>fa_list := p # fa_list (free_area z k),
              nr_free := u64 (nr_free (free_area z k) + 1)\<rparr>"
  let ?pg = "(ps p)\<lparr>pg_order := u8 k, pg_flags := pg_flags (ps p) OR PG_BUDDY\<rparr>"
  have k: "k < PMM_MAX_ORDER" using b by (simp add: block_ok_def)
  have z': "z' = z\<lparr>free_area := (free_area z)(k := ?a)\<rparr>" and ps': "ps' = ps(p := ?pg)"
    using push by (auto simp: free_area_push_def Let_def)
  show zz: "same_zone z z'" by (simp add: z' same_zone_def)
  show "same_pages ps ps'" by (auto simp: ps' same_pages_def PG_defs flag_simps)
  show bl: "blocks z' = insert (p, k) (blocks z)"
    using k by (auto simp: z' blocks_def)
  show fp: "free_pages z' = free_pages z \<union> span p k"
    by (auto simp: free_pages_def bl)
  define f where "f = (\<lambda>j. length (fa_list (free_area z j)) * 2 ^ j)"
  have "listed z' = sum (f(k := f k + 2 ^ k)) {..<PMM_MAX_ORDER}"
    unfolding listed_def f_def by (intro sum.cong) (auto simp: z' algebra_simps)
  moreover have "sum f {..<PMM_MAX_ORDER} = listed z" by (simp add: listed_def f_def)
  ultimately show "listed z' = listed z + 2 ^ k"
    using sum_lessThan_upd [OF k, of f "f k + 2 ^ k"] by linarith
  have p: "p \<notin> free_pages z" using fresh span_self by blast
  then have notp: "q \<noteq> p" if "(q, j) \<in> blocks z" for q j using that free_pagesI by blast
  have "p \<notin> set (fa_list (free_area z k))"
    using notp [of p k] k by (auto simp: blocks_def)
  moreover have "nr_free (free_area z k) \<le> 2 ^ 52" using nr_free_bound [OF ok k] .
  ultimately have areas: "areas_ok z'"
    using lists_okD(1) [OF ok] k by (auto simp: areas_ok_def z' wrap_simps)
  have k8: "u8 k = k" using k by (simp add: u8_def PMM_MAX_ORDER_def)
  show "lists_ok z' ps'"
    unfolding lists_ok_def
  proof (intro conjI)
    show "areas_ok z'" by (rule areas)
    show "\<forall>(q, j) \<in> blocks z'. block_ok z' q j \<and> is_buddy ps' q \<and> pg_order (ps' q) = j"
      using lists_okD(2-4) [OF ok] b notp k8 by (auto simp: bl same_zone_block_ok [OF zz] ps')
    show "\<forall>q. start_pfn z' \<le> q \<and> q < end_pfn z' \<and> is_buddy ps' q \<longrightarrow> (q, pg_order (ps' q)) \<in> blocks z'"
      using lists_okD(5) [OF ok] k8 zz by (auto simp: bl ps' same_zone_def)
    have "x \<notin> span p k" if "(q, j) \<in> blocks z" "x \<in> span q j" for q j x
      using fresh free_pagesI [OF that] by blast
    then show "\<forall>q j r i x. (q, j) \<in> blocks z' \<and> (r, i) \<in> blocks z' \<and> x \<in> span q j \<and> x \<in> span r i
        \<longrightarrow> q = r \<and> j = i"
      using lists_okD(6) [OF ok] by (simp add: bl) blast
    show "\<forall>q \<in> free_pages z'. pg_refcount (ps' q) = 0"
      using lists_okD(7) [OF ok] rc by (auto simp: fp ps')
  qed
qed

lemma free_area_remove:
  assumes ok: "lists_ok z ps" and b: "(p, k) \<in> blocks z"
  obtains z' ps' where "free_area_remove z ps p k = Some (z', ps')"
    and "lists_ok z' ps'" and "blocks z' = blocks z - {(p, k)}"
    and "free_pages z' = free_pages z - span p k" and "listed z' + 2 ^ k = listed z"
    and "same_zone z z'" and "same_pages ps ps'"
proof -
  have k: "k < PMM_MAX_ORDER" and inl: "p \<in> set (fa_list (free_area z k))"
    using b by (auto simp: blocks_def)
  note ar = areas_okD [OF lists_okD(1) [OF ok]]
  let ?a = "(free_area z k)\<lparr>fa_list := remove1 p (fa_list (free_area z k)),
              nr_free := sub64 (nr_free (free_area z k)) 1\<rparr>"
  let ?ps = "ps(p := (ps p)\<lparr>pg_flags := pg_flags (ps p) AND NOT PG_BUDDY\<rparr>)"
  define z' where "z' = z\<lparr>free_area := (free_area z)(k := ?a)\<rparr>"
  have pos: "0 < nr_free (free_area z k)" using ar(2) [OF k] inl by (cases "fa_list (free_area z k)") auto
  have bnd: "nr_free (free_area z k) \<le> 2 ^ 52" by (rule nr_free_bound [OF ok k])
  have nf: "sub64 (nr_free (free_area z k)) 1 = length (remove1 p (fa_list (free_area z k)))"
    using sub64_id [of 1 "nr_free (free_area z k)"] pos bnd inl ar(2) [OF k]
    by (simp add: length_remove1 Suc_le_eq)
  have step: "free_area_remove z ps p k = Some (z', ?ps)"
    using pos by (simp add: free_area_remove_def Let_def z'_def)
  have zz: "same_zone z z'" by (simp add: same_zone_def z'_def)
  have bl: "blocks z' = blocks z - {(p, k)}"
    using ar(1) [OF k] k by (auto simp: blocks_def z'_def set_remove1_eq split: if_splits)
  have fp: "free_pages z' = free_pages z - span p k"
  proof -
    have "x \<notin> span p k" if "(q, j) \<in> blocks z - {(p, k)}" "x \<in> span q j" for q j x
      using lists_okD(6) [OF ok _ b, of q j x] that by auto
    then show ?thesis by (auto simp: free_pages_def bl)
  qed
  define f where "f = (\<lambda>j. length (fa_list (free_area z j)) * 2 ^ j)"
  have "listed z' = sum (f(k := f k - 2 ^ k)) {..<PMM_MAX_ORDER}"
    unfolding listed_def f_def using inl
    by (intro sum.cong) (auto simp: z'_def length_remove1 diff_mult_distrib)
  moreover have "sum f {..<PMM_MAX_ORDER} = listed z" by (simp add: listed_def f_def)
  moreover have "2 ^ k \<le> f k"
    using pos ar(2) [OF k] by (cases "length (fa_list (free_area z k))") (auto simp: f_def)
  ultimately have li: "listed z' + 2 ^ k = listed z"
    using sum_lessThan_upd [OF k, of f "f k - 2 ^ k"] by linarith
  have notp: "q \<noteq> p" if "(q, j) \<in> blocks z" "j \<noteq> k \<or> q \<noteq> p" for q j
    using lists_okD(4) [OF ok] b that by auto
  have "lists_ok z' ?ps"
    unfolding lists_ok_def
  proof (intro conjI)
    show "areas_ok z'" using lists_okD(1) [OF ok] nf by (auto simp: areas_ok_def z'_def)
    show "\<forall>(q, j) \<in> blocks z'. block_ok z' q j \<and> is_buddy ?ps q \<and> pg_order (?ps q) = j"
    proof clarify
      fix q j
      assume "(q, j) \<in> blocks z'"
      then have "(q, j) \<in> blocks z" and "q \<noteq> p" using notp [of q j] bl by auto
      then show "block_ok z' q j \<and> is_buddy ?ps q \<and> pg_order (?ps q) = j"
        using lists_okD(2-4) [OF ok, of q j] by (simp add: same_zone_block_ok [OF zz])
    qed
    show "\<forall>q. start_pfn z' \<le> q \<and> q < end_pfn z' \<and> is_buddy ?ps q \<longrightarrow> (q, pg_order (?ps q)) \<in> blocks z'"
      using lists_okD(5) [OF ok] zz by (auto simp: bl same_zone_def)
    show "\<forall>q j r i x. (q, j) \<in> blocks z' \<and> (r, i) \<in> blocks z' \<and> x \<in> span q j \<and> x \<in> span r i
        \<longrightarrow> q = r \<and> j = i"
      using lists_okD(6) [OF ok] by (simp add: bl) blast
    show "\<forall>q \<in> free_pages z'. pg_refcount (?ps q) = 0"
      using lists_okD(7) [OF ok] by (auto simp: fp)
  qed
  moreover have "same_pages ps ?ps" by (auto simp: same_pages_def PG_defs flag_simps dest: bit_length)
  ultimately show thesis using that step bl fp li zz by blast
qed

lemma push_frame: "free_area_push z ps p k = (z', ps') \<Longrightarrow> q \<noteq> p \<Longrightarrow> ps' q = ps q"
  by (auto simp: free_area_push_def Let_def)

lemma remove_frame: "free_area_remove z ps p k = Some (z', ps') \<Longrightarrow> q \<noteq> p \<Longrightarrow> ps' q = ps q"
  by (auto simp: free_area_remove_def Let_def)

section \<open>Allocation\<close>

text \<open>
  The split loop gives back, piece by piece, all of the block of order \<open>k\<close> but its first
  \<open>2 ^ ord\<close> frames.
\<close>

lemma split_block:
  assumes "lists_ok z ps" and "coalesced z" and "ord \<le> k" and "block_ok z p k"
    and "span p k \<inter> free_pages z = {}" and "\<forall>q \<in> span p k. pg_refcount (ps q) = 0"
    and "split_block z ps p ord k = (z', ps')"
  shows "lists_ok z' ps' \<and> coalesced z'
    \<and> free_pages z' = free_pages z \<union> (span p k - span p ord)
    \<and> listed z' + 2 ^ ord = listed z + 2 ^ k \<and> same_zone z z' \<and> same_pages ps ps'"
  using assms
proof (induction k arbitrary: z ps)
  case 0
  then show ?case by (simp add: split_block.simps [of z ps p 0 0])
next
  case (Suc j)
  show ?case
  proof (cases "ord = Suc j")
    case True
    then show ?thesis using Suc.prems by (simp add: split_block.simps [of z ps p "Suc j" "Suc j"])
  next
    case False
    then have le: "ord \<le> j" using Suc.prems(3) by simp
    obtain z1 ps1 where push: "free_area_push z ps (p + 2 ^ j) j = (z1, ps1)" by fastforce
    have rest: "split_block z1 ps1 p ord j = (z', ps')"
      using Suc.prems(7) le push by (simp add: split_block.simps [of z ps p ord "Suc j"])
    have al: "2 ^ Suc j dvd p" using Suc.prems(4) by (simp add: block_ok_def)
    then have alj: "2 ^ j dvd p" by (rule pow2_dvd_trans [rotated]) simp
    then have up: "block_ok z (p + 2 ^ j) j" and lo: "block_ok z p j"
      using Suc.prems(4) by (auto simp: block_ok_def)
    have fresh: "span (p + 2 ^ j) j \<inter> free_pages z = {}" and fp: "span p j \<inter> free_pages z = {}"
      and rc: "\<forall>q \<in> span (p + 2 ^ j) j. pg_refcount (ps q) = 0"
      and rp: "\<forall>q \<in> span p j. pg_refcount (ps q) = 0"
      using Suc.prems(5,6) by (auto simp: span_split)
    note P = free_area_push [OF Suc.prems(1) up fresh rc push]
    have bud: "(p + 2 ^ j) XOR 2 ^ j = p"
      using buddy_cases [OF alj] al buddy_involutive [of p j] by simp
    have nb: "(p, j) \<notin> blocks z" using fp free_pagesI [of p j z p] by auto
    have "(q XOR 2 ^ i, i) \<noteq> (p + 2 ^ j, j)" if "(q, i) \<in> blocks z" for q i
      using that nb buddy_involutive [of q i] bud by auto
    then have co: "coalesced z1"
      using Suc.prems(2) buddy_neq [of "p + 2 ^ j" j] bud nb unfolding coalesced_def P(2) by auto
    have "span p j \<inter> free_pages z1 = {}" using fp span_halves_disjoint [of p j] P(3) by auto
    moreover have "\<forall>q \<in> span p j. pg_refcount (ps1 q) = 0" using rp P(6) by (auto simp: same_pages_def)
    moreover have "block_ok z1 p j" using lo same_zone_block_ok [OF P(5)] by simp
    ultimately have IH: "lists_ok z' ps' \<and> coalesced z'
        \<and> free_pages z' = free_pages z1 \<union> (span p j - span p ord)
        \<and> listed z' + 2 ^ ord = listed z1 + 2 ^ j \<and> same_zone z1 z' \<and> same_pages ps1 ps'"
      using Suc.IH [OF P(1) co le _ _ _ rest] by blast
    have "span p ord \<subseteq> span p j" using le by (rule span_mono)
    then have "free_pages z1 \<union> (span p j - span p ord) = free_pages z \<union> (span p (Suc j) - span p ord)"
      using P(3) span_halves_disjoint [of p j] by (auto simp: span_split)
    then show ?thesis
      using IH P(4-6) by (auto intro: same_zone_trans same_pages_trans)
  qed
qed

lemma block_ok_mono:
  assumes "block_ok z p k" and "ord \<le> k"
  shows "block_ok z p ord"
proof -
  have "(2::nat) ^ ord \<le> 2 ^ k" using assms(2) by (rule power_increasing) simp
  then have "p + 2 ^ ord \<le> end_pfn z" using assms(1) unfolding block_ok_def by linarith
  then show ?thesis using assms pow2_dvd_trans [of ord k p] by (auto simp: block_ok_def)
qed

lemma coalesced_mono: "coalesced z \<Longrightarrow> blocks z' \<subseteq> blocks z \<Longrightarrow> coalesced z'"
  by (auto simp: coalesced_def)

lemma not_buddy:
  "lists_ok z ps \<Longrightarrow> q \<in> {start_pfn z..<end_pfn z} - free_pages z \<Longrightarrow> \<not> is_buddy ps q"
  using lists_okD(5) free_pagesI [OF _ span_self] by fastforce

lemma lists_ok_page_upd:
  assumes "lists_ok z ps" and "q \<notin> free_pages z" and "\<not> has (pg_flags pg) PG_BUDDY"
  shows "lists_ok z (ps(q := pg))"
proof -
  have "p \<noteq> q" if "(p, k) \<in> blocks z" for p k using assms(2) free_pagesI [OF that] by blast
  then have "\<forall>(p, k) \<in> blocks z. block_ok z p k \<and> is_buddy (ps(q := pg)) p \<and> pg_order ((ps(q := pg)) p) = k"
    using lists_okD(2-4) [OF assms(1)] by auto
  moreover have "\<forall>p \<in> free_pages z. pg_refcount ((ps(q := pg)) p) = 0"
    using lists_okD(7) [OF assms(1)] assms(2) by auto
  moreover have "\<forall>p. start_pfn z \<le> p \<and> p < end_pfn z \<and> is_buddy (ps(q := pg)) p
      \<longrightarrow> (p, pg_order ((ps(q := pg)) p)) \<in> blocks z"
    using lists_okD(5) [OF assms(1)] assms(3) by simp
  ultimately show ?thesis using assms(1) unfolding lists_ok_def by blast
qed

text \<open>What an allocation that found a block gives its caller.\<close>

definition alloc_post ::
    "pmm_zone \<Rightarrow> page_array \<Rightarrow> nat \<Rightarrow> pmm_zone \<Rightarrow> page_array \<Rightarrow> pfn \<Rightarrow> bool" where
  "alloc_post z ps ord z' ps' p \<longleftrightarrow>
     zone_ok z' ps' \<and> block_ok z p ord \<and> span p ord \<subseteq> free_pages z
     \<and> free_pages z' = free_pages z - span p ord
     \<and> nr_pages_free z' + 2 ^ ord = nr_pages_free z
     \<and> same_zone z (z'\<lparr>nr_pages_free := nr_pages_free z\<rparr>)
     \<and> pg_refcount (ps' p) = 1 \<and> pg_order (ps' p) = ord
     \<and> same_pages ps (ps'(p := (ps' p)\<lparr>pg_refcount := pg_refcount (ps p)\<rparr>))"

lemma alloc_hit:
  assumes ok: "zone_ok z ps" and ord: "ord \<le> k" "k < PMM_MAX_ORDER"
    and hit: "fa_list (free_area z k) = p # rest"
  obtains z' ps' where "alloc_from z ps ord k = Some (z', ps', Some p)" and "alloc_post z ps ord z' ps' p"
proof -
  have lo: "lists_ok z ps" and co: "coalesced z" and nf: "nr_pages_free z = listed z"
    and tot: "nr_pages_total z = card (managed z ps)" and fm: "free_pages z \<subseteq> managed z ps"
    using ok by (auto simp: zone_ok_def)
  have b: "(p, k) \<in> blocks z" using ord hit by (simp add: blocks_def)
  obtain z1 ps1 where R: "free_area_remove z ps p k = Some (z1, ps1)"
    and R1: "lists_ok z1 ps1" "blocks z1 = blocks z - {(p, k)}" "free_pages z1 = free_pages z - span p k"
      "listed z1 + 2 ^ k = listed z" "same_zone z z1" "same_pages ps ps1"
    using free_area_remove [OF lo b] by metis
  have bok: "block_ok z p k" using lists_okD(2) [OF lo b] .
  have free: "span p k \<subseteq> free_pages z" using free_pagesI [OF b] by blast
  have rc: "\<forall>q \<in> span p k. pg_refcount (ps1 q) = 0"
    using free lists_okD(7) [OF lo] R1(6) by (auto simp: same_pages_def)
  obtain z2 ps2 where S: "split_block z1 ps1 p ord k = (z2, ps2)" by fastforce
  have "coalesced z1" using co R1(2) by (auto intro: coalesced_mono)
  then have S1: "lists_ok z2 ps2" "coalesced z2" "free_pages z2 = free_pages z1 \<union> (span p k - span p ord)"
      "listed z2 + 2 ^ ord = listed z1 + 2 ^ k" "same_zone z1 z2" "same_pages ps1 ps2"
    using split_block [OF R1(1) _ ord(1) _ _ rc S] R1(3) bok same_zone_block_ok [OF R1(5)] by auto
  define z' where "z' = z2\<lparr>nr_pages_free := sub64 (nr_pages_free z2) (2 ^ ord)\<rparr>"
  define ps' where "ps' = ps2(p := (ps2 p)\<lparr>pg_order := u8 ord, pg_refcount := 1\<rparr>)"
  have step: "alloc_from z ps ord k = Some (z', ps', Some p)"
    using ord hit R S lists_okD(3,4) [OF lo b]
    by (auto simp: alloc_from.simps [of z ps ord k] free_area_remove_def z'_def ps'_def Let_def
        split: option.splits if_splits)
  have sp: "span p ord \<subseteq> span p k" using ord(1) by (rule span_mono)
  have zz: "same_zone z z2" and pp: "same_pages ps ps2"
    using R1(5,6) S1(5,6) same_zone_trans same_pages_trans by blast+
  have li: "listed z2 + 2 ^ ord = listed z" using S1(4) R1(4) by simp
  have nf': "nr_pages_free z' = listed z2"
    using li nf zz listed_bound(2) [OF lo] by (simp add: z'_def same_zone_def sub64_id)
  have fp: "free_pages z2 = free_pages z - span p ord" using S1(3) R1(3) sp free by auto
  have man: "managed z2 ps' = managed z ps"
    using same_pages_managed [OF zz pp] by (auto simp: ps'_def managed_def)
  have "p \<in> {start_pfn z2..<end_pfn z2} - free_pages z2"
    using fp zz block_ok_in_zone [OF bok] span_self [of p] by (fastforce simp: same_zone_def)
  then have "\<not> is_buddy ps2 p" and "p \<notin> free_pages z2" using not_buddy [OF S1(1)] by auto
  then have "lists_ok z2 ps'" unfolding ps'_def by (intro lists_ok_page_upd [OF S1(1)]) auto
  then have "zone_ok z' ps'"
    using S1(2) nf' man tot fm fp zz by (simp add: zone_ok_def z'_def same_zone_def) blast
  moreover have "block_ok z p ord" using bok ord(1) by (rule block_ok_mono)
  moreover have "u8 ord = ord" using ord by (simp add: u8_def PMM_MAX_ORDER_def)
  then have "pg_refcount (ps' p) = 1 \<and> pg_order (ps' p) = ord
      \<and> same_pages ps (ps'(p := (ps' p)\<lparr>pg_refcount := pg_refcount (ps p)\<rparr>))"
    using pp by (simp add: same_pages_def ps'_def)
  moreover have "same_zone z (z'\<lparr>nr_pages_free := nr_pages_free z\<rparr>)"
    using zz by (simp add: same_zone_def z'_def)
  moreover have "free_pages z' = free_pages z - span p ord" and "nr_pages_free z' + 2 ^ ord = nr_pages_free z"
    and "span p ord \<subseteq> free_pages z"
    using fp nf nf' li sp free by (auto simp: z'_def)
  ultimately have "alloc_post z ps ord z' ps' p" unfolding alloc_post_def by blast
  then show thesis using that step by blast
qed

lemma alloc_from_total:
  assumes ok: "zone_ok z ps" and "ord \<le> k" and "k \<le> PMM_MAX_ORDER"
  shows "(alloc_from z ps ord k = Some (z, ps, None)
            \<and> (\<forall>j. k \<le> j \<and> j < PMM_MAX_ORDER \<longrightarrow> fa_list (free_area z j) = []))
       \<or> (\<exists>z' ps' p j. alloc_from z ps ord k = Some (z', ps', Some p) \<and> alloc_post z ps ord z' ps' p
            \<and> k \<le> j \<and> j < PMM_MAX_ORDER \<and> fa_list (free_area z j) \<noteq> [])"
  using assms(2,3)
proof (induction "PMM_MAX_ORDER - k" arbitrary: k)
  case 0
  then have "k = PMM_MAX_ORDER" by simp
  then show ?case by (auto simp: alloc_from.simps [of z ps ord PMM_MAX_ORDER])
next
  case (Suc n)
  then have k: "k < PMM_MAX_ORDER" by simp
  show ?case
  proof (cases "fa_list (free_area z k)")
    case Nil
    then have "alloc_from z ps ord k = alloc_from z ps ord (Suc k)"
      using k by (simp add: alloc_from.simps [of z ps ord k])
    moreover have "n = PMM_MAX_ORDER - Suc k" using Suc.hyps(2) by simp
    moreover have "fa_list (free_area z j) = []"
      if "\<forall>j. Suc k \<le> j \<and> j < PMM_MAX_ORDER \<longrightarrow> fa_list (free_area z j) = []" "k \<le> j" "j < PMM_MAX_ORDER" for j
      using that Nil by (cases "j = k") auto
    ultimately show ?thesis
      using Suc.hyps(1) [of "Suc k"] Suc.prems(1) k by (metis Suc_leD Suc_leI le_SucI)
  next
    case (Cons p rest)
    obtain z' ps' where "alloc_from z ps ord k = Some (z', ps', Some p)" "alloc_post z ps ord z' ps' p"
      using alloc_hit [OF ok Suc.prems(1) k Cons] by blast
    then show ?thesis
      using k Cons by (intro disjI2 exI [of _ z'] exI [of _ ps'] exI [of _ p] exI [of _ k]) simp
  qed
qed

section \<open>Freeing\<close>

text \<open>
  What the merge loop keeps: the block in hand is a block of the zone whose frames are unused and on
  no list, and the frames on the lists and in hand together are always the same.
\<close>

definition in_hand :: "pmm_zone \<Rightarrow> page_array \<Rightarrow> pfn \<Rightarrow> nat \<Rightarrow> bool" where
  "in_hand z ps p k \<longleftrightarrow>
     lists_ok z ps \<and> coalesced z \<and> block_ok z p k \<and> span p k \<inter> free_pages z = {}
     \<and> (\<forall>q \<in> span p k. pg_refcount (ps q) = 0)"

lemma merge_step:
  assumes I: "in_hand z ps p k" and k: "k < PMM_MAX_ORDER - 1" and b: "b = p XOR 2 ^ k"
    and m: "m = (if b < p then b else p)" and bl: "(b, k) \<in> blocks z"
  obtains z' ps' where "free_area_remove z ps b k = Some (z', ps')" and "in_hand z' ps' m (Suc k)"
    and "free_pages z' \<union> span m (Suc k) = free_pages z \<union> span p k"
    and "listed z' + 2 ^ Suc k = listed z + 2 ^ k" and "same_zone z z'" and "same_pages ps ps'"
    and "\<forall>q. q \<notin> free_pages z \<longrightarrow> ps' q = ps q"
proof -
  have lo: "lists_ok z ps" and co: "coalesced z" and bp: "block_ok z p k"
    and dis: "span p k \<inter> free_pages z = {}" and rc: "\<forall>q \<in> span p k. pg_refcount (ps q) = 0"
    using I by (auto simp: in_hand_def)
  obtain z' ps' where R: "free_area_remove z ps b k = Some (z', ps')"
    and R1: "lists_ok z' ps'" "blocks z' = blocks z - {(b, k)}" "free_pages z' = free_pages z - span b k"
      "listed z' + 2 ^ k = listed z" "same_zone z z'" "same_pages ps ps'"
    using free_area_remove [OF lo bl] by metis
  have bb: "block_ok z b k" using lists_okD(2) [OF lo bl] .
  have bf: "span b k \<subseteq> free_pages z" using free_pagesI [OF bl] by blast
  have "2 ^ k dvd p" using bp by (simp add: block_ok_def)
  note M = buddy_merge [OF this b m]
  have "0 < (2::nat) ^ Suc k" by simp
  then have "m + (2 ^ Suc k - 1) \<in> span m (Suc k)" unfolding span_def atLeastLessThan_iff by linarith
  then have "m + (2 ^ Suc k - 1) < end_pfn z" "start_pfn z \<le> m"
    using M(2) block_ok_in_zone [OF bp] block_ok_in_zone [OF bb] span_self [of m "Suc k"] by fastforce+
  then have "block_ok z' m (Suc k)"
    using M(1) k same_zone_block_ok [OF R1(5)] by (auto simp: block_ok_def)
  moreover have "\<forall>q \<in> span m (Suc k). pg_refcount (ps' q) = 0"
    using rc bf lists_okD(7) [OF lo] R1(6) M(2) by (auto simp: same_pages_def)
  moreover have "span m (Suc k) \<inter> free_pages z' = {}" using M(2) R1(3) dis by auto
  moreover have "coalesced z'" using co R1(2) by (auto intro: coalesced_mono)
  ultimately have "in_hand z' ps' m (Suc k)" using R1(1) by (simp add: in_hand_def)
  moreover have "free_pages z' \<union> span m (Suc k) = free_pages z \<union> span p k" using M(2) R1(3) bf by auto
  moreover have "ps' q = ps q" if "q \<notin> free_pages z" for q
    using remove_frame [OF R, of q] bf span_self [of b k] that by auto
  ultimately show thesis using that R R1(4-6) by simp
qed

lemma free_merge:
  assumes "in_hand z ps p k"
  shows "\<exists>z' ps' p' k'. free_merge z ps p k = Some (z', ps', p', k') \<and> in_hand z' ps' p' k'
    \<and> free_pages z' \<union> span p' k' = free_pages z \<union> span p k
    \<and> listed z' + 2 ^ k' = listed z + 2 ^ k \<and> same_zone z z' \<and> same_pages ps ps'
    \<and> (\<forall>q. q \<notin> free_pages z \<union> span p k \<longrightarrow> ps' q = ps q)
    \<and> (k' < PMM_MAX_ORDER - 1 \<longrightarrow> (p' XOR 2 ^ k', k') \<notin> blocks z')"
  using assms
proof (induction "PMM_MAX_ORDER - k" arbitrary: z ps p k rule: less_induct)
  case less
  let ?b = "p XOR 2 ^ k"
  have lo: "lists_ok z ps" using less.prems by (simp add: in_hand_def)
  show ?case
  proof (cases "k < PMM_MAX_ORDER - 1 \<and> (?b, k) \<in> blocks z")
    case False
    have "free_merge z ps p k = Some (z, ps, p, k)"
      using False lists_okD(5) [OF lo, of ?b]
      by (auto simp: free_merge.simps [of z ps p k] Let_def pfn_in_zone_def)
    then show ?thesis using False less.prems by auto
  next
    case True
    define m where "m = (if ?b < p then ?b else p)"
    obtain z1 ps1 where R: "free_area_remove z ps ?b k = Some (z1, ps1)" "in_hand z1 ps1 m (Suc k)"
      "free_pages z1 \<union> span m (Suc k) = free_pages z \<union> span p k"
      "listed z1 + 2 ^ Suc k = listed z + 2 ^ k" "same_zone z z1" "same_pages ps ps1"
      "\<forall>q. q \<notin> free_pages z \<longrightarrow> ps1 q = ps q"
      using merge_step [OF less.prems _ refl m_def] True by metis
    have "block_ok z ?b k" "is_buddy ps ?b" "pg_order (ps ?b) = k" using True lists_okD(2-4) [OF lo] by auto
    then have step: "free_merge z ps p k = free_merge z1 ps1 m (Suc k)"
      using True R(1) block_ok_checks [of z ?b k] by (simp add: free_merge.simps [of z ps p k] Let_def m_def)
    have "PMM_MAX_ORDER - Suc k < PMM_MAX_ORDER - k" using True by auto
    from less.hyps [OF this R(2)] show ?thesis
      unfolding step R(3) [symmetric] R(4) [symmetric]
      using same_zone_trans [OF R(5)] same_pages_trans [OF R(6)] R(3,7) by (metis UnCI)
  qed
qed

text \<open>What freeing a block does, seen from outside.\<close>

definition free_post ::
    "pmm_zone \<Rightarrow> page_array \<Rightarrow> pfn set \<Rightarrow> pmm_zone \<Rightarrow> page_array \<Rightarrow> bool" where
  "free_post z ps S z' ps' \<longleftrightarrow>
     zone_ok z' ps' \<and> free_pages z' = free_pages z \<union> S
     \<and> nr_pages_free z' = nr_pages_free z + card S
     \<and> same_zone z (z'\<lparr>nr_pages_free := nr_pages_free z\<rparr>) \<and> same_pages ps ps'
     \<and> (\<forall>q. q \<notin> free_pages z \<union> S \<longrightarrow> ps' q = ps q)"

lemma coalesced_push:
  assumes "coalesced z" and "blocks z' = insert (p, k) (blocks z)"
    and "k < PMM_MAX_ORDER - 1 \<longrightarrow> (p XOR 2 ^ k, k) \<notin> blocks z"
  shows "coalesced z'"
proof -
  have "(q, j) = (p XOR 2 ^ k, k)" if "(q XOR 2 ^ j, j) = (p, k)" for q j
    using that buddy_involutive [of q j] by auto
  then show ?thesis
    using assms buddy_neq [of p k] unfolding coalesced_def assms(2) by auto
qed

lemma free_block_correct:
  assumes ok: "zone_ok z ps" and held: "z_held z" and b: "block_ok z p k"
    and man: "span p k \<subseteq> managed z ps" and dis: "span p k \<inter> free_pages z = {}"
    and rc: "\<forall>q \<in> span p k. pg_refcount (ps q) = 0"
  obtains z' ps' where "buddy_free_block z ps p k = Some (z', ps')" and "free_post z ps (span p k) z' ps'"
proof -
  have lo: "lists_ok z ps" and co: "coalesced z" and nf: "nr_pages_free z = listed z"
    and tot: "nr_pages_total z = card (managed z ps)" and fm: "free_pages z \<subseteq> managed z ps"
    using ok by (auto simp: zone_ok_def)
  define z0 where "z0 = z\<lparr>nr_pages_free := u64 (nr_pages_free z + 2 ^ k)\<rparr>"
  have "in_hand z0 ps p k"
    using lo co b dis rc by (simp add: in_hand_def z0_def block_ok_def)
  then obtain z1 ps1 p1 k1 where M: "free_merge z0 ps p k = Some (z1, ps1, p1, k1)" "in_hand z1 ps1 p1 k1"
      "free_pages z1 \<union> span p1 k1 = free_pages z \<union> span p k" "listed z1 + 2 ^ k1 = listed z + 2 ^ k"
      "same_zone z0 z1" "same_pages ps ps1" "\<forall>q. q \<notin> free_pages z \<union> span p k \<longrightarrow> ps1 q = ps q"
      "k1 < PMM_MAX_ORDER - 1 \<longrightarrow> (p1 XOR 2 ^ k1, k1) \<notin> blocks z1"
    using free_merge [of z0 ps p k] by (auto simp: z0_def)
  have H: "lists_ok z1 ps1" "coalesced z1" "block_ok z1 p1 k1" "span p1 k1 \<inter> free_pages z1 = {}"
      "\<forall>q \<in> span p1 k1. pg_refcount (ps1 q) = 0"
    using M(2) by (auto simp: in_hand_def)
  obtain z' ps' where push: "free_area_push z1 ps1 p1 k1 = (z', ps')" by fastforce
  note P = free_area_push [OF H(1,3,4,5) push]
  have "p \<in> managed z ps" "p \<in> {start_pfn z..<end_pfn z} - free_pages z"
    using man dis block_ok_in_zone [OF b] span_self [of p k] by blast+
  then have "\<not> has (pg_flags (ps p)) (PG_BUDDY OR PG_RESERVED)"
    using not_buddy [OF lo] by (auto simp: managed_def PG_defs flag_simps)
  then have step: "buddy_free_block z ps p k = Some (z', ps')"
    using held block_ok_checks [OF b] rc span_self M(1) push by (simp add: buddy_free_block_def z0_def)
  have zz: "same_zone z0 z'" and pp: "same_pages ps ps'"
    using M(5,6) P(5,6) same_zone_trans same_pages_trans by blast+
  have fp: "free_pages z' = free_pages z \<union> span p k" using P(3) M(3) by simp
  have li: "listed z' = listed z + 2 ^ k" using P(4) M(4) by simp
  have nf': "nr_pages_free z' = listed z'"
    using zz nf li listed_bound(2) [OF P(1)] by (simp add: same_zone_def z0_def u64_id)
  have "managed z' ps' = managed z ps" using same_pages_managed [OF zz pp] by (simp add: z0_def)
  then have "zone_ok z' ps'"
    using P(1) coalesced_push [OF H(2) P(2) M(8)] nf' tot fm fp man zz
    by (simp add: zone_ok_def same_zone_def z0_def)
  moreover have "same_zone z (z'\<lparr>nr_pages_free := nr_pages_free z\<rparr>)"
    using zz by (simp add: same_zone_def z0_def)
  moreover have "ps' q = ps q" if "q \<notin> free_pages z \<union> span p k" for q
    using that M(3,7) push_frame [OF push, of q] span_self [of p1 k1] by auto
  ultimately have "free_post z ps (span p k) z' ps'"
    using fp nf nf' li pp by (simp add: free_post_def)
  with step show thesis by (rule that)
qed

section \<open>Handing over a range\<close>

lemma shrink_order_fits:
  assumes "p < e"
  shows "p + 2 ^ shrink_order p e k \<le> e \<and> shrink_order p e k \<le> k"
  using assms
proof (induction k)
  case 0
  then show ?case by (simp add: shrink_order.simps [of p e 0])
next
  case (Suc k)
  then show ?case by (auto simp: shrink_order.simps [of p e "Suc k"])
qed

text \<open>The order the loop picks: a block of it starts at the frame and ends within the range.\<close>

lemma range_order_fits:
  assumes "p < e"
  shows "p + 2 ^ range_order p e \<le> e" and "2 ^ range_order p e dvd p" and "range_order p e < PMM_MAX_ORDER"
proof -
  define m where "m = (if p \<noteq> 0 \<and> ctz p < PMM_MAX_ORDER - 1 then ctz p else PMM_MAX_ORDER - 1)"
  have r: "range_order p e = shrink_order p e m" by (simp add: range_order_def m_def Let_def)
  have m: "m < PMM_MAX_ORDER" "p \<noteq> 0 \<longrightarrow> m \<le> ctz p" by (auto simp: m_def PMM_MAX_ORDER_def)
  have "2 ^ m dvd p"
    using m(2) ctz_dvd [of p] pow2_dvd_trans [of m "ctz p" p] by (cases "p = 0") auto
  then show "2 ^ range_order p e dvd p"
    unfolding r using pow2_dvd_trans shrink_order_fits [OF assms, of m] by blast
  show "p + 2 ^ range_order p e \<le> e" and "range_order p e < PMM_MAX_ORDER"
    unfolding r using shrink_order_fits [OF assms, of m] m(1) by auto
qed

lemma free_post_trans:
  assumes "free_post z ps S z1 ps1" and "free_post z1 ps1 T z2 ps2"
    and "S \<inter> T = {}" and "finite S" and "finite T"
  shows "free_post z ps (S \<union> T) z2 ps2"
proof -
  have "\<forall>q. q \<notin> free_pages z \<union> (S \<union> T) \<longrightarrow> ps2 q = ps q"
    using assms(1,2) by (simp add: free_post_def)
  moreover have "same_zone z (z2\<lparr>nr_pages_free := nr_pages_free z\<rparr>)" and "same_pages ps ps2"
    using assms(1,2) same_pages_trans [of ps ps1 ps2] by (simp_all add: free_post_def same_zone_def)
  ultimately show ?thesis using assms by (simp add: free_post_def card_Un_disjoint Un_assoc)
qed

lemma free_chunks_correct:
  assumes "zone_ok z ps" and "z_held z" and "start_pfn z \<le> p" and "p \<le> e" and "e \<le> end_pfn z"
    and "{p..<e} \<subseteq> managed z ps" and "{p..<e} \<inter> free_pages z = {}"
    and "\<forall>q \<in> {p..<e}. pg_refcount (ps q) = 0"
  shows "\<exists>z' ps'. free_chunks z ps p e = Some (z', ps') \<and> free_post z ps {p..<e} z' ps'"
  using assms
proof (induction "e - p" arbitrary: z ps p rule: less_induct)
  case less
  show ?case
  proof (cases "p < e")
    case False
    then show ?thesis
      using less.prems(1) by (simp add: free_chunks.simps [of z ps p e] free_post_def)
  next
    case True
    define k where "k = range_order p e"
    have F: "p + 2 ^ k \<le> e" "2 ^ k dvd p" "k < PMM_MAX_ORDER"
      unfolding k_def using range_order_fits [OF True] by auto
    have sub: "span p k \<subseteq> {p..<e}" using F(1) by (auto simp: span_def)
    have "block_ok z p k" using F less.prems(3,5) by (simp add: block_ok_def)
    moreover have "span p k \<subseteq> managed z ps" "span p k \<inter> free_pages z = {}"
        "\<forall>q \<in> span p k. pg_refcount (ps q) = 0"
      using sub less.prems(6-8) by blast+
    ultimately obtain z1 ps1 where B: "buddy_free_block z ps p k = Some (z1, ps1)"
      and post: "free_post z ps (span p k) z1 ps1"
      using free_block_correct [OF less.prems(1,2)] by blast
    have zz: "same_zone z (z1\<lparr>nr_pages_free := nr_pages_free z\<rparr>)" and pp: "same_pages ps ps1"
      and ok1: "zone_ok z1 ps1" and fp1: "free_pages z1 = free_pages z \<union> span p k"
      using post by (auto simp: free_post_def)
    have man: "managed z1 ps1 = managed z ps" using same_pages_managed [OF zz pp] by simp
    have rest: "{p + 2 ^ k..<e} \<subseteq> {p..<e}" "span p k \<inter> {p + 2 ^ k..<e} = {}"
      by (auto simp: span_def)
    have "\<exists>z' ps'. free_chunks z1 ps1 (p + 2 ^ k) e = Some (z', ps')
        \<and> free_post z1 ps1 {p + 2 ^ k..<e} z' ps'"
    proof (rule less.hyps)
      show "e - (p + 2 ^ k) < e - p" using F(1) True by (intro diff_less_mono2) auto
      show "{p + 2 ^ k..<e} \<subseteq> managed z1 ps1" using rest(1) less.prems(6) man by blast
      show "{p + 2 ^ k..<e} \<inter> free_pages z1 = {}" using rest less.prems(7) fp1 by blast
      show "\<forall>q \<in> {p + 2 ^ k..<e}. pg_refcount (ps1 q) = 0"
        using rest(1) less.prems(8) pp unfolding same_pages_def by (metis subsetD)
    qed (use ok1 zz less.prems F(1) in \<open>auto simp: same_zone_def\<close>)
    moreover have "span p k \<union> {p + 2 ^ k..<e} = {p..<e}" using F(1) by (auto simp: span_def)
    ultimately show ?thesis
      using free_post_trans [OF post _ rest(2)] True B
      by (fastforce simp: free_chunks.simps [of z ps p e] k_def [symmetric])
  qed
qed

lemma fold_clear_reserved:
  "distinct xs \<Longrightarrow> fold (\<lambda>p ps. ps(p := clear_reserved (ps p))) xs ps
     = (\<lambda>q. if q \<in> set xs then clear_reserved (ps q) else ps q)"
  by (induction xs arbitrary: ps) (auto simp: fun_eq_iff)

lemma lists_ok_pages_cong:
  assumes "lists_ok z ps"
    and "\<And>p. is_buddy ps' p = is_buddy ps p \<and> pg_order (ps' p) = pg_order (ps p)"
    and "\<And>p. pg_refcount (ps p) = 0 \<Longrightarrow> pg_refcount (ps' p) = 0"
  shows "lists_ok z ps'"
  using assms(1) unfolding lists_ok_def assms(2) [THEN conjunct1] assms(2) [THEN conjunct2]
  using assms(3) by (elim conjE) (intro conjI, assumption+, blast)

lemma free_range_correct:
  assumes ok: "zone_ok z ps" and held: "z_held z"
    and s: "start_pfn z \<le> s" "s \<le> e" "e \<le> end_pfn z"
    and fresh: "{s..<e} \<inter> managed z ps = {}"
  obtains z' ps' where "buddy_free_range z ps s e = Some (z', ps')" and "zone_ok z' ps'"
    and "free_pages z' = free_pages z \<union> {s..<e}" and "managed z' ps' = managed z ps \<union> {s..<e}"
    and "same_zone z (z'\<lparr>nr_pages_free := nr_pages_free z, nr_pages_total := nr_pages_total z\<rparr>)"
    and "same_pages (\<lambda>q. if q \<in> {s..<e} then clear_reserved (ps q) else ps q) ps'"
    and "\<forall>q. q \<notin> free_pages z \<union> {s..<e} \<longrightarrow> ps' q = ps q"
proof -
  have lo: "lists_ok z ps" and co: "coalesced z" and nf: "nr_pages_free z = listed z"
    and tot: "nr_pages_total z = card (managed z ps)" and fm: "free_pages z \<subseteq> managed z ps"
    using ok by (auto simp: zone_ok_def)
  define z0 where "z0 = z\<lparr>nr_pages_total := u64 (nr_pages_total z + (e - s))\<rparr>"
  define ps0 where "ps0 = (\<lambda>q. if q \<in> {s..<e} then clear_reserved (ps q) else ps q)"
  have b: "is_buddy ps0 q = is_buddy ps q \<and> pg_order (ps0 q) = pg_order (ps q)" for q
    by (simp add: ps0_def clear_reserved_def PG_defs flag_simps)
  have rc0: "pg_refcount (ps q) = 0 \<Longrightarrow> pg_refcount (ps0 q) = 0" for q
    by (simp add: ps0_def clear_reserved_def)
  have lo0: "lists_ok z ps0" using lists_ok_pages_cong [OF lo b rc0] .
  have man: "managed z ps0 = managed z ps \<union> {s..<e}"
    using s by (auto simp: managed_def ps0_def clear_reserved_def PG_defs flag_simps)
  have fin: "finite (managed z ps)" by (simp add: managed_def)
  have card: "card (managed z ps0) = card (managed z ps) + (e - s)"
    using fresh fin by (simp add: man card_Un_disjoint Int_commute)
  have "managed z ps0 \<subseteq> {start_pfn z..<end_pfn z}" by (auto simp: managed_def)
  from card_mono [OF _ this] have "card (managed z ps0) \<le> 2 ^ 52"
    using lists_okD(1) [OF lo] by (auto simp: areas_ok_def)
  then have t0: "nr_pages_total z0 = card (managed z ps0)"
    using tot card by (simp add: z0_def u64_id)
  have ok0: "zone_ok z0 ps0"
    using lo0 co nf t0 fm man by (auto simp: zone_ok_def z0_def)
  have "\<exists>z' ps'. free_chunks z0 ps0 s e = Some (z', ps') \<and> free_post z0 ps0 {s..<e} z' ps'"
    using ok0 held s man fresh fm
    by (intro free_chunks_correct) (auto simp: z0_def ps0_def clear_reserved_def)
  then obtain z' ps' where C: "free_chunks z0 ps0 s e = Some (z', ps')"
    and post: "free_post z0 ps0 {s..<e} z' ps'" by blast
  have step: "buddy_free_range z ps s e = Some (z', ps')"
    using held s C by (simp add: buddy_free_range_def fold_clear_reserved z0_def ps0_def)
  have zz: "same_zone z0 (z'\<lparr>nr_pages_free := nr_pages_free z0\<rparr>)" and pp: "same_pages ps0 ps'"
    using post by (auto simp: free_post_def)
  have "managed z' ps' = managed z ps \<union> {s..<e}"
    using same_pages_managed [OF zz pp] man by (simp add: z0_def)
  moreover have "same_zone z (z'\<lparr>nr_pages_free := nr_pages_free z, nr_pages_total := nr_pages_total z\<rparr>)"
    using zz by (simp add: same_zone_def z0_def)
  moreover have "zone_ok z' ps'" and "free_pages z' = free_pages z \<union> {s..<e}"
    using post by (auto simp: free_post_def z0_def)
  moreover have "same_pages (\<lambda>q. if q \<in> {s..<e} then clear_reserved (ps q) else ps q) ps'"
    using pp by (simp only: ps0_def)
  moreover have "\<forall>q. q \<notin> free_pages z \<union> {s..<e} \<longrightarrow> ps' q = ps q"
    using post by (auto simp: free_post_def z0_def ps0_def)
  ultimately show thesis using that [OF step] by blast
qed

section \<open>Initialisation and the consistency check\<close>

lemma zone_init_ok:
  assumes "managed (buddy_zone_init name s e) ps = {}" and "e \<le> 2 ^ 52"
    and "\<forall>p \<in> {s..<e}. \<not> is_buddy ps p"
  shows "zone_ok (buddy_zone_init name s e) ps" and "free_pages (buddy_zone_init name s e) = {}"
proof -
  have bl: "blocks (buddy_zone_init name s e) = {}" by (simp add: blocks_def buddy_zone_init_def)
  then show fp: "free_pages (buddy_zone_init name s e) = {}" by (simp add: free_pages_def)
  show "zone_ok (buddy_zone_init name s e) ps"
    using assms bl fp
    by (simp add: zone_ok_def lists_ok_def coalesced_def areas_ok_def listed_def buddy_zone_init_def)
qed

lemma foldl_u64_sum:
  "(\<Sum>k<m. f k) < W64 \<Longrightarrow> foldl (\<lambda>n k. u64 (n + f k)) 0 [0..<m] = (\<Sum>k<m. f k)"
  by (induction m) (auto simp: u64_id)

lemma zone_check_true:
  assumes "zone_ok z ps"
  shows "buddy_zone_check z ps"
proof -
  have lo: "lists_ok z ps" and nf: "nr_pages_free z = listed z"
    and tot: "nr_pages_total z = card (managed z ps)" and fm: "free_pages z \<subseteq> managed z ps"
    using assms by (auto simp: zone_ok_def)
  have "check_area z ps k" if "k < PMM_MAX_ORDER" for k
  proof -
    have "is_buddy ps p \<and> pg_order (ps p) = k \<and> pfn_in_zone z p \<and> p AND (2 ^ k - Suc 0) = 0
        \<and> pg_refcount (ps p) = 0" if "p \<in> set (fa_list (free_area z k))" for p
    proof -
      have b: "(p, k) \<in> blocks z" using that \<open>k < PMM_MAX_ORDER\<close> by (simp add: blocks_def)
      show ?thesis
        using lists_okD(3,4) [OF lo b] block_ok_checks [OF lists_okD(2) [OF lo b]]
          lists_okD(7) [OF lo free_pagesI [OF b span_self]] by simp
    qed
    then show ?thesis
      using areas_okD [OF lists_okD(1) [OF lo] that] by (simp add: check_area_def list_all_iff)
  qed
  moreover have "finite (managed z ps)" by (simp add: managed_def)
  then have "listed z \<le> card (managed z ps)"
    unfolding listed_eq_card [OF lo] using fm by (rule card_mono)
  moreover have "listed z < W64" using listed_bound(2) [OF lo] by simp
  ultimately show ?thesis
    using nf tot
    by (simp add: buddy_zone_check_def list_all_iff foldl_u64_sum listed_def)
qed

section \<open>Other zones\<close>

text \<open>
  A zone's operations touch only the descriptors of free frames and of the frames they are given,
  and its invariant depends on no descriptor outside the zone, so zones can be reasoned about one
  at a time.
\<close>

abbreviation frames :: "pmm_zone \<Rightarrow> pfn set" where
  "frames z \<equiv> {start_pfn z..<end_pfn z}"

lemma split_frame: "split_block z ps p ord k = (z', ps') \<Longrightarrow> q \<notin> span p k \<Longrightarrow> ps' q = ps q"
proof (induction z ps p ord k rule: split_block.induct)
  case (1 z ps p ord k)
  show ?case
  proof (cases "k > ord")
    case True
    obtain z1 ps1 where P: "free_area_push z ps (p + 2 ^ (k - 1)) (k - 1) = (z1, ps1)" by fastforce
    have k: "span p k = span p (k - 1) \<union> span (p + 2 ^ (k - 1)) (k - 1)"
      using True span_split [of p "k - 1"] by simp
    then have "q \<notin> span p (k - 1)" "q \<noteq> p + 2 ^ (k - 1)" using 1(3) span_self by auto
    moreover have "split_block z1 ps1 p ord (k - 1) = (z', ps')"
      using 1(2) True P by (simp add: split_block.simps [of z ps p ord k])
    ultimately show ?thesis using 1(1) [OF True P [symmetric]] push_frame [OF P] by metis
  next
    case False
    then show ?thesis using 1(2) by (simp add: split_block.simps [of z ps p ord k])
  qed
qed

lemma alloc_frame:
  assumes "alloc_from z ps ord k = Some (z', ps', r)" and "q \<notin> free_pages z"
  shows "ps' q = ps q"
  using assms
proof (induction "PMM_MAX_ORDER - k" arbitrary: k)
  case 0
  then show ?case by (simp add: alloc_from.simps [of z ps ord k])
next
  case (Suc n)
  then have k: "k < PMM_MAX_ORDER" by simp
  show ?case
  proof (cases "fa_list (free_area z k)")
    case Nil
    then have "alloc_from z ps ord (Suc k) = Some (z', ps', r)"
      using Suc.prems(1) k by (simp add: alloc_from.simps [of z ps ord k])
    moreover have "n = PMM_MAX_ORDER - Suc k" using Suc.hyps(2) by simp
    ultimately show ?thesis using Suc.hyps(1) Suc.prems by blast
  next
    case (Cons p rest)
    then have "(p, k) \<in> blocks z" using k by (simp add: blocks_def)
    then have "q \<notin> span p k" using free_pagesI Suc.prems(2) by blast
    then show ?thesis
      using Suc.prems(1) k Cons span_self [of p k]
      by (auto simp: alloc_from.simps [of z ps ord k] Let_def split: prod.splits dest!: split_frame)
  qed
qed

lemma zone_ok_frame:
  assumes "zone_ok z ps" and "\<And>q. q \<in> frames z \<Longrightarrow> ps' q = ps q"
  shows "zone_ok z ps'"
proof -
  have lo: "lists_ok z ps" using assms(1) by (simp add: zone_ok_def)
  have "ps' p = ps p" if "(p, k) \<in> blocks z" for p k
    using lists_okD(2) [OF lo that] block_ok_in_zone span_self assms(2) by blast
  then have "\<forall>(p, k) \<in> blocks z. block_ok z p k \<and> is_buddy ps' p \<and> pg_order (ps' p) = k"
    using lists_okD(2-4) [OF lo] by auto
  moreover have "\<forall>p \<in> free_pages z. pg_refcount (ps' p) = 0"
    using free_pages_in_zone [OF lo] lists_okD(7) [OF lo] assms(2) by (metis subsetD)
  moreover have "\<forall>p. start_pfn z \<le> p \<and> p < end_pfn z \<and> is_buddy ps' p \<longrightarrow> (p, pg_order (ps' p)) \<in> blocks z"
    using lists_okD(5) [OF lo] assms(2) by auto
  ultimately have "lists_ok z ps'" using lo unfolding lists_ok_def by blast
  moreover have "managed z ps' = managed z ps" using assms(2) by (auto simp: managed_def)
  ultimately show ?thesis using assms(1) by (simp add: zone_ok_def)
qed

lemma alloc_block_cases:
  assumes "zone_ok z ps" and "z_held z" and "ord < PMM_MAX_ORDER"
  obtains (none) "buddy_alloc_block z ps ord = Some (z, ps, None)" and "\<forall>(q, k) \<in> blocks z. k < ord"
  | (some) z' ps' p where "buddy_alloc_block z ps ord = Some (z', ps', Some p)"
      and "alloc_post z ps ord z' ps' p" and "\<exists>(q, k) \<in> blocks z. ord \<le> k"
      and "\<And>q. q \<notin> free_pages z \<Longrightarrow> ps' q = ps q"
proof -
  have alloc: "buddy_alloc_block z ps ord = alloc_from z ps ord ord"
    using assms(2,3) by (simp add: buddy_alloc_block_def)
  consider (none') "alloc_from z ps ord ord = Some (z, ps, None)"
      "\<forall>j. ord \<le> j \<and> j < PMM_MAX_ORDER \<longrightarrow> fa_list (free_area z j) = []"
    | (some') z' ps' p j where "alloc_from z ps ord ord = Some (z', ps', Some p)"
      "alloc_post z ps ord z' ps' p" "ord \<le> j" "j < PMM_MAX_ORDER" "fa_list (free_area z j) \<noteq> []"
    using alloc_from_total [OF assms(1) order_refl, of ord] assms(3) by auto
  then show thesis
  proof cases
    case none'
    have "k < ord" if "(q, k) \<in> blocks z" for q k
      using that none'(2) by (cases "ord \<le> k") (auto simp: blocks_def)
    then show thesis using none alloc none'(1) by auto
  next
    case some'
    have "(hd (fa_list (free_area z j)), j) \<in> blocks z" using some'(4,5) by (simp add: blocks_def)
    then have "\<exists>(q, k) \<in> blocks z. ord \<le> k" using some'(3) by blast
    then show thesis using some alloc some'(1,2) alloc_frame [OF some'(1)] by metis
  qed
qed

section \<open>The zone's contract\<close>

text \<open>
  C13. \<open>buddy_alloc_block\<close> on a consistent, locked zone never panics. When some free block
  is large enough it returns an aligned block of exactly the requested order that was free, takes
  exactly its frames off the free set and keeps the invariant; otherwise it returns no block and
  leaves the zone and every descriptor as they were.
\<close>

theorem buddy_alloc_correct:
  assumes "zone_ok z ps" and "z_held z" and "ord < PMM_MAX_ORDER"
  shows "if \<exists>(q, k) \<in> blocks z. ord \<le> k
         then \<exists>z' ps' p. buddy_alloc_block z ps ord = Some (z', ps', Some p) \<and> alloc_post z ps ord z' ps' p
         else buddy_alloc_block z ps ord = Some (z, ps, None)"
proof (rule alloc_block_cases [OF assms])
  assume "buddy_alloc_block z ps ord = Some (z, ps, None)" and none: "\<forall>(q, k) \<in> blocks z. k < ord"
  moreover have "\<not> (\<exists>(q, k) \<in> blocks z. ord \<le> k)" using none by fastforce
  ultimately show ?thesis by (simp only: if_False)
next
  fix z' ps' p
  assume "buddy_alloc_block z ps ord = Some (z', ps', Some p)" and "alloc_post z ps ord z' ps' p"
    and "\<exists>(q, k) \<in> blocks z. ord \<le> k"
  then show ?thesis by (simp only: if_True) blast
qed

text \<open>
  C5. \<open>buddy_free_block\<close> of a block that lies in the zone, is managed by it, is on no free
  list and has no references never panics; the free set grows by exactly that block, the counters
  follow, and the invariant holds again, including that no two free buddies are left unmerged.
\<close>

theorem buddy_free_correct:
  assumes "zone_ok z ps" and "z_held z" and "block_ok z p ord"
    and "span p ord \<subseteq> managed z ps - free_pages z" and "\<forall>q \<in> span p ord. pg_refcount (ps q) = 0"
  shows "\<exists>z' ps'. buddy_free_block z ps p ord = Some (z', ps') \<and> free_post z ps (span p ord) z' ps'"
proof -
  have "span p ord \<subseteq> managed z ps" and "span p ord \<inter> free_pages z = {}" using assms(4) by auto
  then show ?thesis using free_block_correct [OF assms(1-3) _ _ assms(5)] by blast
qed

text \<open>
  C28. \<open>buddy_free_range\<close> of any frame range inside the zone that the zone does not manage yet
  returns: its greedy loop of maximal aligned blocks hands over exactly that range, whatever its
  alignment, and the invariant is kept.
\<close>

theorem buddy_free_range_correct:
  assumes "zone_ok z ps" and "z_held z" and "start_pfn z \<le> s" and "s \<le> e" and "e \<le> end_pfn z"
    and "{s..<e} \<inter> managed z ps = {}"
  shows "\<exists>z' ps'. buddy_free_range z ps s e = Some (z', ps') \<and> zone_ok z' ps'
           \<and> free_pages z' = free_pages z \<union> {s..<e} \<and> managed z' ps' = managed z ps \<union> {s..<e}
           \<and> nr_pages_total z' = nr_pages_total z + (e - s)"
proof -
  obtain z' ps' where B: "buddy_free_range z ps s e = Some (z', ps')" "zone_ok z' ps'"
      "free_pages z' = free_pages z \<union> {s..<e}" "managed z' ps' = managed z ps \<union> {s..<e}"
    using free_range_correct [OF assms] by metis
  have "finite (managed z ps)" by (simp add: managed_def)
  then have "card (managed z' ps') = card (managed z ps) + (e - s)"
    using assms(6) by (simp add: B(4) card_Un_disjoint Int_commute)
  then show ?thesis using B assms(1) by (auto simp: zone_ok_def)
qed

text \<open>
  C38. The consistency check \<open>buddy_zone_check\<close> never reports a false alarm: it accepts every
  zone that satisfies the invariant, so every state the operations above can produce passes it.
\<close>

theorem buddy_zone_check_accepts:
  assumes "zone_ok z ps"
  shows "buddy_zone_check z ps"
  using zone_check_true [OF assms] .

section \<open>A concrete zone\<close>

definition demo_reserved :: page_array where
  "demo_reserved = (\<lambda>_. \<lparr>pg_flags = PG_RESERVED, pg_refcount = 1, pg_order = 0, pg_zone = 0, pg_slab = None\<rparr>)"

definition demo_empty :: pmm_zone where
  "demo_empty = (buddy_zone_init ''DMA'' 0 16)\<lparr>z_held := True\<rparr>"

definition demo_zone :: pmm_zone where
  "demo_zone = fst (the (buddy_free_range demo_empty demo_reserved 3 14))"

definition demo_pages :: page_array where
  "demo_pages = snd (the (buddy_free_range demo_empty demo_reserved 3 14))"

lemma demo_empty_ok:
  "zone_ok demo_empty demo_reserved" "managed demo_empty demo_reserved = {}" "free_pages demo_empty = {}"
proof -
  have "managed (buddy_zone_init ''DMA'' 0 16) demo_reserved = {}"
    by (simp add: managed_def demo_reserved_def PG_defs flag_simps)
  moreover have "\<forall>p \<in> {0..<16}. \<not> is_buddy demo_reserved p"
    by (simp add: demo_reserved_def PG_defs flag_simps)
  ultimately show "zone_ok demo_empty demo_reserved" "managed demo_empty demo_reserved = {}"
      "free_pages demo_empty = {}"
    using zone_init_ok [of "''DMA''" 0 16 demo_reserved]
    by (simp_all add: demo_empty_def zone_ok_def)
qed

lemma demo_zone_ok:
  "zone_ok demo_zone demo_pages" "z_held demo_zone" "free_pages demo_zone = {3..<14}"
  "start_pfn demo_zone = 0" "end_pfn demo_zone = 16" "managed demo_zone demo_pages = {3..<14}"
proof -
  have E: "z_held demo_empty" "start_pfn demo_empty = 0" "end_pfn demo_empty = 16"
    by (simp_all add: demo_empty_def buddy_zone_init_def)
  obtain z' ps' where B: "buddy_free_range demo_empty demo_reserved 3 14 = Some (z', ps')"
    "zone_ok z' ps'" "free_pages z' = {3..<14}" "managed z' ps' = {3..<14}"
    "same_zone demo_empty (z'\<lparr>nr_pages_free := nr_pages_free demo_empty, nr_pages_total := nr_pages_total demo_empty\<rparr>)"
    by (rule free_range_correct [of demo_empty demo_reserved 3 14]) (simp_all add: E demo_empty_ok)
  then show "zone_ok demo_zone demo_pages" "z_held demo_zone" "free_pages demo_zone = {3..<14}"
    "start_pfn demo_zone = 0" "end_pfn demo_zone = 16" "managed demo_zone demo_pages = {3..<14}"
    by (simp_all add: demo_zone_def demo_pages_def same_zone_def E)
qed

theorem buddy_alloc_correct_witness:
  "zone_ok demo_zone demo_pages \<and> z_held demo_zone \<and> (0::nat) < PMM_MAX_ORDER
   \<and> (\<exists>z' ps' p. buddy_alloc_block demo_zone demo_pages 0 = Some (z', ps', Some p)
        \<and> alloc_post demo_zone demo_pages 0 z' ps' p)"
proof -
  have "3 \<in> free_pages demo_zone" by (simp add: demo_zone_ok)
  then have "\<exists>(q, k) \<in> blocks demo_zone. 0 \<le> k" by (elim free_pagesE) auto
  moreover have "(0::nat) < PMM_MAX_ORDER" by (simp add: PMM_MAX_ORDER_def)
  ultimately show ?thesis
    using buddy_alloc_correct [of demo_zone demo_pages 0] demo_zone_ok(1,2) by simp
qed

theorem buddy_free_range_correct_witness:
  "zone_ok demo_empty demo_reserved \<and> {5..<11} \<inter> managed demo_empty demo_reserved = {}
   \<and> (\<exists>z' ps'. buddy_free_range demo_empty demo_reserved 5 11 = Some (z', ps')
        \<and> zone_ok z' ps' \<and> free_pages z' = {5..<11} \<and> nr_pages_total z' = 6)"
proof -
  have "z_held demo_empty" "start_pfn demo_empty = 0" "end_pfn demo_empty = 16" "nr_pages_total demo_empty = 0"
    by (simp_all add: demo_empty_def buddy_zone_init_def)
  then show ?thesis
    using buddy_free_range_correct [of demo_empty demo_reserved 5 11] demo_empty_ok by auto
qed

theorem buddy_zone_check_accepts_witness:
  "zone_ok demo_zone demo_pages \<and> buddy_zone_check demo_zone demo_pages"
  using buddy_zone_check_accepts [of demo_zone demo_pages] demo_zone_ok(1) by simp


definition demo_taken :: page_array where
  "demo_taken = demo_reserved(4 := clear_reserved (demo_reserved 4))"

lemma demo_taken_ok:
  "zone_ok (demo_empty\<lparr>nr_pages_total := 1\<rparr>) demo_taken" "managed demo_empty demo_taken = {4}"
proof -
  show man: "managed demo_empty demo_taken = {4}"
    by (auto simp: managed_def demo_taken_def demo_reserved_def demo_empty_def buddy_zone_init_def
        clear_reserved_def PG_defs flag_simps)
  have "lists_ok demo_empty demo_taken"
    unfolding demo_taken_def using demo_empty_ok
    by (intro lists_ok_page_upd) (auto simp: zone_ok_def clear_reserved_def demo_reserved_def PG_defs flag_simps)
  then show "zone_ok (demo_empty\<lparr>nr_pages_total := 1\<rparr>) demo_taken"
    using demo_empty_ok man by (simp add: zone_ok_def)
qed

theorem buddy_free_correct_witness:
  "zone_ok (demo_empty\<lparr>nr_pages_total := 1\<rparr>) demo_taken
   \<and> (\<exists>z' ps'. buddy_free_block (demo_empty\<lparr>nr_pages_total := 1\<rparr>) demo_taken 4 0 = Some (z', ps')
        \<and> free_post (demo_empty\<lparr>nr_pages_total := 1\<rparr>) demo_taken {4} z' ps')"
proof -
  have sp: "span 4 0 = {4}" by (auto simp: span_def)
  have "z_held demo_empty" "block_ok (demo_empty\<lparr>nr_pages_total := 1\<rparr>) 4 0" "pg_refcount (demo_taken 4) = 0"
    by (simp_all add: block_ok_def PMM_MAX_ORDER_def demo_empty_def buddy_zone_init_def demo_taken_def
        clear_reserved_def)
  then show ?thesis
    using buddy_free_correct [of "demo_empty\<lparr>nr_pages_total := 1\<rparr>" demo_taken 4 0]
      demo_taken_ok demo_empty_ok(3) by (simp add: sp)
qed

end
