(* ===== verification/Bootmem.thy ===== *)
theory Bootmem
  imports Prelude
begin

text \<open>
  The loader's memory map as the kernel reads it (\<open>kernel/core/bootinfo.c\<close>) and the one-shot
  allocator that runs before the page array exists (\<open>kernel/memory/bootmem.c\<close>).

  The range table is a list of half-open byte ranges, as long as \<open>g_range_count\<close>. The lemmas
  read it as the set of bytes that are still free: \<open>bootmem_init\<close> makes it the usable part of the
  map, \<open>bootmem_alloc\<close> removes exactly what it hands out, and \<open>bootmem_release_all\<close> passes on
  the whole frames that are left.
\<close>

section \<open>The memory map\<close>

definition COSMOBOOT_MEM_USABLE :: nat where "COSMOBOOT_MEM_USABLE = 1"
definition COSMOBOOT_MEM_RESERVED :: nat where "COSMOBOOT_MEM_RESERVED = 2"
definition COSMOBOOT_MEM_ACPI_RECLAIMABLE :: nat where "COSMOBOOT_MEM_ACPI_RECLAIMABLE = 3"
definition COSMOBOOT_MEM_ACPI_NVS :: nat where "COSMOBOOT_MEM_ACPI_NVS = 4"
definition COSMOBOOT_MEM_BAD :: nat where "COSMOBOOT_MEM_BAD = 5"
definition COSMOBOOT_MEM_LOADER_RECLAIMABLE :: nat where "COSMOBOOT_MEM_LOADER_RECLAIMABLE = 6"
definition COSMOBOOT_MEM_KERNEL :: nat where "COSMOBOOT_MEM_KERNEL = 7"
definition COSMOBOOT_MEM_BOOTINFO :: nat where "COSMOBOOT_MEM_BOOTINFO = 8"
definition COSMOBOOT_MEM_BOOT_PAGETABLES :: nat where "COSMOBOOT_MEM_BOOT_PAGETABLES = 9"
definition COSMOBOOT_MEM_FIRMWARE_RUNTIME :: nat where "COSMOBOOT_MEM_FIRMWARE_RUNTIME = 10"
definition COSMOBOOT_MEM_MMIO :: nat where "COSMOBOOT_MEM_MMIO = 11"
definition COSMOBOOT_MEM_PERSISTENT :: nat where "COSMOBOOT_MEM_PERSISTENT = 12"
definition COSMOBOOT_MEM_ARCHIVE :: nat where "COSMOBOOT_MEM_ARCHIVE = 13"

lemmas mem_type_defs =
  COSMOBOOT_MEM_USABLE_def COSMOBOOT_MEM_RESERVED_def COSMOBOOT_MEM_ACPI_RECLAIMABLE_def
  COSMOBOOT_MEM_ACPI_NVS_def COSMOBOOT_MEM_BAD_def COSMOBOOT_MEM_LOADER_RECLAIMABLE_def
  COSMOBOOT_MEM_KERNEL_def COSMOBOOT_MEM_BOOTINFO_def COSMOBOOT_MEM_BOOT_PAGETABLES_def
  COSMOBOOT_MEM_FIRMWARE_RUNTIME_def COSMOBOOT_MEM_MMIO_def COSMOBOOT_MEM_PERSISTENT_def
  COSMOBOOT_MEM_ARCHIVE_def

record mem_entry =
  me_base :: nat
  me_length :: nat
  me_type :: nat

abbreviation me_end :: "mem_entry \<Rightarrow> nat" where
  "me_end e \<equiv> u64 (me_base e + me_length e)"

text \<open>The loop at the end of \<open>bootinfo_init\<close>: an entry it refuses is a panic.\<close>

definition mem_entry_valid :: "mem_entry \<Rightarrow> bool" where
  "mem_entry_valid e \<longleftrightarrow>
     me_length e \<noteq> 0 \<and> me_base e mod 4096 = 0 \<and> me_length e mod 4096 = 0 \<and> \<not> me_end e < me_base e"

definition bootinfo_check_map :: "mem_entry list \<Rightarrow> unit option" where
  "bootinfo_check_map mmap = kassert (list_all mem_entry_valid mmap)"

definition bootinfo_usable_bytes :: "mem_entry list \<Rightarrow> nat" where
  "bootinfo_usable_bytes mmap =
     foldl (\<lambda>total e. if me_type e = COSMOBOOT_MEM_USABLE then u64 (total + me_length e) else total) 0 mmap"

definition bootinfo_mem_type_is_ram :: "nat \<Rightarrow> bool" where
  "bootinfo_mem_type_is_ram t \<longleftrightarrow>
     t = COSMOBOOT_MEM_USABLE \<or> t = COSMOBOOT_MEM_ACPI_RECLAIMABLE \<or> t = COSMOBOOT_MEM_ACPI_NVS
     \<or> t = COSMOBOOT_MEM_LOADER_RECLAIMABLE \<or> t = COSMOBOOT_MEM_KERNEL \<or> t = COSMOBOOT_MEM_BOOTINFO
     \<or> t = COSMOBOOT_MEM_BOOT_PAGETABLES \<or> t = COSMOBOOT_MEM_FIRMWARE_RUNTIME
     \<or> t = COSMOBOOT_MEM_ARCHIVE"

fun bootinfo_phys_is_ram :: "mem_entry list \<Rightarrow> nat \<Rightarrow> bool" where
  "bootinfo_phys_is_ram [] pa \<longleftrightarrow> False"
| "bootinfo_phys_is_ram (e # mmap) pa \<longleftrightarrow>
     (if pa \<ge> me_base e \<and> pa < me_end e then bootinfo_mem_type_is_ram (me_type e)
      else bootinfo_phys_is_ram mmap pa)"

definition bootinfo_phys_limit :: "mem_entry list \<Rightarrow> nat" where
  "bootinfo_phys_limit mmap =
     foldl (\<lambda>limit e. if \<not> bootinfo_mem_type_is_ram (me_type e) then limit
                       else if me_end e > limit then me_end e else limit) 0 mmap"

definition bootinfo_mem_type_name :: "nat \<Rightarrow> string" where
  "bootinfo_mem_type_name t =
     (if t = COSMOBOOT_MEM_USABLE then ''usable''
      else if t = COSMOBOOT_MEM_RESERVED then ''reserved''
      else if t = COSMOBOOT_MEM_ACPI_RECLAIMABLE then ''acpi-reclaim''
      else if t = COSMOBOOT_MEM_ACPI_NVS then ''acpi-nvs''
      else if t = COSMOBOOT_MEM_BAD then ''bad''
      else if t = COSMOBOOT_MEM_LOADER_RECLAIMABLE then ''loader''
      else if t = COSMOBOOT_MEM_KERNEL then ''kernel''
      else if t = COSMOBOOT_MEM_BOOTINFO then ''bootinfo''
      else if t = COSMOBOOT_MEM_BOOT_PAGETABLES then ''pagetables''
      else if t = COSMOBOOT_MEM_FIRMWARE_RUNTIME then ''fw-runtime''
      else if t = COSMOBOOT_MEM_MMIO then ''mmio''
      else if t = COSMOBOOT_MEM_PERSISTENT then ''persistent''
      else if t = COSMOBOOT_MEM_ARCHIVE then ''archive''
      else ''unknown'')"

section \<open>Pages and addresses\<close>

definition PAGE_SHIFT :: nat where "PAGE_SHIFT = 12"
definition PAGE_SIZE :: nat where "PAGE_SIZE = 2 ^ PAGE_SHIFT"

definition phys_to_pfn :: "paddr \<Rightarrow> pfn" where "phys_to_pfn pa = drop_bit PAGE_SHIFT pa"
definition pfn_to_phys :: "pfn \<Rightarrow> paddr" where "pfn_to_phys p = u64 (push_bit PAGE_SHIFT p)"
definition is_page_aligned :: "nat \<Rightarrow> bool" where "is_page_aligned x \<longleftrightarrow> x AND (PAGE_SIZE - 1) = 0"
definition page_align_down :: "nat \<Rightarrow> nat" where "page_align_down x = align_down x PAGE_SIZE"
definition page_align_up :: "nat \<Rightarrow> nat" where
  "page_align_up x = align_down (u64 (x + PAGE_SIZE - 1)) PAGE_SIZE"

section \<open>The boot allocator\<close>

definition BOOTMEM_MAX_RANGES :: nat where "BOOTMEM_MAX_RANGES = 256"
definition BOOTMEM_LOW_LIMIT :: nat where "BOOTMEM_LOW_LIMIT = 2 ^ 20"

type_synonym ranges = "(paddr \<times> paddr) list"

record bootmem =
  g_ranges :: ranges
  g_allocated_bytes :: nat
  g_sealed :: bool

definition add_range :: "ranges \<Rightarrow> paddr \<Rightarrow> paddr \<Rightarrow> ranges option" where
  "add_range rs s e =
     (if s \<ge> e then Some rs
      else if rs \<noteq> [] \<and> snd (last rs) = s then Some (butlast rs @ [(fst (last rs), e)])
      else if length rs \<ge> BOOTMEM_MAX_RANGES then None
      else Some (rs @ [(s, e)]))"

abbreviation reclaimable :: "mem_entry \<Rightarrow> bool" where
  "reclaimable e \<equiv> me_type e = COSMOBOOT_MEM_USABLE \<or> me_type e = COSMOBOOT_MEM_LOADER_RECLAIMABLE"

fun add_entries :: "paddr \<Rightarrow> mem_entry list \<Rightarrow> ranges \<Rightarrow> ranges option" where
  "add_entries limit [] rs = Some rs"
| "add_entries limit (e # mmap) rs =
     (if \<not> reclaimable e then add_entries limit mmap rs
      else do {
        let s = me_base e;
        let t = me_end e;
        let s = (if s < BOOTMEM_LOW_LIMIT then BOOTMEM_LOW_LIMIT else s);
        let t = (if t > limit then limit else t);
        rs \<leftarrow> add_range rs s t;
        add_entries limit mmap rs
      })"

definition bootmem_init :: "mem_entry list \<Rightarrow> paddr \<Rightarrow> bootmem option" where
  "bootmem_init mmap limit = do {
     rs \<leftarrow> add_entries limit mmap [];
     Some \<lparr>g_ranges = rs, g_allocated_bytes = 0, g_sealed = False\<rparr>
   }"

text \<open>The search of \<open>bootmem_alloc\<close> over the indices below \<open>i\<close>, downwards; \<open>None\<close> is the panic.\<close>

fun alloc_below :: "bootmem \<Rightarrow> nat \<Rightarrow> nat \<Rightarrow> nat \<Rightarrow> (bootmem \<times> paddr) option" where
  "alloc_below b sz algn 0 = None"
| "alloc_below b sz algn (Suc i) =
     (case g_ranges b ! i of (s, e) \<Rightarrow>
        if sub64 e s < sz then alloc_below b sz algn i
        else let top = align_down (sub64 e sz) algn in
        if top < s then alloc_below b sz algn i
        else do {
          let alloc_end = u64 (top + sz);
          rs \<leftarrow> (if alloc_end < e
                  then do {
                    kassert (length (g_ranges b) < BOOTMEM_MAX_RANGES);
                    Some (g_ranges b @ [(alloc_end, e)])
                  }
                  else Some (g_ranges b));
          Some (b\<lparr>g_ranges := rs[i := (s, top)], g_allocated_bytes := u64 (g_allocated_bytes b + sz)\<rparr>, top)
        })"

definition bootmem_alloc :: "bootmem \<Rightarrow> nat \<Rightarrow> nat \<Rightarrow> (bootmem \<times> paddr) option" where
  "bootmem_alloc b sz algn = do {
     kassert (\<not> g_sealed b);
     kassert (sz > 0);
     kassert (algn \<ge> 1 \<and> algn AND (algn - 1) = 0);
     alloc_below b sz algn (length (g_ranges b))
   }"

text \<open>\<open>release\<close> is the callback; it acts on the client's state.\<close>

fun release_each :: "(pfn \<Rightarrow> pfn \<Rightarrow> 's \<Rightarrow> 's option) \<Rightarrow> ranges \<Rightarrow> 's \<Rightarrow> 's option" where
  "release_each release [] st = Some st"
| "release_each release ((s, e) # rs) st = do {
     st \<leftarrow> (if e > s
             then release (phys_to_pfn (page_align_up s)) (phys_to_pfn (page_align_down e)) st
             else Some st);
     release_each release rs st
   }"

definition bootmem_release_all ::
    "bootmem \<Rightarrow> (pfn \<Rightarrow> pfn \<Rightarrow> 's \<Rightarrow> 's option) \<Rightarrow> 's \<Rightarrow> 's option" where
  "bootmem_release_all b release st = do {
     kassert (\<not> g_sealed b);
     release_each release (g_ranges b) st
   }"

definition bootmem_seal :: "bootmem \<Rightarrow> bootmem" where
  "bootmem_seal b = b\<lparr>g_sealed := True\<rparr>"

definition bootmem_allocated_bytes :: "bootmem \<Rightarrow> nat" where
  "bootmem_allocated_bytes b = g_allocated_bytes b"

section \<open>The free bytes\<close>

definition bytes :: "ranges \<Rightarrow> paddr set" where
  "bytes rs = (\<Union>(s, e) \<in> set rs. {s..<e})"

definition apart :: "paddr \<times> paddr \<Rightarrow> paddr \<times> paddr \<Rightarrow> bool" where
  "apart r q \<longleftrightarrow> {fst r..<snd r} \<inter> {fst q..<snd q} = {}"

definition ranges_ok :: "ranges \<Rightarrow> bool" where
  "ranges_ok rs \<longleftrightarrow> (\<forall>(s, e) \<in> set rs. s \<le> e \<and> e < W64) \<and> sorted_wrt apart rs"

lemma bytes_simps [simp]:
  "bytes [] = {}" "bytes (r # rs) = {fst r..<snd r} \<union> bytes rs" "bytes (rs @ qs) = bytes rs \<union> bytes qs"
  by (auto simp: bytes_def split: prod.splits)

lemma apart_bytes: "(\<forall>q \<in> set rs. apart r q) \<longleftrightarrow> {fst r..<snd r} \<inter> bytes rs = {}"
  unfolding apart_def bytes_def case_prod_unfold by blast

lemma apart_sym: "apart r q \<longleftrightarrow> apart q r"
  by (auto simp: apart_def)

lemma ranges_ok_middle:
  "ranges_ok (xs @ (s, e) # ys) \<longleftrightarrow>
     ranges_ok (xs @ ys) \<and> s \<le> e \<and> e < W64 \<and> {s..<e} \<inter> bytes (xs @ ys) = {}"
proof -
  have "(\<forall>q \<in> set (xs @ ys). apart (s, e) q) \<longleftrightarrow> {s..<e} \<inter> bytes (xs @ ys) = {}"
    using apart_bytes [of "xs @ ys" "(s, e)"] by simp
  then show ?thesis
    unfolding ranges_ok_def by (auto simp: sorted_wrt_append apart_sym [of _ "(s, e)"] ball_Un)
qed

lemma ranges_ok_snoc:
  "ranges_ok (xs @ [(s, e)]) \<longleftrightarrow> ranges_ok xs \<and> s \<le> e \<and> e < W64 \<and> {s..<e} \<inter> bytes xs = {}"
  using ranges_ok_middle [of xs s e "[]"] by simp

section \<open>What the operations do to the free bytes\<close>

text \<open>The part of a map entry the allocator may use.\<close>

definition usable_part :: "paddr \<Rightarrow> mem_entry \<Rightarrow> paddr set" where
  "usable_part limit e =
     (if reclaimable e then {max (me_base e) BOOTMEM_LOW_LIMIT..<min (me_end e) limit} else {})"

text \<open>The loader sorts its map: each entry ends before the later ones begin.\<close>

definition map_sorted :: "mem_entry list \<Rightarrow> bool" where
  "map_sorted mmap \<longleftrightarrow>
     list_all mem_entry_valid mmap \<and> sorted_wrt (\<lambda>e f. me_end e \<le> me_base f) mmap"

lemma add_range_ok:
  assumes "ranges_ok rs" and "e < W64" and "{s..<e} \<inter> bytes rs = {}" and "length rs < BOOTMEM_MAX_RANGES"
  obtains rs' where "add_range rs s e = Some rs'" and "ranges_ok rs'"
    and "bytes rs' = bytes rs \<union> {s..<e}" and "length rs' \<le> Suc (length rs)"
proof (cases "s < e \<and> rs \<noteq> [] \<and> snd (last rs) = s")
  case True
  obtain qs a where rs: "rs = qs @ [(a, s)]"
    using True by (metis append_butlast_last_id prod.collapse)
  then have "ranges_ok qs" "a \<le> s" "{a..<s} \<inter> bytes qs = {}" using assms(1) by (auto simp: ranges_ok_snoc)
  moreover have "{a..<e} = {a..<s} \<union> {s..<e}" using True \<open>a \<le> s\<close> by auto
  moreover have "{s..<e} \<inter> bytes qs = {}" using assms(3) by (auto simp: rs)
  ultimately have "ranges_ok (qs @ [(a, e)])" "bytes (qs @ [(a, e)]) = bytes rs \<union> {s..<e}"
    using True assms(2) by (auto simp: ranges_ok_snoc rs)
  moreover have "add_range rs s e = Some (qs @ [(a, e)])" using True by (simp add: add_range_def rs)
  ultimately show thesis using that by (simp add: rs)
next
  case False
  show thesis
  proof (cases "s < e")
    case True
    then show ?thesis
      using False assms by (intro that [of "rs @ [(s, e)]"]) (auto simp: add_range_def ranges_ok_snoc)
  next
    case False
    then show ?thesis using assms by (intro that [of rs]) (auto simp: add_range_def)
  qed
qed

lemma add_entries_ok:
  assumes "map_sorted mmap" and "ranges_ok rs" and "length rs + length mmap \<le> BOOTMEM_MAX_RANGES"
    and "\<forall>e \<in> set mmap. bytes rs \<subseteq> {..<me_base e}"
  shows "\<exists>rs'. add_entries limit mmap rs = Some rs' \<and> ranges_ok rs'
           \<and> bytes rs' = bytes rs \<union> (\<Union>e \<in> set mmap. usable_part limit e)
           \<and> length rs' \<le> length rs + length mmap"
  using assms
proof (induction mmap arbitrary: rs)
  case Nil
  then show ?case by simp
next
  case (Cons e mmap)
  have sorted: "map_sorted mmap" and later: "\<forall>f \<in> set mmap. me_end e \<le> me_base f"
    and valid: "me_base e \<le> me_end e"
    using Cons.prems(1) by (auto simp: map_sorted_def mem_entry_valid_def)
  show ?case
  proof (cases "reclaimable e")
    case False
    then have "usable_part limit e = {}" by (simp add: usable_part_def)
    then show ?thesis using Cons.IH [OF sorted Cons.prems(2)] Cons.prems(3,4) False by auto
  next
    case True
    let ?s = "if me_base e < BOOTMEM_LOW_LIMIT then BOOTMEM_LOW_LIMIT else me_base e"
    let ?t = "if me_end e > limit then limit else me_end e"
    have part: "{?s..<?t} = usable_part limit e" using True by (auto simp: usable_part_def)
    have "?t \<le> me_end e" by simp
    then have lt: "?t < W64" by (rule le_less_trans [OF _ u64_less])
    have dis: "{?s..<?t} \<inter> bytes rs = {}" using Cons.prems(4) by (fastforce split: if_splits)
    obtain rs1 where R: "add_range rs ?s ?t = Some rs1" "ranges_ok rs1"
      "bytes rs1 = bytes rs \<union> usable_part limit e" "length rs1 \<le> Suc (length rs)"
      using add_range_ok [OF Cons.prems(2) lt dis] Cons.prems(3) unfolding part by auto
    have "usable_part limit e \<subseteq> {..<me_end e}" by (auto simp: usable_part_def)
    moreover have "bytes rs \<subseteq> {..<me_end e}" using Cons.prems(4) valid by fastforce
    ultimately have "\<forall>f \<in> set mmap. bytes rs1 \<subseteq> {..<me_base f}" using later R(3) by fastforce
    from Cons.IH [OF sorted R(2) _ this] R Cons.prems(3) True
    show ?thesis by (auto simp: Let_def)
  qed
qed

lemma alloc_below_ok:
  assumes "ranges_ok (g_ranges b)" and "0 < sz" and "0 < algn" and "i \<le> length (g_ranges b)"
    and "alloc_below b sz algn i = Some (b', tp)"
  shows "algn dvd tp \<and> {tp..<tp + sz} \<subseteq> bytes (g_ranges b) \<and> ranges_ok (g_ranges b')
    \<and> bytes (g_ranges b') = bytes (g_ranges b) - {tp..<tp + sz}
    \<and> g_allocated_bytes b' = u64 (g_allocated_bytes b + sz) \<and> g_sealed b' = g_sealed b"
  using assms(4,5)
proof (induction i)
  case 0
  then show ?case by simp
next
  case (Suc i)
  obtain s e where r: "g_ranges b ! i = (s, e)" by fastforce
  define xs ys where "xs = take i (g_ranges b)" and "ys = drop (Suc i) (g_ranges b)"
  have rs: "g_ranges b = xs @ (s, e) # ys" and i: "i = length xs"
    using Suc.prems(1) r id_take_nth_drop [of i "g_ranges b"] by (auto simp: xs_def ys_def)
  have ok: "ranges_ok (xs @ ys)" "s \<le> e" "e < W64" "{s..<e} \<inter> bytes (xs @ ys) = {}"
    using assms(1) unfolding rs ranges_ok_middle by auto
  define t where "t = align_down (e - sz) algn"
  show ?case
  proof (cases "e - s < sz \<or> t < s")
    case True
    have "sub64 e sz = e - sz" if "\<not> e - s < sz" using that ok by (intro sub64_id) auto
    then have "alloc_below b sz algn (Suc i) = alloc_below b sz algn i"
      using True ok r by (auto simp: sub64_id t_def Let_def)
    then show ?thesis using Suc by simp
  next
    case False
    then have fits: "sz \<le> e - s" "s \<le> t" by auto
    have sub: "sub64 e s = e - s" "sub64 e sz = e - sz" using ok fits by (auto intro!: sub64_id)
    have te: "t + sz \<le> e" "t \<le> e" using align_down_le [of "e - sz" algn] fits assms(2) ok unfolding t_def by linarith+
    have ae: "u64 (t + sz) = t + sz" using te ok by (simp add: u64_id)
    have g: "tp = t" "g_allocated_bytes b' = u64 (g_allocated_bytes b + sz)" "g_sealed b' = g_sealed b"
      "g_ranges b' = xs @ (s, t) # ys @ (if t + sz < e then [(t + sz, e)] else [])"
      using Suc.prems(2) False r sub ae
      by (auto simp: t_def [symmetric] Let_def rs i split: if_splits)
    have out: "x \<notin> bytes xs \<and> x \<notin> bytes ys" if "s \<le> x" "x < e" for x using ok(4) that by auto
    have "ranges_ok ((xs @ ys) @ (if t + sz < e then [(t + sz, e)] else []))"
      using ok(1,3) out fits(2) by (auto simp: ranges_ok_snoc simp del: append_assoc)
    moreover have "{s..<t} \<inter> bytes (xs @ ys @ (if t + sz < e then [(t + sz, e)] else [])) = {}"
      using out te by auto
    ultimately have "ranges_ok (g_ranges b')"
      unfolding g(4) ranges_ok_middle using fits(2) te(2) ok(3) by simp
    moreover have "bytes (g_ranges b') = bytes (g_ranges b) - {t..<t + sz}"
      using te fits unfolding g(4) rs by (auto simp: out)
    moreover have "{t..<t + sz} \<subseteq> bytes (g_ranges b)" using te fits by (auto simp: rs)
    moreover have "algn dvd t" by (simp add: t_def)
    ultimately show ?thesis using g by simp
  qed
qed

lemma alloc_below_returns:
  assumes "ranges_ok (g_ranges b)" and "0 < sz" and "0 < algn" and "length (g_ranges b) < BOOTMEM_MAX_RANGES"
    and "i \<le> length (g_ranges b)" and "\<exists>j < i. \<exists>s e. g_ranges b ! j = (s, e) \<and> sz + algn \<le> e - s + 1"
  shows "\<exists>b' tp. alloc_below b sz algn i = Some (b', tp)"
  using assms(5,6)
proof (induction i)
  case 0
  then show ?case by simp
next
  case (Suc i)
  obtain s e where r: "g_ranges b ! i = (s, e)" by fastforce
  then have se: "s \<le> e" "e < W64" using Suc.prems(1) assms(1) nth_mem [of i "g_ranges b"] by (auto simp: ranges_ok_def)
  show ?case
  proof (cases "sz + algn \<le> e - s + 1")
    case True
    then have fits: "sz \<le> e - s" using assms(3) by linarith
    then have "s + algn \<le> e - sz + 1" using True se by linarith
    then have "s \<le> align_down (e - sz) algn" using align_down_gt [OF assms(3), of "e - sz"] by linarith
    moreover have "sub64 e s = e - s" "sub64 e sz = e - sz" using se fits by (auto intro!: sub64_id)
    ultimately show ?thesis using r fits assms(4) by (simp add: Let_def)
  next
    case False
    then have "\<exists>j < i. \<exists>s e. g_ranges b ! j = (s, e) \<and> sz + algn \<le> e - s + 1"
      using Suc.prems(2) r by (metis less_antisym prod.inject)
    then have IH: "\<exists>b' tp. alloc_below b sz algn i = Some (b', tp)" using Suc by simp
    show ?thesis using r IH assms(4) by (simp add: Let_def)
  qed
qed

lemma bootmem_alloc_ok:
  assumes "ranges_ok (g_ranges b)" and "\<not> g_sealed b" and "0 < sz"
    and "length (g_ranges b) < BOOTMEM_MAX_RANGES"
    and "\<exists>(s, e) \<in> set (g_ranges b). sz + 2 ^ k \<le> e - s + 1"
  shows "\<exists>b' p. bootmem_alloc b sz (2 ^ k) = Some (b', p) \<and> 2 ^ k dvd p
           \<and> {p..<p + sz} \<subseteq> bytes (g_ranges b) \<and> ranges_ok (g_ranges b')
           \<and> bytes (g_ranges b') = bytes (g_ranges b) - {p..<p + sz} \<and> \<not> g_sealed b'"
proof -
  obtain s e where "(s, e) \<in> set (g_ranges b)" "sz + 2 ^ k \<le> e - s + 1" using assms(5) by blast
  then have "\<exists>j < length (g_ranges b). \<exists>s e. g_ranges b ! j = (s, e) \<and> sz + 2 ^ k \<le> e - s + 1"
    unfolding in_set_conv_nth by blast
  from alloc_below_returns [OF assms(1,3) _ assms(4) order_refl this]
  obtain b' p where A: "alloc_below b sz (2 ^ k) (length (g_ranges b)) = Some (b', p)" by auto
  moreover have "(2 ^ k :: nat) AND (2 ^ k - 1) = 0" by (simp only: and_mask_dvd_iff dvd_refl)
  ultimately have "bootmem_alloc b sz (2 ^ k) = Some (b', p)"
    using assms(2,3) by (simp add: bootmem_alloc_def Suc_le_eq)
  then show ?thesis using alloc_below_ok [OF assms(1,3) _ order_refl A] assms(2) by simp
qed

section \<open>The boot allocator's contract\<close>

text \<open>
  C29. \<open>bootmem_init\<close> on a sorted, validated memory map of at most 256 entries never panics, and
  the bytes it then holds as free are exactly the usable and loader-reclaimable ones, clipped to
  the range from 1 MiB to the direct-map limit, in pairwise disjoint ranges.
\<close>

theorem bootmem_init_exact:
  assumes "map_sorted mmap" and "length mmap \<le> BOOTMEM_MAX_RANGES"
  shows "\<exists>b. bootmem_init mmap limit = Some b \<and> ranges_ok (g_ranges b)
           \<and> bytes (g_ranges b) = (\<Union>e \<in> set mmap. usable_part limit e)"
  using add_entries_ok [OF assms(1), of "[]" limit] assms(2)
  by (fastforce simp: bootmem_init_def ranges_ok_def)

definition demo_map :: "mem_entry list" where
  "demo_map =
     [\<lparr>me_base = 0, me_length = 0xA0000, me_type = COSMOBOOT_MEM_USABLE\<rparr>,
      \<lparr>me_base = 0x100000, me_length = 0x200000, me_type = COSMOBOOT_MEM_USABLE\<rparr>,
      \<lparr>me_base = 0x300000, me_length = 0x100000, me_type = COSMOBOOT_MEM_LOADER_RECLAIMABLE\<rparr>,
      \<lparr>me_base = 0x400000, me_length = 0x200000, me_type = COSMOBOOT_MEM_KERNEL\<rparr>]"

lemma demo_map_sorted: "map_sorted demo_map"
  by (simp add: map_sorted_def demo_map_def mem_entry_valid_def u64_id)

lemma demo_map_length: "length demo_map = 4"
  by (simp add: demo_map_def)

theorem bootmem_init_exact_witness:
  "map_sorted demo_map \<and> length demo_map \<le> BOOTMEM_MAX_RANGES
   \<and> (\<exists>b. bootmem_init demo_map 0x380000 = Some b \<and> bytes (g_ranges b) = {0x100000..<0x380000})"
proof -
  have "(\<Union>e \<in> set demo_map. usable_part 0x380000 e) = {0x100000..<0x380000}"
    by (auto simp: demo_map_def usable_part_def mem_type_defs BOOTMEM_LOW_LIMIT_def u64_id)
  then show ?thesis
    using bootmem_init_exact [of demo_map "0x380000"] demo_map_sorted
    by (simp add: BOOTMEM_MAX_RANGES_def demo_map_length) blast
qed

text \<open>
  C30. \<open>bootmem_alloc\<close> never panics while the table has a spare slot and some range is large
  enough for the size plus its worst alignment gap; it returns an aligned address whose bytes were
  all free, and removes exactly those bytes from the free set, which stays made of disjoint ranges.
\<close>

theorem bootmem_alloc_exact:
  assumes "ranges_ok (g_ranges b)" and "\<not> g_sealed b" and "0 < sz"
    and "length (g_ranges b) < BOOTMEM_MAX_RANGES"
    and "\<exists>(s, e) \<in> set (g_ranges b). sz + 2 ^ k \<le> e - s + 1"
  shows "\<exists>b' p. bootmem_alloc b sz (2 ^ k) = Some (b', p) \<and> 2 ^ k dvd p
           \<and> {p..<p + sz} \<subseteq> bytes (g_ranges b) \<and> ranges_ok (g_ranges b')
           \<and> bytes (g_ranges b') = bytes (g_ranges b) - {p..<p + sz} \<and> \<not> g_sealed b'"
  using bootmem_alloc_ok [OF assms] .

theorem bootmem_alloc_exact_witness:
  "ranges_ok [(0x100000, 0x200000)] \<and>
   (\<exists>b' p. bootmem_alloc \<lparr>g_ranges = [(0x100000, 0x200000)], g_allocated_bytes = 0, g_sealed = False\<rparr>
             1000 (2 ^ 12) = Some (b', p)
        \<and> 2 ^ 12 dvd p \<and> {p..<p + 1000} \<subseteq> {0x100000..<0x200000})"
proof -
  let ?b = "\<lparr>g_ranges = [(0x100000, 0x200000)], g_allocated_bytes = 0, g_sealed = False\<rparr>"
  have "ranges_ok [(0x100000, 0x200000)]" by (simp add: ranges_ok_def)
  moreover have "\<exists>(s, e) \<in> set (g_ranges ?b). 1000 + 2 ^ 12 \<le> e - s + 1" by simp
  moreover have "bytes (g_ranges ?b) = {0x100000..<0x200000}" by simp
  moreover have "length (g_ranges ?b) < BOOTMEM_MAX_RANGES" by (simp add: BOOTMEM_MAX_RANGES_def)
  ultimately show ?thesis
    using bootmem_alloc_exact [of ?b 1000 12] by (metis bootmem.select_convs(1,3) zero_less_numeral)
qed

end
