(* ===== verification/Pmm.thy ===== *)
theory Pmm
  imports Buddy Bootmem
begin

text \<open>
  The physical memory manager, \<open>kernel/memory/pmm.c\<close>: three zones over one page array, built
  from the boot memory map, with reserved and deferred accounting, zone fallback, reference counts
  and the poisoning of free frames of a debug build.

  The record \<open>pmm\<close> holds the file's globals. Frame contents are 512 words of 64 bits per frame,
  the granularity of the poison pattern. A zone's lock is taken around each buddy call and released
  after it.
\<close>

section \<open>Data\<close>

definition PMM_ZONE_DMA :: nat where "PMM_ZONE_DMA = 0"
definition PMM_ZONE_DMA32 :: nat where "PMM_ZONE_DMA32 = 1"
definition PMM_ZONE_NORMAL :: nat where "PMM_ZONE_NORMAL = 2"
definition PMM_ZONE_COUNT :: nat where "PMM_ZONE_COUNT = 3"

definition PMM_ZONE_DMA_LIMIT :: paddr where "PMM_ZONE_DMA_LIMIT = 2 ^ 24"
definition PMM_ZONE_DMA32_LIMIT :: paddr where "PMM_ZONE_DMA32_LIMIT = 2 ^ 32"

definition PMM_FLAGS_ZONE_DMA32 :: "32 word" where "PMM_FLAGS_ZONE_DMA32 = flag 0"
definition PMM_FLAGS_ZONE_DMA :: "32 word" where "PMM_FLAGS_ZONE_DMA = flag 1"
definition PMM_FLAGS_ZERO :: "32 word" where "PMM_FLAGS_ZERO = flag 2"

lemmas zone_defs =
  PMM_ZONE_DMA_def PMM_ZONE_DMA32_def PMM_ZONE_NORMAL_def PMM_ZONE_COUNT_def
  PMM_ZONE_DMA_LIMIT_def PMM_ZONE_DMA32_LIMIT_def

record pmm =
  zones :: "nat \<Rightarrow> pmm_zone"
  pages :: page_array
  pmm_max_pfn :: pfn
  pmm_hhdm_limit :: paddr
  g_reserved_pages :: nat
  g_deferred_pages :: nat
  g_initialized :: bool
  frame_words :: "pfn \<Rightarrow> nat \<Rightarrow> nat"
  config_debug :: bool

record pmm_stats =
  st_total_pages :: nat
  st_free_pages :: nat
  st_reserved_pages :: nat
  st_deferred_pages :: nat
  st_zone_free :: "nat list"

definition pfn_valid :: "pmm \<Rightarrow> pfn \<Rightarrow> bool" where "pfn_valid m p \<longleftrightarrow> p < pmm_max_pfn m"

definition page_to_phys :: "pfn \<Rightarrow> paddr" where "page_to_phys p = pfn_to_phys p"

definition phys_to_page :: "pmm \<Rightarrow> paddr \<Rightarrow> pfn option" where
  "phys_to_page m pa = (let p = phys_to_pfn pa in if pfn_valid m p then Some p else None)"

definition phys_in_direct_map :: "pmm \<Rightarrow> paddr \<Rightarrow> bool" where
  "phys_in_direct_map m pa \<longleftrightarrow> pa < pmm_hhdm_limit m"

definition pmm_zone_of :: "paddr \<Rightarrow> nat" where
  "pmm_zone_of pa =
     (if pa < PMM_ZONE_DMA_LIMIT then PMM_ZONE_DMA
      else if pa < PMM_ZONE_DMA32_LIMIT then PMM_ZONE_DMA32
      else PMM_ZONE_NORMAL)"

definition pmm_zone_name :: "nat \<Rightarrow> string" where
  "pmm_zone_name z = (if z < PMM_ZONE_COUNT then [''DMA'', ''DMA32'', ''Normal''] ! z else ''?'')"

definition zone_for_pfn :: "pfn \<Rightarrow> nat" where
  "zone_for_pfn p = pmm_zone_of (pfn_to_phys p)"

text \<open>A buddy call on one zone, with the lock taken around it.\<close>

definition lock_zone :: "pmm \<Rightarrow> nat \<Rightarrow> pmm_zone" where
  "lock_zone m z = (zones m z)\<lparr>z_held := True\<rparr>"

definition unlock_zone :: "pmm \<Rightarrow> nat \<Rightarrow> pmm_zone \<Rightarrow> page_array \<Rightarrow> pmm" where
  "unlock_zone m z zn ps = m\<lparr>zones := (zones m)(z := zn\<lparr>z_held := False\<rparr>), pages := ps\<rparr>"

section \<open>Releasing ranges\<close>

text \<open>The accounting loop over one chunk.\<close>

fun drop_counts :: "pmm \<Rightarrow> pfn list \<Rightarrow> pmm option" where
  "drop_counts m [] = Some m"
| "drop_counts m (p # ps) = do {
     let fl = pg_flags (pages m p);
     kassert (has fl (PG_RESERVED OR PG_DEFERRED));
     kassert (pg_refcount (pages m p) = 0);
     let m = (if has fl PG_RESERVED then m\<lparr>g_reserved_pages := sub64 (g_reserved_pages m) 1\<rparr> else m);
     let m = (if has fl PG_DEFERRED then m\<lparr>g_deferred_pages := sub64 (g_deferred_pages m) 1\<rparr> else m);
     drop_counts m ps
   }"

text \<open>
  The loop has no bound of its own: on a frame at a zone's end it would neither advance nor panic.
  \<open>None\<close> covers both the panics and that loop.
\<close>

partial_function (option) release_range :: "pmm \<Rightarrow> pfn \<Rightarrow> pfn \<Rightarrow> pmm option" where
  "release_range m s e =
     (if s < e then do {
        let z = zone_for_pfn s;
        let chunk_end = (if e < end_pfn (zones m z) then e else end_pfn (zones m z));
        m \<leftarrow> drop_counts m [s..<chunk_end];
        (zn, ps) \<leftarrow> buddy_free_range (lock_zone m z) (pages m) s chunk_end;
        release_range (unlock_zone m z zn ps) chunk_end e
      }
      else Some m)"

definition init_zones :: "pmm \<Rightarrow> pfn \<Rightarrow> pmm" where
  "init_zones m max_pfn =
     (let dma_end = phys_to_pfn PMM_ZONE_DMA_LIMIT;
          dma32_end = phys_to_pfn PMM_ZONE_DMA32_LIMIT;
          dma_end = (if dma_end > max_pfn then max_pfn else dma_end);
          dma32_end = (if dma32_end > max_pfn then max_pfn else dma32_end)
      in m\<lparr>zones := (zones m)
             (PMM_ZONE_DMA := buddy_zone_init (pmm_zone_name PMM_ZONE_DMA) 0 dma_end,
              PMM_ZONE_DMA32 := buddy_zone_init (pmm_zone_name PMM_ZONE_DMA32) dma_end dma32_end,
              PMM_ZONE_NORMAL := buddy_zone_init (pmm_zone_name PMM_ZONE_NORMAL) dma32_end max_pfn)\<rparr>)"

definition mark_one :: "pfn \<Rightarrow> pmm \<Rightarrow> pmm" where
  "mark_one p m =
     m\<lparr>pages := (pages m)(p := (pages m p)\<lparr>pg_flags :=
          (pg_flags (pages m p) AND NOT PG_RESERVED) OR PG_DEFERRED\<rparr>),
       g_reserved_pages := sub64 (g_reserved_pages m) 1,
       g_deferred_pages := u64 (g_deferred_pages m + 1)\<rparr>"

definition mark_deferred :: "mem_entry list \<Rightarrow> pmm \<Rightarrow> pmm" where
  "mark_deferred mmap m =
     foldl (\<lambda>m e.
       if \<not> reclaimable e then m
       else
         let s = me_base e; t = me_end e;
             s = (if s < pmm_hhdm_limit m then pmm_hhdm_limit m else s)
         in if s \<ge> t then m else fold mark_one [phys_to_pfn s..<phys_to_pfn t] m) m mmap"

section \<open>Poisoning\<close>

definition POISON_WORD :: nat where "POISON_WORD = 0x5a5a5a5a5a5a5a5a"
definition POISON_MAGIC :: nat where "POISON_MAGIC = 0x506f6973306e4672"

definition poison_words :: "pfn \<Rightarrow> nat \<Rightarrow> nat \<Rightarrow> nat" where
  "poison_words p free_pc k =
     (if k = 0 then POISON_MAGIC else if k = 1 then free_pc else if k = 2 then p else POISON_WORD)"

definition poison_one :: "nat \<Rightarrow> pfn \<Rightarrow> pmm \<Rightarrow> pmm" where
  "poison_one free_pc p m =
     m\<lparr>frame_words := (frame_words m)(p := poison_words p free_pc),
       pages := (pages m)(p := (pages m p)\<lparr>pg_flags := pg_flags (pages m p) OR PG_POISONED\<rparr>)\<rparr>"

definition poison_fill :: "pmm \<Rightarrow> pfn \<Rightarrow> nat \<Rightarrow> nat \<Rightarrow> pmm" where
  "poison_fill m p ord free_pc =
     (if \<not> config_debug m then m
      else if \<not> phys_in_direct_map m (page_to_phys p + PAGE_SIZE * 2 ^ ord - 1) then m
      else fold (poison_one free_pc) [p..<p + 2 ^ ord] m)"

text \<open>The span of the damage in one frame, or none: what the scan of \<open>poison_check\<close> computes.\<close>

definition poison_damage :: "pfn \<Rightarrow> (nat \<Rightarrow> nat) \<Rightarrow> (nat \<times> nat) option" where
  "poison_damage p w =
     (let header_ok = (w 0 = POISON_MAGIC \<and> w 2 = p \<and> w 3 = POISON_WORD);
          (first, lst) =
            foldl (\<lambda>(first, lst) k.
                if w k \<noteq> POISON_WORD then (if first = PAGE_SIZE then k * 8 else first, k * 8 + 8)
                else (first, lst))
              (if header_ok then PAGE_SIZE else 0, 0) [(if header_ok then 4 else 0)..<PAGE_SIZE div 8]
      in if first = PAGE_SIZE then None
         else Some (first, if \<not> header_ok \<and> lst < 32 then 32 else lst))"

fun poison_check_frames :: "pmm \<Rightarrow> pfn list \<Rightarrow> pmm option" where
  "poison_check_frames m [] = Some m"
| "poison_check_frames m (p # ps) =
     (if \<not> has (pg_flags (pages m p)) PG_POISONED then poison_check_frames m ps
      else do {
        let m = m\<lparr>pages := (pages m)(p := (pages m p)\<lparr>pg_flags := pg_flags (pages m p) AND NOT PG_POISONED\<rparr>)\<rparr>;
        kassert (poison_damage p (frame_words m p) = None);
        poison_check_frames m ps
      })"

definition poison_check :: "pmm \<Rightarrow> pfn \<Rightarrow> nat \<Rightarrow> pmm option" where
  "poison_check m p ord = (if config_debug m then poison_check_frames m [p..<p + 2 ^ ord] else Some m)"

section \<open>Allocation and freeing\<close>

text \<open>The fallback loop, from zone \<open>z\<close> downwards.\<close>

fun alloc_zones :: "pmm \<Rightarrow> nat \<Rightarrow> nat \<Rightarrow> (pmm \<times> pfn option) option" where
  "alloc_zones m ord z = do {
     (zn, ps, r) \<leftarrow> buddy_alloc_block (lock_zone m z) (pages m) ord;
     let m = unlock_zone m z zn ps;
     if r = None \<and> z > 0 then alloc_zones m ord (z - 1) else Some (m, r)
   }"

declare alloc_zones.simps [simp del]

definition zero_frames :: "pmm \<Rightarrow> pfn \<Rightarrow> nat \<Rightarrow> pmm" where
  "zero_frames m p ord =
     m\<lparr>frame_words := (\<lambda>q. if p \<le> q \<and> q < p + 2 ^ ord then (\<lambda>_. 0) else frame_words m q)\<rparr>"

definition top_zone :: "32 word \<Rightarrow> nat" where
  "top_zone flags =
     (if has flags PMM_FLAGS_ZONE_DMA then PMM_ZONE_DMA
      else if has flags PMM_FLAGS_ZONE_DMA32 then PMM_ZONE_DMA32
      else PMM_ZONE_NORMAL)"

definition pmm_alloc_pages :: "pmm \<Rightarrow> nat \<Rightarrow> 32 word \<Rightarrow> (pmm \<times> pfn option) option" where
  "pmm_alloc_pages m ord flags = do {
     kassert (g_initialized m);
     if ord \<ge> PMM_MAX_ORDER then Some (m, None)
     else do {
       (m, r) \<leftarrow> alloc_zones m ord (top_zone flags);
       (case r of
          None \<Rightarrow> Some (m, None)
        | Some p \<Rightarrow> do {
            m \<leftarrow> poison_check m p ord;
            m \<leftarrow> (if has flags PMM_FLAGS_ZERO
                   then do {
                     kassert (phys_in_direct_map m (page_to_phys p + PAGE_SIZE * 2 ^ ord - 1));
                     Some (zero_frames m p ord)
                   }
                   else Some m);
            Some (m, Some p)
          })
     }
   }"

definition pmm_free_pages :: "pmm \<Rightarrow> pfn \<Rightarrow> nat \<Rightarrow> nat \<Rightarrow> pmm option" where
  "pmm_free_pages m p ord free_pc = do {
     kassert (g_initialized m);
     kassert (ord < PMM_MAX_ORDER);
     let pg = pages m p;
     kassert (\<not> has (pg_flags pg) PG_RESERVED);
     kassert (\<not> has (pg_flags pg) PG_BUDDY);
     kassert (\<not> has (pg_flags pg) (PG_SLAB OR PG_KMALLOC_LARGE OR PG_PAGETABLE));
     kassert (pg_refcount pg = 1);
     kassert (pg_order pg = ord);
     let m = m\<lparr>pages := (pages m)(p := pg\<lparr>pg_refcount := 0\<rparr>)\<rparr>;
     let m = poison_fill m p ord free_pc;
     let z = zone_for_pfn p;
     (zn, ps) \<leftarrow> buddy_free_block (lock_zone m z) (pages m) p ord;
     Some (unlock_zone m z zn ps)
   }"

definition pmm_page_get :: "pmm \<Rightarrow> pfn \<Rightarrow> pmm option" where
  "pmm_page_get m p = do {
     let old = pg_refcount (pages m p);
     let m = m\<lparr>pages := (pages m)(p := (pages m p)\<lparr>pg_refcount := old + 1\<rparr>)\<rparr>;
     kassert (old \<noteq> 0);
     Some m
   }"

definition pmm_page_put :: "pmm \<Rightarrow> pfn \<Rightarrow> nat \<Rightarrow> pmm option" where
  "pmm_page_put m p free_pc = do {
     let old = pg_refcount (pages m p);
     let m = m\<lparr>pages := (pages m)(p := (pages m p)\<lparr>pg_refcount := old - 1\<rparr>)\<rparr>;
     kassert (old \<noteq> 0);
     if old = 1 then do {
       let m = m\<lparr>pages := (pages m)(p := (pages m p)\<lparr>pg_refcount := 1\<rparr>)\<rparr>;
       pmm_free_pages m p (pg_order (pages m p)) free_pc
     }
     else Some m
   }"

section \<open>Deferred and reserved memory, statistics\<close>

text \<open>The run detection of \<open>pmm_release_deferred\<close>; \<open>run\<close> is the start of the current run, if any.\<close>

fun deferred_loop :: "pmm \<Rightarrow> pfn option \<Rightarrow> nat \<Rightarrow> pfn list \<Rightarrow> (pmm \<times> nat) option" where
  "deferred_loop m run released [] = Some (m, released)"
| "deferred_loop m run released (p # ps) =
     (let deferred = (p < pmm_max_pfn m \<and> has (pg_flags (pages m p)) PG_DEFERRED) in
      case run of
        None \<Rightarrow> deferred_loop m (if deferred then Some p else None) released ps
      | Some run_start \<Rightarrow>
          if deferred then deferred_loop m run released ps
          else do {
            kassert (phys_in_direct_map m (sub64 (pfn_to_phys p) 1));
            m \<leftarrow> release_range m run_start p;
            deferred_loop m None (u64 (released + (p - run_start))) ps
          })"

definition pmm_release_deferred :: "pmm \<Rightarrow> pmm option" where
  "pmm_release_deferred m = do {
     kassert (g_initialized m);
     (m, released) \<leftarrow> deferred_loop m None 0 [0..<Suc (pmm_max_pfn m)];
     kassert (g_deferred_pages m = 0);
     Some m
   }"

definition pmm_free_reserved_range :: "pmm \<Rightarrow> paddr \<Rightarrow> nat \<Rightarrow> pmm option" where
  "pmm_free_reserved_range m base sz = do {
     kassert (g_initialized m);
     kassert (is_page_aligned base \<and> is_page_aligned sz);
     let s = phys_to_pfn base;
     let e = phys_to_pfn (u64 (base + sz));
     kassert (e \<le> pmm_max_pfn m);
     kassert (list_all (\<lambda>p. has (pg_flags (pages m p)) PG_RESERVED \<and> pg_refcount (pages m p) = 0) [s..<e]);
     release_range m s e
   }"

definition pmm_get_stats :: "pmm \<Rightarrow> pmm_stats" where
  "pmm_get_stats m =
     \<lparr>st_total_pages = foldl (\<lambda>n z. u64 (n + nr_pages_total (zones m z))) 0 [0..<PMM_ZONE_COUNT],
      st_free_pages = foldl (\<lambda>n z. u64 (n + nr_pages_free (zones m z))) 0 [0..<PMM_ZONE_COUNT],
      st_reserved_pages = g_reserved_pages m, st_deferred_pages = g_deferred_pages m,
      st_zone_free = map (\<lambda>z. nr_pages_free (zones m z)) [0..<PMM_ZONE_COUNT]\<rparr>"

section \<open>Initialisation\<close>

record boot_info =
  bi_hhdm_size :: nat
  bi_kernel_phys_base :: nat
  bi_kernel_size :: nat
  bi_map :: "mem_entry list"

definition kernel_overlap :: "boot_info \<Rightarrow> mem_entry \<Rightarrow> bool" where
  "kernel_overlap info e \<longleftrightarrow>
     bi_kernel_phys_base info < me_end e
     \<and> me_base e < u64 (bi_kernel_phys_base info + bi_kernel_size info) \<and> reclaimable e"

definition boot_page :: "pfn \<Rightarrow> page" where
  "boot_page p = \<lparr>pg_flags = PG_RESERVED, pg_refcount = 0, pg_order = 0,
     pg_zone = u8 (pmm_zone_of (pfn_to_phys p)), pg_slab = None\<rparr>"

text \<open>\<open>sizeof(struct page)\<close> is 32.\<close>

definition pmm_init :: "pmm \<Rightarrow> boot_info \<Rightarrow> (pmm \<times> bootmem) option" where
  "pmm_init m info = do {
     kassert (\<not> g_initialized m);
     let m = m\<lparr>pmm_hhdm_limit := bi_hhdm_size info\<rparr>;
     let limit = bootinfo_phys_limit (bi_map info);
     let m = m\<lparr>pmm_max_pfn := phys_to_pfn (page_align_up limit)\<rparr>;
     kassert (pmm_max_pfn m \<noteq> 0);
     kassert (list_all (\<lambda>e. \<not> kernel_overlap info e) (bi_map info));
     b \<leftarrow> bootmem_init (bi_map info) (pmm_hhdm_limit m);
     let array_bytes = u64 (pmm_max_pfn m * 32);
     (b, array) \<leftarrow> bootmem_alloc b array_bytes PAGE_SIZE;
     let m = m\<lparr>pages := boot_page, g_reserved_pages := pmm_max_pfn m, g_deferred_pages := 0\<rparr>;
     let m = init_zones m (pmm_max_pfn m);
     let m = mark_deferred (bi_map info) m;
     m \<leftarrow> bootmem_release_all b (\<lambda>s e m. release_range m s e) m;
     Some (m\<lparr>g_initialized := True\<rparr>, bootmem_seal b)
   }"

end
