(* ===== verification/Pmm_Inv.thy ===== *)
theory Pmm_Inv
  imports Pmm
begin

text \<open>
  The invariant of the physical memory manager and what each of its operations does to it: the
  zones partition the page array and each satisfies the buddy invariant, the reserved and deferred
  counters count flags, and poisoned frames hold their pattern.
\<close>

section \<open>The invariant\<close>

abbreviation zone_end :: "nat \<Rightarrow> pfn \<Rightarrow> pfn" where
  "zone_end z mx \<equiv> (if z = 0 then min 4096 mx else if z = 1 then min 1048576 mx else mx)"

definition bounds_ok :: "pmm \<Rightarrow> bool" where
  "bounds_ok m \<longleftrightarrow> pmm_max_pfn m < 2 ^ 52
     \<and> (\<forall>z < PMM_ZONE_COUNT. start_pfn (zones m z) = (if z = 0 then 0 else zone_end (z - 1) (pmm_max_pfn m))
            \<and> end_pfn (zones m z) = zone_end z (pmm_max_pfn m))"

definition flagged :: "pmm \<Rightarrow> 32 word \<Rightarrow> pfn set" where
  "flagged m f = {p. p < pmm_max_pfn m \<and> has (pg_flags (pages m p)) f}"

definition counts_ok :: "pmm \<Rightarrow> bool" where
  "counts_ok m \<longleftrightarrow> g_reserved_pages m = card (flagged m PG_RESERVED)
     \<and> g_deferred_pages m = card (flagged m PG_DEFERRED)"

definition zones_ok :: "pmm \<Rightarrow> bool" where
  "zones_ok m \<longleftrightarrow> (\<forall>z < PMM_ZONE_COUNT. zone_ok (zones m z) (pages m) \<and> \<not> z_held (zones m z))"

definition pmm_ok :: "pmm \<Rightarrow> bool" where
  "pmm_ok m \<longleftrightarrow> bounds_ok m \<and> counts_ok m \<and> zones_ok m"

definition pmm_free :: "pmm \<Rightarrow> pfn set" where
  "pmm_free m = (\<Union>z < PMM_ZONE_COUNT. free_pages (zones m z))"

definition pmm_managed :: "pmm \<Rightarrow> pfn set" where
  "pmm_managed m = {p. p < pmm_max_pfn m \<and> \<not> has (pg_flags (pages m p)) (PG_RESERVED OR PG_DEFERRED)}"

lemma phys_pfn [simp]: "p < 2 ^ 52 \<Longrightarrow> pfn_to_phys p = p * 4096"
  by (simp add: pfn_to_phys_def PAGE_SHIFT_def push_bit_eq_mult u64_id)

lemma zone_for_pfn_simp:
  "p < 2 ^ 52 \<Longrightarrow> zone_for_pfn p = (if p < 4096 then 0 else if p < 1048576 then 1 else 2)"
  by (simp add: zone_for_pfn_def pmm_zone_of_def zone_defs)

lemma zone_for_pfn_frames:
  assumes "bounds_ok m" and "p < pmm_max_pfn m"
  shows "zone_for_pfn p < PMM_ZONE_COUNT" and "p \<in> frames (zones m (zone_for_pfn p))"
proof -
  have "p < 2 ^ 52" using assms by (simp add: bounds_ok_def)
  note z = zone_for_pfn_simp [OF this]
  show "zone_for_pfn p < PMM_ZONE_COUNT" by (simp add: z PMM_ZONE_COUNT_def)
  then show "p \<in> frames (zones m (zone_for_pfn p))"
    using assms by (auto simp: bounds_ok_def z)
qed

lemma bounds_okD:
  assumes "bounds_ok m"
  shows "start_pfn (zones m 0) = 0" and "end_pfn (zones m 0) = min 4096 (pmm_max_pfn m)"
    and "start_pfn (zones m (Suc 0)) = min 4096 (pmm_max_pfn m)"
    and "end_pfn (zones m (Suc 0)) = min 1048576 (pmm_max_pfn m)"
    and "start_pfn (zones m 2) = min 1048576 (pmm_max_pfn m)" and "end_pfn (zones m 2) = pmm_max_pfn m"
  using assms by (simp_all add: bounds_ok_def PMM_ZONE_COUNT_def)

lemma zone_cases: "z < PMM_ZONE_COUNT \<Longrightarrow> z = 0 \<or> z = Suc 0 \<or> z = 2"
  by (auto simp: PMM_ZONE_COUNT_def)

lemma frames_disjoint:
  assumes "bounds_ok m" and "z < PMM_ZONE_COUNT" and "y < PMM_ZONE_COUNT" and "z \<noteq> y"
  shows "frames (zones m z) \<inter> frames (zones m y) = {}"
  using zone_cases [OF assms(2)] zone_cases [OF assms(3)] assms(4)
  by (elim disjE) (simp_all add: bounds_okD [OF assms(1)])

lemma frames_below_max:
  assumes "bounds_ok m" and "z < PMM_ZONE_COUNT"
  shows "frames (zones m z) \<subseteq> {..<pmm_max_pfn m}"
  using zone_cases [OF assms(2)] by (elim disjE) (auto simp: bounds_okD [OF assms(1)])

lemma zones_okD:
  assumes "zones_ok m" and "z < PMM_ZONE_COUNT"
  shows "zone_ok (zones m z) (pages m)" and "\<not> z_held (zones m z)"
  using assms by (auto simp: zones_ok_def)

lemma zone_free_frames:
  assumes "zones_ok m" and "z < PMM_ZONE_COUNT"
  shows "free_pages (zones m z) \<subseteq> frames (zones m z)"
  using zones_okD(1) [OF assms] free_pages_in_zone [of "zones m z" "pages m"] by (simp add: zone_ok_def)

lemma pmm_free_zone:
  assumes "bounds_ok m" and "zones_ok m" and "z < PMM_ZONE_COUNT"
  shows "pmm_free m \<inter> frames (zones m z) = free_pages (zones m z)"
proof -
  have "x \<in> free_pages (zones m z)"
    if "y < PMM_ZONE_COUNT" "x \<in> free_pages (zones m y)" "x \<in> frames (zones m z)" for x y
    using that zone_free_frames [OF assms(2) that(1)] frames_disjoint [OF assms(1) that(1) assms(3)] by blast
  then show ?thesis
    using zone_free_frames [OF assms(2,3)] assms(3) unfolding pmm_free_def by blast
qed

lemma managed_zone:
  assumes "bounds_ok m" and "z < PMM_ZONE_COUNT"
  shows "managed (zones m z) (pages m) = pmm_managed m \<inter> frames (zones m z)"
  using frames_below_max [OF assms] by (auto simp: managed_def pmm_managed_def)

lemma zone_ok_held [simp]: "zone_ok (z\<lparr>z_held := b\<rparr>) ps = zone_ok z ps"
  by (simp add: zone_ok_def)

lemma block_ok_held [simp]: "block_ok (z\<lparr>z_held := b\<rparr>) p k = block_ok z p k"
  by (simp add: block_ok_def)

lemma unlock_simps [simp]:
  "pmm_max_pfn (unlock_zone m z zn ps) = pmm_max_pfn m"
  "g_reserved_pages (unlock_zone m z zn ps) = g_reserved_pages m"
  "g_deferred_pages (unlock_zone m z zn ps) = g_deferred_pages m"
  "g_initialized (unlock_zone m z zn ps) = g_initialized m"
  "pmm_hhdm_limit (unlock_zone m z zn ps) = pmm_hhdm_limit m"
  "frame_words (unlock_zone m z zn ps) = frame_words m"
  "config_debug (unlock_zone m z zn ps) = config_debug m"
  "pages (unlock_zone m z zn ps) = ps"
  "zones (unlock_zone m z zn ps) = (zones m)(z := zn\<lparr>z_held := False\<rparr>)"
  by (simp_all add: unlock_zone_def)

lemma lock_simps [simp]:
  "z_held (lock_zone m z)" "start_pfn (lock_zone m z) = start_pfn (zones m z)"
  "end_pfn (lock_zone m z) = end_pfn (zones m z)"
  "zone_ok (lock_zone m z) ps = zone_ok (zones m z) ps"
  "block_ok (lock_zone m z) p k = block_ok (zones m z) p k"
  "free_pages (lock_zone m z) = free_pages (zones m z)" "blocks (lock_zone m z) = blocks (zones m z)"
  "managed (lock_zone m z) ps = managed (zones m z) ps"
  "nr_pages_free (lock_zone m z) = nr_pages_free (zones m z)"
  "nr_pages_total (lock_zone m z) = nr_pages_total (zones m z)"
  by (simp_all add: lock_zone_def)

text \<open>Putting one zone back after a buddy call keeps the bounds and every other zone.\<close>

lemma unlock_zones:
  assumes "bounds_ok m" and "zones_ok m" and z: "z < PMM_ZONE_COUNT"
    and "zone_ok zn ps" and fr: "start_pfn zn = start_pfn (zones m z)" "end_pfn zn = end_pfn (zones m z)"
    and "\<And>q. q \<notin> frames (zones m z) \<Longrightarrow> ps q = pages m q"
  shows "bounds_ok (unlock_zone m z zn ps)" and "zones_ok (unlock_zone m z zn ps)"
    and "pmm_free (unlock_zone m z zn ps) = (pmm_free m - frames (zones m z)) \<union> free_pages zn"
proof -
  show "bounds_ok (unlock_zone m z zn ps)" using assms(1) fr by (auto simp: bounds_ok_def)
  have "zone_ok (zones m y) ps" if "y < PMM_ZONE_COUNT" "y \<noteq> z" for y
    using zone_ok_frame [OF zones_okD(1) [OF assms(2) that(1)]] assms(7)
      frames_disjoint [OF assms(1) that(1) z that(2)] by blast
  then show "zones_ok (unlock_zone m z zn ps)" using assms(2,4) by (simp add: zones_ok_def)
  have "free_pages (zones m y) \<inter> frames (zones m z) = {}" if "y < PMM_ZONE_COUNT" "y \<noteq> z" for y
    using zone_free_frames [OF assms(2) that(1)] frames_disjoint [OF assms(1) that(1) z that(2)] by blast
  then have "(\<Union>y \<in> {..<PMM_ZONE_COUNT} - {z}. free_pages (zones m y)) = pmm_free m - frames (zones m z)"
    using zone_free_frames [OF assms(2) z] unfolding pmm_free_def by blast
  moreover have "pmm_free (unlock_zone m z zn ps)
      = (\<Union>y \<in> {..<PMM_ZONE_COUNT} - {z}. free_pages (zones m y)) \<union> free_pages zn"
    using z by (auto simp: pmm_free_def split: if_splits)
  ultimately show "pmm_free (unlock_zone m z zn ps) = (pmm_free m - frames (zones m z)) \<union> free_pages zn"
    by simp
qed

section \<open>Allocation\<close>

text \<open>What the manager leaves alone beyond the zones, the descriptors and the frames' contents.\<close>

definition same_globals :: "pmm \<Rightarrow> pmm \<Rightarrow> bool" where
  "same_globals m m' \<longleftrightarrow>
     pmm_max_pfn m' = pmm_max_pfn m \<and> pmm_hhdm_limit m' = pmm_hhdm_limit m
     \<and> g_initialized m' = g_initialized m \<and> config_debug m' = config_debug m"

definition took :: "pmm \<Rightarrow> pmm \<Rightarrow> pfn \<Rightarrow> nat \<Rightarrow> bool" where
  "took m m' p ord \<longleftrightarrow>
     pmm_ok m' \<and> same_globals m m' \<and> 2 ^ ord dvd p \<and> span p ord \<subseteq> pmm_free m
     \<and> pmm_free m' = pmm_free m - span p ord
     \<and> pg_refcount (pages m' p) = 1 \<and> pg_order (pages m' p) = ord"

lemma z_held_triv [simp]: "\<not> z_held z \<Longrightarrow> z\<lparr>z_held := False\<rparr> = z"
  by (cases z) simp

lemma unlock_triv: "\<not> z_held (zones m z) \<Longrightarrow> unlock_zone m z (lock_zone m z) (pages m) = m"
  by (simp add: unlock_zone_def lock_zone_def)

lemma counts_ok_cong:
  assumes "counts_ok m" and "pmm_max_pfn m' = pmm_max_pfn m"
    and "g_reserved_pages m' = g_reserved_pages m" and "g_deferred_pages m' = g_deferred_pages m"
    and "\<And>p. has (pg_flags (pages m' p)) PG_RESERVED = has (pg_flags (pages m p)) PG_RESERVED"
    and "\<And>p. has (pg_flags (pages m' p)) PG_DEFERRED = has (pg_flags (pages m p)) PG_DEFERRED"
  shows "counts_ok m'"
  using assms by (simp add: counts_ok_def flagged_def)

text \<open>The other flags and counts of the descriptors, up to the head's reference count.\<close>

definition kept_pages :: "pmm \<Rightarrow> pmm \<Rightarrow> pfn \<Rightarrow> bool" where
  "kept_pages m m' p \<longleftrightarrow>
     (\<forall>q. (q \<noteq> p \<longrightarrow> pg_refcount (pages m' q) = pg_refcount (pages m q))
        \<and> (\<forall>j. j \<noteq> 1 \<longrightarrow> bit (pg_flags (pages m' q)) j = bit (pg_flags (pages m q)) j)
        \<and> (q \<notin> pmm_free m \<longrightarrow> pages m' q = pages m q))"

definition big_block :: "pmm_zone \<Rightarrow> nat \<Rightarrow> bool" where
  "big_block z ord \<longleftrightarrow> (\<exists>(q, k) \<in> blocks z. ord \<le> k)"

lemma alloc_zone_hit:
  assumes ok: "pmm_ok m" and z: "z < PMM_ZONE_COUNT"
    and post: "alloc_post (lock_zone m z) (pages m) ord zn ps p"
    and un: "\<And>q. q \<notin> free_pages (zones m z) \<Longrightarrow> ps q = pages m q"
  shows "took m (unlock_zone m z zn ps) p ord" and "kept_pages m (unlock_zone m z zn ps) p"
    and "span p ord \<subseteq> free_pages (zones m z)"
proof -
  let ?m = "unlock_zone m z zn ps"
  have b: "bounds_ok m" and zo: "zones_ok m" and c: "counts_ok m" using ok by (auto simp: pmm_ok_def)
  have A: "zone_ok zn ps" "block_ok (zones m z) p ord" "span p ord \<subseteq> free_pages (zones m z)"
      "free_pages zn = free_pages (zones m z) - span p ord" "pg_refcount (ps p) = 1" "pg_order (ps p) = ord"
      "start_pfn zn = start_pfn (zones m z)" "end_pfn zn = end_pfn (zones m z)"
    using post by (auto simp: alloc_post_def same_zone_def)
  have same: "same_pages (pages m) (ps(p := (ps p)\<lparr>pg_refcount := pg_refcount (pages m p)\<rparr>))"
    using post by (simp add: alloc_post_def)
  show sub: "span p ord \<subseteq> free_pages (zones m z)" by (rule A(3))
  have fr: "ps q = pages m q" if "q \<notin> frames (zones m z)" for q
    using that un zone_free_frames [OF zo z] by blast
  have fz: "free_pages (zones m z) \<subseteq> pmm_free m" using z by (auto simp: pmm_free_def)
  note U = unlock_zones [OF b zo z A(1,7,8) fr]
  have "(q \<noteq> p \<longrightarrow> pg_refcount (ps q) = pg_refcount (pages m q))
      \<and> (\<forall>j. j \<noteq> 1 \<longrightarrow> bit (pg_flags (ps q)) j = bit (pg_flags (pages m q)) j)
      \<and> (q \<notin> pmm_free m \<longrightarrow> ps q = pages m q)" for q
    using same [unfolded same_pages_def, rule_format, of q] un [of q] fz by (cases "q = p") auto
  then show kept: "kept_pages m ?m p" by (simp add: kept_pages_def)
  have "counts_ok ?m"
    using kept by (intro counts_ok_cong [OF c]) (simp_all add: kept_pages_def PG_defs flag_simps)
  moreover have "pmm_free ?m = pmm_free m - span p ord"
    using U(3) A(3,4) pmm_free_zone [OF b zo z] zone_free_frames [OF zo z] by blast
  moreover have "2 ^ ord dvd p" using A(2) by (simp add: block_ok_def)
  ultimately show "took m ?m p ord"
    using U(1,2) order_trans [OF A(3) fz] A(5,6) by (simp add: took_def pmm_ok_def same_globals_def)
qed

lemma alloc_zone_step:
  assumes ok: "pmm_ok m" and z: "z < PMM_ZONE_COUNT" and ord: "ord < PMM_MAX_ORDER"
  obtains (none) "alloc_zones m ord z = (if z > 0 then alloc_zones m ord (z - 1) else Some (m, None))"
      and "\<not> big_block (zones m z) ord"
  | (hit) m' p where "alloc_zones m ord z = Some (m', Some p)" and "took m m' p ord" and "kept_pages m m' p"
      and "frame_words m' = frame_words m" and "span p ord \<subseteq> free_pages (zones m z)"
      and "big_block (zones m z) ord"
proof (rule alloc_block_cases [of "lock_zone m z" "pages m" ord])
  have zo: "zones_ok m" using ok by (simp add: pmm_ok_def)
  show "zone_ok (lock_zone m z) (pages m)" using zones_okD(1) [OF zo z] by simp
  show "z_held (lock_zone m z)" by simp
  show "ord < PMM_MAX_ORDER" by (rule ord)
  {
    assume "buddy_alloc_block (lock_zone m z) (pages m) ord = Some (lock_zone m z, pages m, None)"
      and all: "\<forall>(q, k) \<in> blocks (lock_zone m z). k < ord"
    then have "alloc_zones m ord z = (if z > 0 then alloc_zones m ord (z - 1) else Some (m, None))"
      using unlock_triv zones_okD(2) [OF zo z] by (simp add: alloc_zones.simps [of m ord z])
    moreover have "\<not> big_block (zones m z) ord" using all by (fastforce simp: big_block_def)
    ultimately show thesis by (rule none)
  next
    fix zn ps p
    assume A: "buddy_alloc_block (lock_zone m z) (pages m) ord = Some (zn, ps, Some p)"
      "alloc_post (lock_zone m z) (pages m) ord zn ps p"
      "\<And>q. q \<notin> free_pages (lock_zone m z) \<Longrightarrow> ps q = pages m q" "\<exists>(q, k) \<in> blocks (lock_zone m z). ord \<le> k"
    have "alloc_zones m ord z = Some (unlock_zone m z zn ps, Some p)"
      using A(1) by (simp add: alloc_zones.simps [of m ord z])
    moreover have "took m (unlock_zone m z zn ps) p ord" "kept_pages m (unlock_zone m z zn ps) p"
        "span p ord \<subseteq> free_pages (zones m z)"
      using alloc_zone_hit [OF ok z A(2)] A(3) by simp_all
    ultimately show thesis using hit [of "unlock_zone m z zn ps" p] A(4) by (simp add: big_block_def)
  }
qed

lemma alloc_zones_total:
  assumes ok: "pmm_ok m" and "z < PMM_ZONE_COUNT" and ord: "ord < PMM_MAX_ORDER"
  shows "(alloc_zones m ord z = Some (m, None) \<and> (\<forall>y \<le> z. \<not> big_block (zones m y) ord))
       \<or> (\<exists>m' p y. alloc_zones m ord z = Some (m', Some p) \<and> took m m' p ord \<and> kept_pages m m' p
            \<and> frame_words m' = frame_words m \<and> y \<le> z \<and> span p ord \<subseteq> free_pages (zones m y)
            \<and> (\<forall>x. y < x \<and> x \<le> z \<longrightarrow> \<not> big_block (zones m x) ord))"
  using assms(2)
proof (induction z)
  case 0
  show ?case
    by (rule alloc_zone_step [OF ok 0 ord]) auto
next
  case (Suc z)
  show ?case
  proof (rule alloc_zone_step [OF ok Suc.prems ord])
    assume "alloc_zones m ord (Suc z) = (if Suc z > 0 then alloc_zones m ord (Suc z - 1) else Some (m, None))"
      and nb: "\<not> big_block (zones m (Suc z)) ord"
    then have "alloc_zones m ord (Suc z) = alloc_zones m ord z" by simp
    then show ?thesis using Suc.IH Suc.prems nb by (metis Suc_lessD le_Suc_eq)
  next
    fix m' p
    assume "alloc_zones m ord (Suc z) = Some (m', Some p)" "took m m' p ord" "kept_pages m m' p"
      "frame_words m' = frame_words m" "span p ord \<subseteq> free_pages (zones m (Suc z))"
    then show ?thesis
      by (intro disjI2, rule_tac x = m' in exI, rule_tac x = p in exI, rule_tac x = "Suc z" in exI) auto
  qed
qed

text \<open>The fallback gives up only when no allowed zone has a large enough block.\<close>

lemma alloc_zones_big:
  assumes ok: "pmm_ok m" and "z < PMM_ZONE_COUNT" and ord: "ord < PMM_MAX_ORDER"
    and "alloc_zones m ord z \<noteq> Some (m, None)"
  shows "\<exists>y \<le> z. big_block (zones m y) ord"
  using assms(2,4)
proof (induction z)
  case 0
  show ?case
    by (rule alloc_zone_step [OF ok 0(1) ord]) (use 0(2) in auto)
next
  case (Suc z)
  show ?case
  proof (rule alloc_zone_step [OF ok Suc.prems(1) ord])
    assume "alloc_zones m ord (Suc z) = (if Suc z > 0 then alloc_zones m ord (Suc z - 1) else Some (m, None))"
    then show ?thesis using Suc by (auto intro: le_SucI)
  qed auto
qed

section \<open>Poisoned frames\<close>

text \<open>A frame holds its pattern when every word but the freer's address does.\<close>

definition holds_poison :: "pfn \<Rightarrow> (nat \<Rightarrow> nat) \<Rightarrow> bool" where
  "holds_poison p w \<longleftrightarrow> (\<forall>k < 512. k \<noteq> 1 \<longrightarrow> w k = poison_words p 0 k)"

definition poison_ok :: "pmm \<Rightarrow> bool" where
  "poison_ok m \<longleftrightarrow>
     (\<forall>p. has (pg_flags (pages m p)) PG_POISONED \<longrightarrow> config_debug m \<and> holds_poison p (frame_words m p))"

abbreviation scan_word :: "(nat \<Rightarrow> nat) \<Rightarrow> nat \<times> nat \<Rightarrow> nat \<Rightarrow> nat \<times> nat" where
  "scan_word w \<equiv> \<lambda>(first, lst) k.
     if w k \<noteq> POISON_WORD then (if first = PAGE_SIZE then k * 8 else first, k * 8 + 8) else (first, lst)"

lemma scan_first:
  "\<forall>k \<in> set ks. k < 512 \<Longrightarrow>
    fst (foldl (scan_word w) (a, l) ks) = PAGE_SIZE \<longleftrightarrow> a = PAGE_SIZE \<and> (\<forall>k \<in> set ks. w k = POISON_WORD)"
  by (induction ks arbitrary: a l) (auto simp: PAGE_SIZE_def PAGE_SHIFT_def)

lemma holds_poison_iff:
  "holds_poison p w \<longleftrightarrow>
     (w 0 = POISON_MAGIC \<and> w 2 = p \<and> w 3 = POISON_WORD) \<and> (\<forall>k \<in> {4..<512}. w k = POISON_WORD)"
proof
  assume h: "(w 0 = POISON_MAGIC \<and> w 2 = p \<and> w 3 = POISON_WORD) \<and> (\<forall>k \<in> {4..<512}. w k = POISON_WORD)"
  have "w k = poison_words p 0 k" if k: "k < 512" "k \<noteq> 1" for k
  proof -
    consider "k = 0" | "k = 2" | "k = 3" | "k \<in> {4..<512}" using k by fastforce
    then show ?thesis using h by cases (simp_all add: poison_words_def)
  qed
  then show "holds_poison p w" by (simp add: holds_poison_def)
qed (auto simp: holds_poison_def poison_words_def)

lemma poison_damage_None: "poison_damage p w = None \<longleftrightarrow> holds_poison p w"
proof -
  let ?h = "w 0 = POISON_MAGIC \<and> w 2 = p \<and> w 3 = POISON_WORD"
  define n where "n = PAGE_SIZE div 8"
  have n: "n = 512" by (simp add: n_def PAGE_SIZE_def PAGE_SHIFT_def)
  have "poison_damage p w = None \<longleftrightarrow>
      fst (foldl (scan_word w) (if ?h then PAGE_SIZE else 0, 0) [(if ?h then 4 else 0)..<n]) = PAGE_SIZE"
    by (simp add: poison_damage_def n_def [symmetric] Let_def split: prod.splits)
  also have "\<dots> \<longleftrightarrow> ?h \<and> (\<forall>k \<in> {4..<n}. w k = POISON_WORD)"
    by (subst scan_first) (auto simp: PAGE_SIZE_def PAGE_SHIFT_def n less_trans)
  also have "\<dots> \<longleftrightarrow> holds_poison p w" by (simp only: holds_poison_iff n)
  finally show ?thesis .
qed

definition clear_poison :: "page \<Rightarrow> page" where
  "clear_poison pg = pg\<lparr>pg_flags := pg_flags pg AND NOT PG_POISONED\<rparr>"

lemma clear_poison_triv: "\<not> has (pg_flags pg) PG_POISONED \<Longrightarrow> clear_poison pg = pg"
proof -
  assume "\<not> has (pg_flags pg) PG_POISONED"
  then have "pg_flags pg AND NOT PG_POISONED = pg_flags pg"
    by (intro bit_word_eqI) (auto simp: PG_defs flag_simps)
  then show ?thesis by (simp add: clear_poison_def)
qed

lemma clear_poison_idem [simp]: "clear_poison (clear_poison pg) = clear_poison pg"
  by (rule clear_poison_triv) (simp add: clear_poison_def PG_defs flag_simps)

lemma poison_check_frames_ok:
  assumes "\<forall>p \<in> set ps. has (pg_flags (pages m p)) PG_POISONED \<longrightarrow> holds_poison p (frame_words m p)"
  shows "poison_check_frames m ps
    = Some (m\<lparr>pages := (\<lambda>q. if q \<in> set ps then clear_poison (pages m q) else pages m q)\<rparr>)"
  using assms
proof (induction ps arbitrary: m)
  case Nil
  then show ?case by simp
next
  case (Cons p ps)
  define m1 where "m1 = m\<lparr>pages := (pages m)(p := clear_poison (pages m p))\<rparr>"
  have "\<forall>q \<in> set ps. has (pg_flags (pages m1 q)) PG_POISONED \<longrightarrow> holds_poison q (frame_words m1 q)"
    using Cons.prems by (simp add: m1_def clear_poison_def PG_defs flag_simps)
  note IH = Cons.IH [OF this]
  have "poison_check_frames m (p # ps) = poison_check_frames m1 ps"
  proof (cases "has (pg_flags (pages m p)) PG_POISONED")
    case True
    then show ?thesis using Cons.prems by (simp add: m1_def clear_poison_def poison_damage_None)
  next
    case False
    then show ?thesis by (simp add: m1_def clear_poison_triv)
  qed
  moreover have "(\<lambda>q. if q \<in> set ps then clear_poison (pages m1 q) else pages m1 q)
      = (\<lambda>q. if q \<in> set (p # ps) then clear_poison (pages m q) else pages m q)"
    by (auto simp: m1_def fun_eq_iff)
  ultimately show ?case using IH by (simp add: m1_def)
qed

lemma poison_check_frames_None:
  assumes "p \<in> set ps" and "distinct ps" and "has (pg_flags (pages m p)) PG_POISONED"
    and "\<not> holds_poison p (frame_words m p)"
  shows "poison_check_frames m ps = None"
  using assms
proof (induction ps arbitrary: m)
  case Nil
  then show ?case by simp
next
  case (Cons q ps)
  show ?case
  proof (cases "q = p")
    case True
    then show ?thesis using Cons.prems by (simp add: poison_damage_None kassert_def)
  next
    case False
    then have "p \<in> set ps" using Cons.prems(1) by simp
    then show ?thesis
      using Cons.IH [of m] Cons.IH [of "m\<lparr>pages := (pages m)(q := clear_poison (pages m q))\<rparr>"] Cons.prems False
      by (auto simp: clear_poison_def kassert_def Let_def)
  qed
qed

lemma fold_poison_one:
  assumes "distinct ps"
  shows "fold (poison_one pc) ps m
    = m\<lparr>frame_words := (\<lambda>q. if q \<in> set ps then poison_words q pc else frame_words m q),
        pages := (\<lambda>q. if q \<in> set ps then (pages m q)\<lparr>pg_flags := pg_flags (pages m q) OR PG_POISONED\<rparr> else pages m q)\<rparr>"
  using assms
proof (induction ps arbitrary: m)
  case Nil
  then show ?case by simp
next
  case (Cons p ps)
  define m1 where "m1 = poison_one pc p m"
  have m1: "m1 = m\<lparr>frame_words := (frame_words m)(p := poison_words p pc),
      pages := (pages m)(p := (pages m p)\<lparr>pg_flags := pg_flags (pages m p) OR PG_POISONED\<rparr>)\<rparr>"
    by (simp add: m1_def poison_one_def)
  have "(\<lambda>q. if q \<in> set ps then poison_words q pc else frame_words m1 q)
      = (\<lambda>q. if q \<in> set (p # ps) then poison_words q pc else frame_words m q)"
    by (auto simp: fun_eq_iff m1)
  moreover have "(\<lambda>q. if q \<in> set ps then (pages m1 q)\<lparr>pg_flags := pg_flags (pages m1 q) OR PG_POISONED\<rparr> else pages m1 q)
      = (\<lambda>q. if q \<in> set (p # ps) then (pages m q)\<lparr>pg_flags := pg_flags (pages m q) OR PG_POISONED\<rparr> else pages m q)"
    using Cons.prems by (auto simp: fun_eq_iff m1)
  moreover have "fold (poison_one pc) (p # ps) m = fold (poison_one pc) ps m1" by (simp add: m1_def)
  ultimately show ?case using Cons.IH [of m1] Cons.prems by (simp add: m1)
qed

section \<open>Changes that no zone sees\<close>

lemma zone_ok_pages_cong:
  assumes "zone_ok z ps"
    and "\<And>p. is_buddy ps' p = is_buddy ps p \<and> pg_order (ps' p) = pg_order (ps p)"
    and "\<And>p. pg_refcount (ps' p) = pg_refcount (ps p)"
    and "\<And>p. has (pg_flags (ps' p)) (PG_RESERVED OR PG_DEFERRED) = has (pg_flags (ps p)) (PG_RESERVED OR PG_DEFERRED)"
  shows "zone_ok z ps'"
proof -
  have "lists_ok z ps" using assms(1) by (simp add: zone_ok_def)
  from lists_ok_pages_cong [OF this assms(2)] have "lists_ok z ps'" using assms(3) by simp
  moreover have "managed z ps' = managed z ps" using assms(4) by (simp add: managed_def)
  ultimately show ?thesis using assms(1) by (simp add: zone_ok_def)
qed

lemma pmm_ok_pages_cong:
  assumes "pmm_ok m" and "zones m' = zones m" and "pmm_max_pfn m' = pmm_max_pfn m"
    and "g_reserved_pages m' = g_reserved_pages m" and "g_deferred_pages m' = g_deferred_pages m"
    and "\<And>p. pg_order (pages m' p) = pg_order (pages m p) \<and> pg_refcount (pages m' p) = pg_refcount (pages m p)"
    and "\<And>p j. j \<in> {0, 1, 5} \<Longrightarrow> bit (pg_flags (pages m' p)) j = bit (pg_flags (pages m p)) j"
  shows "pmm_ok m'" and "pmm_free m' = pmm_free m"
proof -
  have fl: "has (pg_flags (pages m' p)) PG_RESERVED = has (pg_flags (pages m p)) PG_RESERVED"
    "has (pg_flags (pages m' p)) PG_BUDDY = has (pg_flags (pages m p)) PG_BUDDY"
    "has (pg_flags (pages m' p)) PG_DEFERRED = has (pg_flags (pages m p)) PG_DEFERRED" for p
    using assms(7) [of 0 p] assms(7) [of 1 p] assms(7) [of 5 p] by (simp_all add: PG_defs flag_simps)
  have rd: "has (pg_flags (pages m' p)) (PG_RESERVED OR PG_DEFERRED)
      = has (pg_flags (pages m p)) (PG_RESERVED OR PG_DEFERRED)" for p
    using fl(1,3) [of p] by (simp add: PG_defs flag_simps)
  have zo: "zones_ok m" and c: "counts_ok m" using assms(1) by (auto simp: pmm_ok_def)
  have "zone_ok (zones m z) (pages m')" if "z < PMM_ZONE_COUNT" for z
    using zone_ok_pages_cong [OF zones_okD(1) [OF zo that], of "pages m'"] fl(2) rd assms(6) by blast
  then have "zones_ok m'" using zo assms(2) by (simp add: zones_ok_def)
  moreover have "counts_ok m'" using counts_ok_cong [OF c assms(3-5)] fl(1,3) by blast
  ultimately show "pmm_ok m'" using assms(1-3) by (simp add: pmm_ok_def bounds_ok_def)
  show "pmm_free m' = pmm_free m" using assms(2) by (simp add: pmm_free_def)
qed

section \<open>Live blocks\<close>

text \<open>A block in a caller's hands: one reference on its head, none on the rest, no frame of it free.\<close>

definition live :: "pmm \<Rightarrow> pfn \<Rightarrow> nat \<Rightarrow> bool" where
  "live m p ord \<longleftrightarrow>
     block_ok (zones m (zone_for_pfn p)) p ord \<and> p < pmm_max_pfn m
     \<and> span p ord \<subseteq> pmm_managed m - pmm_free m
     \<and> pg_refcount (pages m p) = 1 \<and> pg_order (pages m p) = ord
     \<and> (\<forall>q \<in> span p ord - {p}. pg_refcount (pages m q) = 0)"

lemma zone_for_pfn_unique:
  assumes "bounds_ok m" and "z < PMM_ZONE_COUNT" and "p \<in> frames (zones m z)"
  shows "zone_for_pfn p = z"
proof -
  have "p < pmm_max_pfn m" using frames_below_max [OF assms(1,2)] assms(3) by blast
  note Z = zone_for_pfn_frames [OF assms(1) this]
  show ?thesis using frames_disjoint [OF assms(1) Z(1) assms(2)] Z(2) assms(3) by blast
qed

lemma bounds_same:
  assumes "bounds_ok m" and "bounds_ok m'" and "pmm_max_pfn m' = pmm_max_pfn m" and "z < PMM_ZONE_COUNT"
  shows "start_pfn (zones m' z) = start_pfn (zones m z)" and "end_pfn (zones m' z) = end_pfn (zones m z)"
  using assms by (auto simp: bounds_ok_def)

lemma span_block:
  assumes "span p ord \<subseteq> frames z" and "ord < PMM_MAX_ORDER" and "2 ^ ord dvd p"
  shows "block_ok z p ord"
proof -
  have "0 < (2::nat) ^ ord" by simp
  then have "p \<in> span p ord" "p + (2 ^ ord - 1) \<in> span p ord" unfolding span_def atLeastLessThan_iff by linarith+
  then have "p \<in> frames z" "p + (2 ^ ord - 1) \<in> frames z" using assms(1) by blast+
  then show ?thesis using assms(2,3) by (auto simp: block_ok_def)
qed

lemma zone_free_managed:
  assumes "bounds_ok m" and "zones_ok m" and "z < PMM_ZONE_COUNT"
  shows "free_pages (zones m z) \<subseteq> pmm_managed m"
  using zones_okD(1) [OF assms(2,3)] managed_zone [OF assms(1,3)] by (auto simp: zone_ok_def)

lemma took_live:
  assumes ok: "pmm_ok m" and t: "took m m' p ord" and k: "kept_pages m m' p"
    and z: "z < PMM_ZONE_COUNT" and sub: "span p ord \<subseteq> free_pages (zones m z)" and ord: "ord < PMM_MAX_ORDER"
  shows "live m' p ord" and "zone_for_pfn p = z"
proof -
  have b: "bounds_ok m" and zo: "zones_ok m" and b': "bounds_ok m'" and mx: "pmm_max_pfn m' = pmm_max_pfn m"
    using ok t by (auto simp: pmm_ok_def took_def same_globals_def)
  have fr: "span p ord \<subseteq> frames (zones m z)" using sub zone_free_frames [OF zo z] by blast
  then have pz: "p \<in> frames (zones m z)" using span_self by blast
  show zp: "zone_for_pfn p = z" by (rule zone_for_pfn_unique [OF b z pz])
  have "frames (zones m' z) = frames (zones m z)" using bounds_same [OF b b' mx z] by simp
  then have blk: "block_ok (zones m' z) p ord" using fr ord t by (intro span_block) (auto simp: took_def)
  have "pmm_managed m' = pmm_managed m"
    using k mx by (simp add: pmm_managed_def kept_pages_def PG_defs flag_simps)
  then have "span p ord \<subseteq> pmm_managed m' - pmm_free m'"
    using sub zone_free_managed [OF b zo z] t by (auto simp: took_def)
  moreover have "pg_refcount (pages m' q) = 0" if "q \<in> span p ord - {p}" for q
  proof -
    have "pg_refcount (pages m q) = 0"
      using that sub zones_okD(1) [OF zo z] lists_okD(7) by (auto simp: zone_ok_def)
    then show ?thesis using k that by (simp add: kept_pages_def)
  qed
  moreover have "p < pmm_max_pfn m'" using frames_below_max [OF b z] pz mx by auto
  ultimately show "live m' p ord" using blk t zp by (simp add: live_def took_def)
qed

section \<open>What allocation gives\<close>

text \<open>No operation here changes a flag but those of the free lists and of the poisoning.\<close>

definition kept_flags :: "pmm \<Rightarrow> pmm \<Rightarrow> bool" where
  "kept_flags m m' \<longleftrightarrow>
     (\<forall>q j. j \<noteq> 1 \<and> j \<noteq> 6 \<longrightarrow> bit (pg_flags (pages m' q)) j = bit (pg_flags (pages m q)) j)"

definition alloc_ok :: "pmm \<Rightarrow> pmm \<Rightarrow> pfn \<Rightarrow> nat \<Rightarrow> 32 word \<Rightarrow> bool" where
  "alloc_ok m m' p ord flags \<longleftrightarrow>
     pmm_ok m' \<and> poison_ok m' \<and> same_globals m m' \<and> live m' p ord
     \<and> span p ord \<subseteq> pmm_free m \<and> pmm_free m' = pmm_free m - span p ord
     \<and> (has flags PMM_FLAGS_ZONE_DMA \<longrightarrow> p + 2 ^ ord \<le> 4096)
     \<and> (has flags PMM_FLAGS_ZONE_DMA32 \<longrightarrow> p + 2 ^ ord \<le> 1048576)
     \<and> (\<forall>q. q \<notin> pmm_free m \<longrightarrow> pages m' q = pages m q) \<and> kept_flags m m'
     \<and> (\<forall>q. q \<notin> span p ord \<longrightarrow> frame_words m' q = frame_words m q)
     \<and> (\<forall>q \<in> span p ord. \<not> has (pg_flags (pages m' q)) PG_POISONED)
     \<and> (has flags PMM_FLAGS_ZERO \<longrightarrow> (\<forall>q \<in> span p ord. \<forall>k. frame_words m' q k = 0))"

text \<open>The descriptors after the poison check.\<close>

lemma poison_check_live:
  assumes t: "took m m1 p ord" and l: "live m1 p ord" and k: "kept_pages m m1 p"
    and w: "frame_words m1 = frame_words m" and po: "poison_ok m"
  obtains m2 where "poison_check m1 p ord = Some m2" and "pmm_ok m2" and "pmm_free m2 = pmm_free m1"
    and "same_globals m1 m2" and "live m2 p ord" and "frame_words m2 = frame_words m" and "poison_ok m2"
    and "\<forall>q \<in> span p ord. \<not> has (pg_flags (pages m2 q)) PG_POISONED"
    and "\<forall>q. q \<notin> pmm_free m \<longrightarrow> pages m2 q = pages m q" and "kept_flags m m2"
proof -
  have ok1: "pmm_ok m1" and dbg: "config_debug m1 = config_debug m"
    using t by (auto simp: took_def same_globals_def)
  have fl: "has (pg_flags (pages m1 q)) PG_POISONED = has (pg_flags (pages m q)) PG_POISONED" for q
    using k by (simp add: kept_pages_def PG_defs flag_simps)
  have po1: "has (pg_flags (pages m1 q)) PG_POISONED \<Longrightarrow> config_debug m1 \<and> holds_poison q (frame_words m1 q)" for q
    using po fl w dbg by (simp add: poison_ok_def)
  define m2 where "m2 = m1\<lparr>pages := (\<lambda>q. if q \<in> span p ord then clear_poison (pages m1 q) else pages m1 q)\<rparr>"
  have sp: "set [p..<p + 2 ^ ord] = span p ord" by (simp add: span_def)
  have triv: "pages m2 = pages m1" if "\<not> config_debug m1"
    using that po1 clear_poison_triv by (auto simp: m2_def fun_eq_iff)
  have "poison_check m1 p ord = Some m2"
  proof (cases "config_debug m1")
    case True
    then show ?thesis
      using poison_check_frames_ok [of "[p..<p + 2 ^ ord]" m1] po1 unfolding sp by (simp add: poison_check_def m2_def)
  next
    case False
    then have "m1\<lparr>pages := pages m2\<rparr> = m1" by (simp add: triv)
    then show ?thesis using False by (simp add: poison_check_def m2_def)
  qed
  moreover have pc: "pg_order (pages m2 q) = pg_order (pages m1 q) \<and> pg_refcount (pages m2 q) = pg_refcount (pages m1 q)"
    and bits: "j \<noteq> 6 \<Longrightarrow> bit (pg_flags (pages m2 q)) j = bit (pg_flags (pages m1 q)) j" for q j
    by (auto simp: m2_def clear_poison_def PG_defs flag_simps dest: bit_length)
  have z2: "zones m2 = zones m1" "pmm_max_pfn m2 = pmm_max_pfn m1" by (simp_all add: m2_def)
  have r2: "g_reserved_pages m2 = g_reserved_pages m1" "g_deferred_pages m2 = g_deferred_pages m1"
    by (simp_all add: m2_def)
  have "j \<in> {0, 1, 5} \<Longrightarrow> bit (pg_flags (pages m2 q)) j = bit (pg_flags (pages m1 q)) j" for q j
    by (rule bits) auto
  note C = pmm_ok_pages_cong [OF ok1 z2 r2 pc this]
  have man: "pmm_managed m2 = pmm_managed m1"
    using bits [of 0] bits [of 5] by (simp add: pmm_managed_def z2 PG_defs flag_simps)
  have "live m2 p ord" using l pc C(2) unfolding live_def man z2 by simp
  moreover have "\<forall>q \<in> span p ord. \<not> has (pg_flags (pages m2 q)) PG_POISONED"
    by (simp add: m2_def clear_poison_def PG_defs flag_simps)
  moreover have "poison_ok m2"
    using po1 by (auto simp: poison_ok_def m2_def clear_poison_def PG_defs flag_simps)
  moreover have "same_globals m1 m2" "frame_words m2 = frame_words m" by (simp_all add: m2_def same_globals_def w)
  moreover have "\<forall>q. q \<notin> pmm_free m \<longrightarrow> pages m2 q = pages m q"
    using k t by (auto simp: m2_def kept_pages_def took_def)
  moreover have "kept_flags m m2" using bits k by (simp add: kept_flags_def kept_pages_def)
  ultimately show thesis using that C by blast
qed

lemma zero_frames_ok:
  assumes "pmm_ok m" and "poison_ok m" and "live m p ord"
    and "\<forall>q \<in> span p ord. \<not> has (pg_flags (pages m q)) PG_POISONED"
  shows "pmm_ok (zero_frames m p ord)" and "poison_ok (zero_frames m p ord)"
    and "live (zero_frames m p ord) p ord" and "pmm_free (zero_frames m p ord) = pmm_free m"
    and "same_globals m (zero_frames m p ord)"
    and "\<forall>q. q \<notin> span p ord \<longrightarrow> frame_words (zero_frames m p ord) q = frame_words m q"
    and "\<forall>q \<in> span p ord. \<forall>k. frame_words (zero_frames m p ord) q k = 0"
proof -
  show "pmm_ok (zero_frames m p ord)"
    using assms(1) by (rule pmm_ok_pages_cong(1)) (simp_all add: zero_frames_def)
  show "poison_ok (zero_frames m p ord)"
    using assms(2,4) by (auto simp: poison_ok_def zero_frames_def span_def)
  show "live (zero_frames m p ord) p ord"
    using assms(3) by (simp add: live_def zero_frames_def pmm_managed_def pmm_free_def)
  show "pmm_free (zero_frames m p ord) = pmm_free m" by (simp add: pmm_free_def zero_frames_def)
  show "same_globals m (zero_frames m p ord)" by (simp add: same_globals_def zero_frames_def)
  show "\<forall>q. q \<notin> span p ord \<longrightarrow> frame_words (zero_frames m p ord) q = frame_words m q"
    and "\<forall>q \<in> span p ord. \<forall>k. frame_words (zero_frames m p ord) q k = 0"
    by (auto simp: zero_frames_def span_def)
qed

text \<open>The direct map covers all of memory, as it does once the virtual memory manager is up.\<close>

definition mapped_all :: "pmm \<Rightarrow> bool" where
  "mapped_all m \<longleftrightarrow> pmm_max_pfn m * 4096 \<le> pmm_hhdm_limit m"

lemma block_in_direct_map:
  assumes "mapped_all m" and "bounds_ok m" and "p + 2 ^ ord \<le> pmm_max_pfn m"
  shows "phys_in_direct_map m (page_to_phys p + PAGE_SIZE * 2 ^ ord - 1)"
proof -
  have pos: "0 < (2::nat) ^ ord" by simp
  then have "p < 2 ^ 52" using assms(2,3) unfolding bounds_ok_def by linarith
  then have "page_to_phys p = p * 4096" by (simp add: page_to_phys_def)
  moreover have "(p + 2 ^ ord) * 4096 \<le> pmm_hhdm_limit m"
    using assms(1,3) unfolding mapped_all_def by (meson le_trans mult_le_mono1)
  then have "p * 4096 + 4096 * 2 ^ ord \<le> pmm_hhdm_limit m" by (simp add: algebra_simps)
  then have "p * 4096 + 4096 * 2 ^ ord - 1 < pmm_hhdm_limit m" using pos by linarith
  ultimately show ?thesis by (simp add: phys_in_direct_map_def PAGE_SIZE_def PAGE_SHIFT_def)
qed

lemma top_zone_limits:
  assumes "bounds_ok m" and "z \<le> top_zone flags" and "span p ord \<subseteq> frames (zones m z)"
  shows "has flags PMM_FLAGS_ZONE_DMA \<longrightarrow> p + 2 ^ ord \<le> 4096"
    and "has flags PMM_FLAGS_ZONE_DMA32 \<longrightarrow> p + 2 ^ ord \<le> 1048576"
    and "z < PMM_ZONE_COUNT" and "p + 2 ^ ord \<le> pmm_max_pfn m"
proof -
  show z: "z < PMM_ZONE_COUNT"
    using assms(2) by (auto simp: top_zone_def zone_defs split: if_splits)
  have "0 < (2::nat) ^ ord" by simp
  then have "p + (2 ^ ord - 1) \<in> span p ord" unfolding span_def atLeastLessThan_iff by linarith
  then have l: "p + (2 ^ ord - 1) < end_pfn (zones m z)" using assms(3) by auto
  then have le: "p + 2 ^ ord \<le> end_pfn (zones m z)" by simp
  have e: "end_pfn (zones m z) \<le> pmm_max_pfn m" "z = 0 \<longrightarrow> end_pfn (zones m z) \<le> 4096"
      "z \<le> 1 \<longrightarrow> end_pfn (zones m z) \<le> 1048576"
    using zone_cases [OF z] bounds_okD [OF assms(1)] by auto
  show "p + 2 ^ ord \<le> pmm_max_pfn m" using le e(1) by linarith
  show "has flags PMM_FLAGS_ZONE_DMA \<longrightarrow> p + 2 ^ ord \<le> 4096"
    using assms(2) le e(2) by (auto simp: top_zone_def zone_defs)
  show "has flags PMM_FLAGS_ZONE_DMA32 \<longrightarrow> p + 2 ^ ord \<le> 1048576"
    using assms(2) le e(3) by (auto simp: top_zone_def zone_defs split: if_splits)
qed

lemma alloc_pages_total:
  assumes ok: "pmm_ok m" and po: "poison_ok m" and init: "g_initialized m" and ord: "ord < PMM_MAX_ORDER"
    and zero: "has flags PMM_FLAGS_ZERO \<longrightarrow> mapped_all m"
  shows "(pmm_alloc_pages m ord flags = Some (m, None) \<and> (\<forall>z \<le> top_zone flags. \<not> big_block (zones m z) ord))
       \<or> (\<exists>m' p. pmm_alloc_pages m ord flags = Some (m', Some p) \<and> alloc_ok m m' p ord flags
            \<and> (\<exists>z \<le> top_zone flags. span p ord \<subseteq> free_pages (zones m z)))"
proof -
  have b: "bounds_ok m" and zo: "zones_ok m" using ok by (auto simp: pmm_ok_def)
  have tz: "top_zone flags < PMM_ZONE_COUNT" by (simp add: top_zone_def zone_defs)
  from alloc_zones_total [OF ok tz ord] show ?thesis
  proof (elim disjE exE conjE)
    assume "alloc_zones m ord (top_zone flags) = Some (m, None)"
      and "\<forall>y \<le> top_zone flags. \<not> big_block (zones m y) ord"
    then show ?thesis using init ord by (simp add: pmm_alloc_pages_def)
  next
    fix m1 p z
    assume A: "alloc_zones m ord (top_zone flags) = Some (m1, Some p)" "took m m1 p ord" "kept_pages m m1 p"
      "frame_words m1 = frame_words m" "z \<le> top_zone flags" "span p ord \<subseteq> free_pages (zones m z)"
    have fr: "span p ord \<subseteq> frames (zones m z)" using A(5,6) zone_free_frames [OF zo, of z] tz by auto
    note L = top_zone_limits [OF b A(5) fr]
    obtain m2 where C: "poison_check m1 p ord = Some m2" "pmm_ok m2" "pmm_free m2 = pmm_free m1"
        "same_globals m1 m2" "live m2 p ord" "frame_words m2 = frame_words m" "poison_ok m2"
        "\<forall>q \<in> span p ord. \<not> has (pg_flags (pages m2 q)) PG_POISONED"
        "\<forall>q. q \<notin> pmm_free m \<longrightarrow> pages m2 q = pages m q" "kept_flags m m2"
      using poison_check_live [OF A(2) took_live(1) [OF ok A(2,3) L(3) A(6) ord] A(3,4) po] by metis
    have sg: "same_globals m m2" using A(2) C(4) by (simp add: took_def same_globals_def)
    have T: "span p ord \<subseteq> pmm_free m" "pmm_free m2 = pmm_free m - span p ord"
      using A(2) C(3) by (auto simp: took_def)
    have dm: "phys_in_direct_map m2 (page_to_phys p + PAGE_SIZE * 2 ^ ord - 1)" if "has flags PMM_FLAGS_ZERO"
      using that zero block_in_direct_map [of m p ord] b L(4) sg by (simp add: phys_in_direct_map_def same_globals_def)
    note Z = zero_frames_ok [OF C(2,7,5,8)]
    define m3 where "m3 = (if has flags PMM_FLAGS_ZERO then zero_frames m2 p ord else m2)"
    have "pmm_alloc_pages m ord flags = Some (m3, Some p)"
      using init ord A(1) C(1) dm by (simp add: pmm_alloc_pages_def m3_def)
    moreover have "alloc_ok m m3 p ord flags"
    proof (cases "has flags PMM_FLAGS_ZERO")
      case True
      have "same_globals m (zero_frames m2 p ord)" using sg Z(5) by (simp add: same_globals_def)
      moreover have "pages (zero_frames m2 p ord) = pages m2" by (simp add: zero_frames_def)
      moreover have "kept_flags m (zero_frames m2 p ord)" using C(10) by (simp add: kept_flags_def zero_frames_def)
      ultimately show ?thesis using True Z T L(1,2) C(6,8,9) by (simp add: alloc_ok_def m3_def)
    next
      case False
      then show ?thesis using C sg T L(1,2) by (simp add: alloc_ok_def m3_def)
    qed
    ultimately show ?thesis using A(5,6) by blast
  qed
qed

section \<open>Freeing\<close>

lemma free_zone_back:
  assumes ok: "pmm_ok m" and z: "z < PMM_ZONE_COUNT" and post: "free_post (lock_zone m z) (pages m) S zn ps"
    and S: "S \<subseteq> frames (zones m z)"
  shows "pmm_ok (unlock_zone m z zn ps)" and "pmm_free (unlock_zone m z zn ps) = pmm_free m \<union> S"
    and "pmm_managed (unlock_zone m z zn ps) = pmm_managed m"
    and "\<forall>q. q \<notin> pmm_free m \<union> S \<longrightarrow> ps q = pages m q"
proof -
  let ?m = "unlock_zone m z zn ps"
  have b: "bounds_ok m" and zo: "zones_ok m" and c: "counts_ok m" using ok by (auto simp: pmm_ok_def)
  have un: "ps q = pages m q" if "q \<notin> free_pages (zones m z) \<union> S" for q
    using post that by (simp add: free_post_def)
  have fr: "ps q = pages m q" if "q \<notin> frames (zones m z)" for q
    using that un S zone_free_frames [OF zo z] by blast
  have "free_pages (zones m z) \<subseteq> pmm_free m" using z by (auto simp: pmm_free_def)
  then show "\<forall>q. q \<notin> pmm_free m \<union> S \<longrightarrow> ps q = pages m q" using un by blast
  have A: "zone_ok zn ps" "free_pages zn = free_pages (zones m z) \<union> S" "same_pages (pages m) ps"
      "start_pfn zn = start_pfn (zones m z)" "end_pfn zn = end_pfn (zones m z)"
    using post by (auto simp: free_post_def same_zone_def)
  note U = unlock_zones [OF b zo z A(1,4,5) fr]
  have bits: "bit (pg_flags (ps q)) j = bit (pg_flags (pages m q)) j" if "j \<noteq> 1" for q j
    using A(3) that by (simp add: same_pages_def)
  have "counts_ok ?m"
    using bits [of 0] bits [of 5] by (intro counts_ok_cong [OF c]) (simp_all add: PG_defs flag_simps)
  then show "pmm_ok ?m" using U(1,2) by (simp add: pmm_ok_def)
  have "free_pages zn \<subseteq> frames zn" using free_pages_in_zone [of zn ps] A(1) by (simp add: zone_ok_def)
  then show "pmm_free ?m = pmm_free m \<union> S"
    using U(3) A(2,4,5) pmm_free_zone [OF b zo z] by auto
  show "pmm_managed ?m = pmm_managed m"
    using bits [of 0] bits [of 5] by (simp add: pmm_managed_def PG_defs flag_simps)
qed

lemma drop_ref_ok:
  assumes ok: "pmm_ok m" and p: "p \<notin> pmm_free m" "p < pmm_max_pfn m"
  shows "pmm_ok (m\<lparr>pages := (pages m)(p := (pages m p)\<lparr>pg_refcount := r\<rparr>)\<rparr>)"
proof -
  let ?pg = "(pages m p)\<lparr>pg_refcount := r\<rparr>"
  have b: "bounds_ok m" and zo: "zones_ok m" and c: "counts_ok m" using ok by (auto simp: pmm_ok_def)
  note Z = zone_for_pfn_frames [OF b p(2)]
  have nf: "p \<notin> free_pages (zones m z)" if "z < PMM_ZONE_COUNT" for z using p that by (auto simp: pmm_free_def)
  have "lists_ok (zones m (zone_for_pfn p)) (pages m)" using zones_okD(1) [OF zo Z(1)] by (simp add: zone_ok_def)
  then have nb: "\<not> has (pg_flags ?pg) PG_BUDDY" using not_buddy nf [OF Z(1)] Z(2) by auto
  have "zone_ok (zones m z) ((pages m)(p := ?pg))" if "z < PMM_ZONE_COUNT" for z
  proof -
    have zz: "zone_ok (zones m z) (pages m)" by (rule zones_okD(1) [OF zo that])
    have "managed (zones m z) ((pages m)(p := ?pg)) = managed (zones m z) (pages m)" by (auto simp: managed_def)
    then show ?thesis using zz lists_ok_page_upd [OF _ nf [OF that] nb] by (simp add: zone_ok_def)
  qed
  moreover have "counts_ok (m\<lparr>pages := (pages m)(p := ?pg)\<rparr>)"
    by (rule counts_ok_cong [OF c]) simp_all
  ultimately show ?thesis using b zo by (simp add: pmm_ok_def zones_ok_def bounds_ok_def)
qed

lemma poison_fill_ok:
  assumes ok: "pmm_ok m" and po: "poison_ok m"
  shows "pmm_ok (poison_fill m p ord pc)" and "poison_ok (poison_fill m p ord pc)"
    and "pmm_free (poison_fill m p ord pc) = pmm_free m" and "zones (poison_fill m p ord pc) = zones m"
    and "same_globals m (poison_fill m p ord pc)" and "pmm_managed (poison_fill m p ord pc) = pmm_managed m"
    and "\<forall>q. pg_refcount (pages (poison_fill m p ord pc) q) = pg_refcount (pages m q)"
    and "\<forall>q. q \<notin> span p ord \<longrightarrow> frame_words (poison_fill m p ord pc) q = frame_words m q"
    and "\<forall>q. q \<notin> span p ord \<longrightarrow> pages (poison_fill m p ord pc) q = pages m q"
    and "kept_flags m (poison_fill m p ord pc)"
proof -
  let ?m = "poison_fill m p ord pc"
  have sp: "set [p..<p + 2 ^ ord] = span p ord" by (simp add: span_def)
  have cases: "?m = m \<or> (config_debug m \<and> ?m = m\<lparr>frame_words := (\<lambda>q. if q \<in> span p ord then poison_words q pc else frame_words m q),
      pages := (\<lambda>q. if q \<in> span p ord then (pages m q)\<lparr>pg_flags := pg_flags (pages m q) OR PG_POISONED\<rparr> else pages m q)\<rparr>)"
    unfolding poison_fill_def using fold_poison_one [of "[p..<p + 2 ^ ord]" pc m] unfolding sp by auto
  then have pc: "pg_order (pages ?m q) = pg_order (pages m q) \<and> pg_refcount (pages ?m q) = pg_refcount (pages m q)"
    and bits: "j \<noteq> 6 \<Longrightarrow> bit (pg_flags (pages ?m q)) j = bit (pg_flags (pages m q)) j" for q j
    by (cases "q \<in> span p ord"; auto simp: PG_defs flag_simps)+
  show z: "zones ?m = zones m" and sg: "same_globals m ?m"
    and "\<forall>q. q \<notin> span p ord \<longrightarrow> frame_words ?m q = frame_words m q"
    and "\<forall>q. q \<notin> span p ord \<longrightarrow> pages ?m q = pages m q"
    using cases by (auto simp: same_globals_def)
  have g: "pmm_max_pfn ?m = pmm_max_pfn m" "g_reserved_pages ?m = g_reserved_pages m"
      "g_deferred_pages ?m = g_deferred_pages m"
    using cases by auto
  have b3: "bit (pg_flags (pages ?m q)) j = bit (pg_flags (pages m q)) j" if "j \<in> {0, 1, 5}" for q j
    using that by (intro bits) auto
  show "pmm_ok ?m" and "pmm_free ?m = pmm_free m" by (rule pmm_ok_pages_cong [OF ok z g pc b3], assumption)+
  show "pmm_managed ?m = pmm_managed m"
    using bits [of 0] bits [of 5] by (simp add: pmm_managed_def g PG_defs flag_simps)
  show "kept_flags m ?m" using bits by (simp add: kept_flags_def)
  show "\<forall>q. pg_refcount (pages ?m q) = pg_refcount (pages m q)" using pc by blast
  show "poison_ok ?m"
    using cases po by (auto simp: poison_ok_def holds_poison_def poison_words_def)
qed

abbreviation unowned :: "pmm \<Rightarrow> pfn \<Rightarrow> bool" where
  "unowned m p \<equiv> \<not> has (pg_flags (pages m p)) (PG_SLAB OR PG_KMALLOC_LARGE OR PG_PAGETABLE)"

lemma free_pages_total:
  assumes ok: "pmm_ok m" and po: "poison_ok m" and init: "g_initialized m" and l: "live m p ord" and un: "unowned m p"
  obtains m' where "pmm_free_pages m p ord pc = Some m'" and "pmm_ok m'" and "poison_ok m'"
    and "same_globals m m'" and "pmm_free m' = pmm_free m \<union> span p ord" and "pmm_managed m' = pmm_managed m"
    and "\<forall>q. q \<notin> span p ord \<longrightarrow> frame_words m' q = frame_words m q"
    and "\<forall>q. q \<notin> pmm_free m \<union> span p ord \<longrightarrow> pages m' q = pages m q" and "kept_flags m m'"
proof -
  have b: "bounds_ok m" and zo: "zones_ok m" using ok by (auto simp: pmm_ok_def)
  have blk: "block_ok (zones m (zone_for_pfn p)) p ord" and mx: "p < pmm_max_pfn m"
    and sub: "span p ord \<subseteq> pmm_managed m - pmm_free m" and rc: "pg_refcount (pages m p) = 1"
    and po': "pg_order (pages m p) = ord" and tails: "\<forall>q \<in> span p ord - {p}. pg_refcount (pages m q) = 0"
    using l by (auto simp: live_def)
  note Z = zone_for_pfn_frames [OF b mx]
  have pm: "p \<in> pmm_managed m" "p \<notin> pmm_free m" using sub span_self by blast+
  then have nf: "p \<notin> free_pages (zones m (zone_for_pfn p))" using Z(1) by (auto simp: pmm_free_def)
  have "lists_ok (zones m (zone_for_pfn p)) (pages m)" using zones_okD(1) [OF zo Z(1)] by (simp add: zone_ok_def)
  then have nb: "\<not> has (pg_flags (pages m p)) PG_BUDDY" using not_buddy nf Z(2) by blast
  have nr: "\<not> has (pg_flags (pages m p)) PG_RESERVED" using pm(1) by (simp add: pmm_managed_def PG_defs flag_simps)
  have ord: "ord < PMM_MAX_ORDER" using blk by (simp add: block_ok_def)
  define m1 where "m1 = m\<lparr>pages := (pages m)(p := (pages m p)\<lparr>pg_refcount := 0\<rparr>)\<rparr>"
  define m2 where "m2 = poison_fill m1 p ord pc"
  have ok1: "pmm_ok m1" unfolding m1_def by (rule drop_ref_ok [OF ok pm(2) mx])
  have po1: "poison_ok m1" using po by (simp add: poison_ok_def m1_def)
  have m1: "zones m1 = zones m" "pmm_free m1 = pmm_free m" "pmm_managed m1 = pmm_managed m" "same_globals m m1"
      "frame_words m1 = frame_words m"
    by (auto simp: m1_def pmm_free_def pmm_managed_def same_globals_def)
  note F = poison_fill_ok [OF ok1 po1, of p ord pc, folded m2_def]
  let ?z = "zone_for_pfn p"
  have b2: "bounds_ok m2" and zo2: "zones_ok m2" using F(1) by (auto simp: pmm_ok_def)
  have spz: "span p ord \<subseteq> frames (zones m2 ?z)" using block_ok_in_zone [OF blk] F(4) m1(1) by simp
  have man2: "span p ord \<subseteq> managed (zones m2 ?z) (pages m2)"
    using sub spz managed_zone [OF b2 Z(1)] F(6) m1(3) by auto
  have dis2: "span p ord \<inter> free_pages (zones m2 ?z) = {}"
    using sub F(4) m1(1) Z(1) by (auto simp: pmm_free_def)
  have rc2: "\<forall>q \<in> span p ord. pg_refcount (pages m2 q) = 0" using F(7) tails by (simp add: m1_def)
  obtain zn ps where B: "buddy_free_block (lock_zone m2 ?z) (pages m2) p ord = Some (zn, ps)"
    and post: "free_post (lock_zone m2 ?z) (pages m2) (span p ord) zn ps"
    using free_block_correct [of "lock_zone m2 ?z" "pages m2" p ord] zones_okD(1) [OF zo2 Z(1)] blk man2 dis2 rc2
      F(4) m1(1) by auto
  note R = free_zone_back [OF F(1) Z(1) post spz]
  have step: "pmm_free_pages m p ord pc = Some (unlock_zone m2 ?z zn ps)"
    using init ord nr nb un rc po' B by (simp add: pmm_free_pages_def m1_def [symmetric] m2_def [symmetric])
  have bit6: "has (pg_flags (ps q)) PG_POISONED = has (pg_flags (pages m2 q)) PG_POISONED" for q
    using post by (simp add: free_post_def same_pages_def PG_defs flag_simps)
  then have "poison_ok (unlock_zone m2 ?z zn ps)" using F(2) by (simp add: poison_ok_def)
  moreover have "same_globals m (unlock_zone m2 ?z zn ps)" using F(5) m1(4) by (simp add: same_globals_def)
  moreover have "\<forall>q. q \<notin> span p ord \<longrightarrow> frame_words (unlock_zone m2 ?z zn ps) q = frame_words m q"
    using F(8) m1(5) by simp
  moreover have "pages (unlock_zone m2 ?z zn ps) q = pages m q" if "q \<notin> pmm_free m \<union> span p ord" for q
    using that R(4) F(3,9) m1(2) span_self [of p ord] by (auto simp: m1_def)
  moreover have "kept_flags m (unlock_zone m2 ?z zn ps)"
    using F(10) post by (simp add: kept_flags_def m1_def free_post_def same_pages_def)
  ultimately show thesis using that [OF step R(1)] R(2,3) F(3,6) m1(2,3) by simp
qed

section \<open>Releasing ranges\<close>

abbreviation is_reserved :: "pmm \<Rightarrow> pfn \<Rightarrow> bool" where
  "is_reserved m p \<equiv> has (pg_flags (pages m p)) PG_RESERVED"

abbreviation is_deferred :: "pmm \<Rightarrow> pfn \<Rightarrow> bool" where
  "is_deferred m p \<equiv> has (pg_flags (pages m p)) PG_DEFERRED"

definition withheld :: "pmm \<Rightarrow> pfn set" where
  "withheld m = {p. p < pmm_max_pfn m \<and> (is_reserved m p \<or> is_deferred m p) \<and> pg_refcount (pages m p) = 0}"

lemma has_res_or_def: "has w (PG_RESERVED OR PG_DEFERRED) \<longleftrightarrow> has w PG_RESERVED \<or> has w PG_DEFERRED"
  by (simp add: PG_defs flag_simps)

lemma drop_counts_ok:
  assumes "\<forall>p \<in> set ps. (is_reserved m p \<or> is_deferred m p) \<and> pg_refcount (pages m p) = 0"
    and "length (filter (is_reserved m) ps) \<le> g_reserved_pages m" and "g_reserved_pages m < W64"
    and "length (filter (is_deferred m) ps) \<le> g_deferred_pages m" and "g_deferred_pages m < W64"
  shows "drop_counts m ps = Some (m\<lparr>g_reserved_pages := g_reserved_pages m - length (filter (is_reserved m) ps),
            g_deferred_pages := g_deferred_pages m - length (filter (is_deferred m) ps)\<rparr>)"
  using assms
proof (induction ps arbitrary: m)
  case Nil
  then show ?case by simp
next
  case (Cons p ps)
  define m1 where "m1 = m\<lparr>g_reserved_pages := g_reserved_pages m - (if is_reserved m p then 1 else 0),
      g_deferred_pages := g_deferred_pages m - (if is_deferred m p then 1 else 0)\<rparr>"
  have "drop_counts m (p # ps) = drop_counts m1 ps"
    using Cons.prems by (simp add: m1_def has_res_or_def sub64_id Let_def split: if_splits)
  also have "\<dots> = Some (m1\<lparr>g_reserved_pages := g_reserved_pages m1 - length (filter (is_reserved m1) ps),
            g_deferred_pages := g_deferred_pages m1 - length (filter (is_deferred m1) ps)\<rparr>)"
    using Cons.prems by (intro Cons.IH) (auto simp: m1_def split: if_splits)
  finally show ?case by (simp add: m1_def)
qed

lemma card_flagged_split:
  assumes "s \<le> e" and "e \<le> pmm_max_pfn m"
  shows "card (flagged m f) = card (flagged m f - {s..<e}) + length (filter (\<lambda>p. has (pg_flags (pages m p)) f) [s..<e])"
proof -
  let ?A = "{p \<in> {s..<e}. has (pg_flags (pages m p)) f}"
  have fin: "finite (flagged m f)" by (simp add: flagged_def)
  have "length (filter (\<lambda>p. has (pg_flags (pages m p)) f) [s..<e]) = card ?A"
    by (subst distinct_card [symmetric]) auto
  moreover have "flagged m f = (flagged m f - {s..<e}) \<union> ?A" using assms by (auto simp: flagged_def)
  moreover have "card ((flagged m f - {s..<e}) \<union> ?A) = card (flagged m f - {s..<e}) + card ?A"
    using fin by (intro card_Un_disjoint) auto
  ultimately show ?thesis by simp
qed

text \<open>What releasing a set of withheld frames does; the flags it may change are three.\<close>

definition kept_other :: "pmm \<Rightarrow> pmm \<Rightarrow> bool" where
  "kept_other m m' \<longleftrightarrow>
     (\<forall>q j. j \<notin> {0, 1, 5} \<longrightarrow> bit (pg_flags (pages m' q)) j = bit (pg_flags (pages m q)) j)"

lemma kept_other_refl [simp]: "kept_other m m"
  by (simp add: kept_other_def)

lemma kept_other_trans: "kept_other m m1 \<Longrightarrow> kept_other m1 m2 \<Longrightarrow> kept_other m m2"
  by (simp add: kept_other_def)

lemma kept_otherD: "kept_other m m' \<Longrightarrow> j \<notin> {0, 1, 5} \<Longrightarrow> bit (pg_flags (pages m' q)) j = bit (pg_flags (pages m q)) j"
  by (simp add: kept_other_def)

definition released :: "pmm \<Rightarrow> pmm \<Rightarrow> pfn set \<Rightarrow> bool" where
  "released m m' S \<longleftrightarrow>
     pmm_ok m' \<and> same_globals m m' \<and> frame_words m' = frame_words m
     \<and> pmm_free m' = pmm_free m \<union> S \<and> withheld m' = withheld m - S
     \<and> flagged m' PG_DEFERRED = flagged m PG_DEFERRED - S
     \<and> flagged m' PG_RESERVED = flagged m PG_RESERVED - S
     \<and> kept_other m m'"

lemma released_trans:
  "released m m1 S \<Longrightarrow> released m1 m2 T \<Longrightarrow> released m m2 (S \<union> T)"
  by (auto simp: released_def same_globals_def intro: kept_other_trans)

lemma end_le_max: "bounds_ok m \<Longrightarrow> z < PMM_ZONE_COUNT \<Longrightarrow> end_pfn (zones m z) \<le> pmm_max_pfn m"
  using zone_cases [of z] bounds_okD [of m] by auto

lemma flagged_card_bound: "bounds_ok m \<Longrightarrow> card (flagged m f) < W64"
proof -
  assume "bounds_ok m"
  then have "pmm_max_pfn m < 2 ^ 52" by (simp add: bounds_ok_def)
  moreover have "card (flagged m f) \<le> card {..<pmm_max_pfn m}" by (rule card_mono) (auto simp: flagged_def)
  ultimately show ?thesis by simp
qed

lemma release_chunk:
  assumes ok: "pmm_ok m" and z: "z < PMM_ZONE_COUNT"
    and se: "start_pfn (zones m z) \<le> s" "s \<le> c" "c \<le> end_pfn (zones m z)" and wh: "{s..<c} \<subseteq> withheld m"
  obtains m1 zn ps where "drop_counts m [s..<c] = Some m1"
    and "buddy_free_range (lock_zone m1 z) (pages m1) s c = Some (zn, ps)"
    and "released m (unlock_zone m1 z zn ps) {s..<c}"
proof -
  have b: "bounds_ok m" and zo: "zones_ok m" and co: "counts_ok m" using ok by (auto simp: pmm_ok_def)
  have mx: "c \<le> pmm_max_pfn m" using se(3) end_le_max [OF b z] by linarith
  note cr = card_flagged_split [OF se(2) mx, of PG_RESERVED] and cd = card_flagged_split [OF se(2) mx, of PG_DEFERRED]
  define m1 where "m1 = m\<lparr>g_reserved_pages := card (flagged m PG_RESERVED - {s..<c}),
      g_deferred_pages := card (flagged m PG_DEFERRED - {s..<c})\<rparr>"
  have D: "drop_counts m [s..<c] = Some m1"
    using wh cr cd co flagged_card_bound [OF b, of PG_RESERVED] flagged_card_bound [OF b, of PG_DEFERRED]
    by (subst drop_counts_ok) (auto simp: withheld_def counts_ok_def m1_def)
  have m1: "zones m1 = zones m" "pages m1 = pages m" "same_globals m m1" "frame_words m1 = frame_words m"
      "bounds_ok m1" "zones_ok m1" "pmm_free m1 = pmm_free m"
    using b zo by (simp_all add: m1_def same_globals_def bounds_ok_def zones_ok_def pmm_free_def)
  have "{s..<c} \<inter> managed (lock_zone m1 z) (pages m1) = {}"
    using wh by (auto simp: managed_def withheld_def has_res_or_def m1)
  then obtain zn ps where F0: "buddy_free_range (lock_zone m1 z) (pages m1) s c = Some (zn, ps)" "zone_ok zn ps"
      "free_pages zn = free_pages (lock_zone m1 z) \<union> {s..<c}"
    and sz: "same_zone (lock_zone m1 z) (zn\<lparr>nr_pages_free := nr_pages_free (lock_zone m1 z),
      nr_pages_total := nr_pages_total (lock_zone m1 z)\<rparr>)"
    and same0: "same_pages (\<lambda>q. if q \<in> {s..<c} then clear_reserved (pages m1 q) else pages m1 q) ps"
    and un: "\<forall>q. q \<notin> free_pages (lock_zone m1 z) \<union> {s..<c} \<longrightarrow> ps q = pages m1 q"
    by (rule free_range_correct [of "lock_zone m1 z" "pages m1" s c, rotated 5])
      (use zones_okD(1) [OF zo z] se in \<open>simp_all add: m1\<close>)
  have F: "buddy_free_range (lock_zone m1 z) (pages m1) s c = Some (zn, ps)" "zone_ok zn ps"
      "free_pages zn = free_pages (zones m z) \<union> {s..<c}" "start_pfn zn = start_pfn (zones m z)"
      "end_pfn zn = end_pfn (zones m z)"
    and same: "same_pages (\<lambda>q. if q \<in> {s..<c} then clear_reserved (pages m q) else pages m q) ps"
    using F0 sz same0 unfolding m1(2) by (simp_all add: same_zone_def m1(1))
  have fr: "ps q = pages m1 q" if "q \<notin> frames (zones m1 z)" for q
  proof -
    have "q \<notin> {s..<c}" using that se by (auto simp: m1)
    moreover have "q \<notin> free_pages (zones m z)" using that zone_free_frames [OF zo z] by (auto simp: m1)
    ultimately show ?thesis using un by (simp add: m1)
  qed
  let ?m = "unlock_zone m1 z zn ps"
  note U = unlock_zones [OF m1(5,6) z F(2) F(4,5) [folded m1(1)] fr]
  have S: "pg_refcount (ps q) = (if q \<in> {s..<c} then 0 else pg_refcount (pages m q))"
      "has (pg_flags (ps q)) PG_RESERVED = (q \<notin> {s..<c} \<and> is_reserved m q)"
      "has (pg_flags (ps q)) PG_DEFERRED = (q \<notin> {s..<c} \<and> is_deferred m q)" for q
    using same [unfolded same_pages_def, rule_format, of q]
    by (auto simp: clear_reserved_def PG_defs flag_simps dest: bit_length)
  have fl: "flagged ?m PG_RESERVED = flagged m PG_RESERVED - {s..<c}"
      "flagged ?m PG_DEFERRED = flagged m PG_DEFERRED - {s..<c}" "withheld ?m = withheld m - {s..<c}"
    by (auto simp: flagged_def withheld_def S m1_def)
  have "counts_ok ?m" by (simp add: counts_ok_def fl) (simp add: m1_def)
  moreover have "pmm_free ?m = pmm_free m \<union> {s..<c}"
    using U(3) F(3) pmm_free_zone [OF b zo z] se by (auto simp: m1)
  moreover have "bit (pg_flags (ps q)) j = bit (pg_flags (pages m q)) j" if "j \<notin> {0, 1, 5}" for q j
    using same [unfolded same_pages_def, rule_format, of q] that
    by (cases "q \<in> {s..<c}") (auto simp: clear_reserved_def PG_defs flag_simps dest: bit_length)
  then have "kept_other m ?m" by (simp add: kept_other_def)
  ultimately have "released m ?m {s..<c}"
    using U(1,2) fl m1(3,4) by (simp add: released_def pmm_ok_def same_globals_def)
  then show thesis using that D F(1) by blast
qed

text \<open>
  \<open>release_range\<close> on withheld frames below the last one returns: each turn of the loop starts
  inside its zone, so it advances.
\<close>

lemma release_range_ok:
  assumes "pmm_ok m" and "s \<le> e" and "e \<le> pmm_max_pfn m" and "{s..<e} \<subseteq> withheld m"
  shows "\<exists>m'. release_range m s e = Some m' \<and> released m m' {s..<e}"
  using assms
proof (induction "e - s" arbitrary: m s rule: less_induct)
  case less
  show ?case
  proof (cases "s < e")
    case False
    then show ?thesis
      using less.prems by (simp add: release_range.simps released_def same_globals_def)
  next
    case True
    have b: "bounds_ok m" using less.prems(1) by (simp add: pmm_ok_def)
    define z where "z = zone_for_pfn s"
    define c where "c = (if e < end_pfn (zones m z) then e else end_pfn (zones m z))"
    have Z: "z < PMM_ZONE_COUNT" "s \<in> frames (zones m z)"
      using zone_for_pfn_frames [OF b, of s] True less.prems(3) by (auto simp: z_def)
    then have c: "s < c" "c \<le> e" "c \<le> end_pfn (zones m z)" using True by (auto simp: c_def)
    have sub: "{s..<c} \<subseteq> withheld m" using less.prems(4) c(2) by auto
    have zs: "start_pfn (zones m z) \<le> s" using Z(2) by simp
    obtain m1 zn ps where R: "drop_counts m [s..<c] = Some m1"
        "buddy_free_range (lock_zone m1 z) (pages m1) s c = Some (zn, ps)"
        "released m (unlock_zone m1 z zn ps) {s..<c}"
      by (rule release_chunk [OF less.prems(1) Z(1) zs less_imp_le [OF c(1)] c(3) sub])
    let ?m = "unlock_zone m1 z zn ps"
    have step: "release_range m s e = release_range ?m c e"
      using True R(1,2) by (subst release_range.simps) (simp add: z_def [symmetric] c_def [symmetric] Let_def)
    have ok: "pmm_ok ?m" "pmm_max_pfn ?m = pmm_max_pfn m" "withheld ?m = withheld m - {s..<c}"
      using R(3) by (auto simp: released_def same_globals_def)
    moreover have "{c..<e} \<subseteq> withheld ?m" using ok(3) less.prems(4) c by auto
    moreover have "e - c < e - s" using c by linarith
    ultimately obtain m' where "release_range ?m c e = Some m'" "released ?m m' {c..<e}"
      using less.hyps [of c ?m] c(2) less.prems(3) by auto
    moreover have "{s..<c} \<union> {c..<e} = {s..<e}" using c by auto
    ultimately show ?thesis using step released_trans [OF R(3)] by metis
  qed
qed

text \<open>The run detection of \<open>pmm_release_deferred\<close>.\<close>

definition run_ok :: "pmm \<Rightarrow> pfn option \<Rightarrow> pfn \<Rightarrow> bool" where
  "run_ok m run p \<longleftrightarrow>
     (case run of
        None \<Rightarrow> {q \<in> flagged m PG_DEFERRED. q < p} = {}
      | Some r \<Rightarrow> r < p \<and> p \<le> pmm_max_pfn m \<and> {q \<in> flagged m PG_DEFERRED. q < p} = {r..<p})"

lemma deferred_loop_ok:
  assumes "pmm_ok m" and "mapped_all m" and "flagged m PG_DEFERRED \<subseteq> withheld m"
    and "p \<le> Suc (pmm_max_pfn m)" and "run_ok m run p"
  shows "\<exists>m' n. deferred_loop m run rel [p..<Suc (pmm_max_pfn m)] = Some (m', n)
           \<and> released m m' (flagged m PG_DEFERRED)"
  using assms
proof (induction "Suc (pmm_max_pfn m) - p" arbitrary: m p run rel)
  case 0
  then have p: "p = Suc (pmm_max_pfn m)" by simp
  then have run: "run = None" using 0(6) by (cases run) (simp_all add: run_ok_def)
  then have "flagged m PG_DEFERRED = {}"
    using 0(6) by (auto simp: run_ok_def flagged_def p less_Suc_eq)
  then show ?case using 0(2) by (simp add: p run released_def same_globals_def)
next
  case (Suc n)
  then have p: "p \<le> pmm_max_pfn m" by simp
  then have list: "[p..<Suc (pmm_max_pfn m)] = p # [Suc p..<Suc (pmm_max_pfn m)]" by (simp add: upt_rec)
  have n: "n = Suc (pmm_max_pfn m) - Suc p" and le: "Suc p \<le> Suc (pmm_max_pfn m)" using Suc.hyps(2) p by auto
  have df: "(p < pmm_max_pfn m \<and> is_deferred m p) \<longleftrightarrow> p \<in> flagged m PG_DEFERRED" by (auto simp: flagged_def)
  have lt: "{q \<in> flagged m PG_DEFERRED. q < Suc p} = {q \<in> flagged m PG_DEFERRED. q < p} \<union> ({p} \<inter> flagged m PG_DEFERRED)"
    by auto
  show ?case
  proof (cases "run = None \<or> p \<in> flagged m PG_DEFERRED")
    case True
    define run' where "run' = (if p \<in> flagged m PG_DEFERRED then Some (case run of None \<Rightarrow> p | Some r \<Rightarrow> r) else None)"
    have "run_ok m run' (Suc p)"
    proof (cases run)
      case None
      then have lt0: "{q \<in> flagged m PG_DEFERRED. q < Suc p} = {p} \<inter> flagged m PG_DEFERRED"
        using Suc.prems(5) unfolding lt run_ok_def by (simp only: option.case Un_empty_left)
      have "{p..<Suc p} = {p}" by auto
      then show ?thesis
        using None df unfolding run_ok_def run'_def lt0 by (cases "p \<in> flagged m PG_DEFERRED") simp_all
    next
      case (Some r)
      then have "p \<in> flagged m PG_DEFERRED" "r < p" "{q \<in> flagged m PG_DEFERRED. q < p} = {r..<p}"
        using True Suc.prems(5) unfolding run_ok_def by simp_all
      moreover have "{r..<p} \<union> {p} = {r..<Suc p}" using \<open>r < p\<close> by auto
      ultimately show ?thesis using df Some unfolding run_ok_def run'_def lt by simp
    qed
    moreover have "deferred_loop m run rel [p..<Suc (pmm_max_pfn m)] = deferred_loop m run' rel [Suc p..<Suc (pmm_max_pfn m)]"
      unfolding list deferred_loop.simps df Let_def using True by (cases run) (simp_all add: run'_def)
    ultimately show ?thesis using Suc.hyps(1) [OF n Suc.prems(1-3) le] by simp
  next
    case False
    then obtain r where r: "run = Some r" "r < p" "{q \<in> flagged m PG_DEFERRED. q < p} = {r..<p}"
      using Suc.prems(5) unfolding run_ok_def by (cases run) simp_all
    have sub: "{r..<p} \<subseteq> flagged m PG_DEFERRED" using r(3) by blast
    then obtain m1 where R: "release_range m r p = Some m1" "released m m1 {r..<p}"
      using release_range_ok [OF Suc.prems(1) less_imp_le [OF r(2)] p] Suc.prems(3) by blast
    have b: "pmm_max_pfn m < 2 ^ 52" using Suc.prems(1) by (simp add: pmm_ok_def bounds_ok_def)
    have "pfn_to_phys p = p * 4096" using p b by simp
    moreover have "p * 4096 \<le> pmm_hhdm_limit m" using Suc.prems(2) p by (simp add: mapped_all_def)
    ultimately have dm: "phys_in_direct_map m (sub64 (pfn_to_phys p) 1)"
      using r(2) p b by (simp add: phys_in_direct_map_def sub64_id)
    have m1: "pmm_ok m1" "mapped_all m1" "pmm_max_pfn m1 = pmm_max_pfn m"
        "flagged m1 PG_DEFERRED = flagged m PG_DEFERRED - {r..<p}" "withheld m1 = withheld m - {r..<p}"
      using R(2) Suc.prems(2) by (auto simp: released_def same_globals_def mapped_all_def)
    have "{q \<in> flagged m1 PG_DEFERRED. q < Suc p} = {q \<in> flagged m PG_DEFERRED. q < Suc p} - {r..<p}"
      using m1(4) by blast
    then have rok: "run_ok m1 None (Suc p)" using False unfolding run_ok_def lt r(3) by auto
    have wh: "flagged m1 PG_DEFERRED \<subseteq> withheld m1" using m1(4,5) Suc.prems(3) by auto
    have n1: "n = Suc (pmm_max_pfn m1) - Suc p" and le1: "Suc p \<le> Suc (pmm_max_pfn m1)" using n le m1(3) by simp_all
    from Suc.hyps(1) [OF n1 m1(1,2) wh le1 rok, of "u64 (rel + (p - r))"]
    obtain m' n' where L: "deferred_loop m1 None (u64 (rel + (p - r))) [Suc p..<Suc (pmm_max_pfn m1)] = Some (m', n')"
        "released m1 m' (flagged m1 PG_DEFERRED)" by blast
    have "{r..<p} \<union> flagged m1 PG_DEFERRED = flagged m PG_DEFERRED" using m1(4) sub by auto
    moreover have "deferred_loop m run rel [p..<Suc (pmm_max_pfn m)] = Some (m', n')"
      unfolding list deferred_loop.simps df Let_def using False r(1) dm R(1) L(1) m1(3) by simp
    ultimately show ?thesis using released_trans [OF R(2) L(2)] by auto
  qed
qed

end
