(* ===== verification/Pmm_Contract.thy ===== *)
theory Pmm_Contract
  imports Pmm_Inv
begin

text \<open>
  The physical memory manager seen by its clients: a frame source as a locale, its interpretation
  on the manager's own operations, and the properties of allocation, freeing, reference counts and
  deferred memory.
\<close>

section \<open>The allocator as an interface\<close>

text \<open>
  What the kernel relies on when it asks for frames: no request panics while the invariant holds, a
  block handed out was free and is nobody else's, and giving it back restores its frames. The
  requests and the state are left open; \<open>exec\<close> runs any sequence of requests and returns, with
  the blocks its caller holds.
\<close>

datatype 'r alloc_op = Take 'r | Give nat

locale frame_source =
  fixes inv :: "'s \<Rightarrow> bool" and avail :: "'s \<Rightarrow> pfn set" and holds :: "'s \<Rightarrow> pfn \<Rightarrow> nat \<Rightarrow> bool"
    and order_of :: "'r \<Rightarrow> nat" and alloc :: "'s \<Rightarrow> 'r \<Rightarrow> ('s \<times> pfn option) option"
    and give :: "'s \<Rightarrow> pfn \<Rightarrow> nat \<Rightarrow> 's option"
  assumes alloc_total: "inv s \<Longrightarrow> \<exists>s' r. alloc s q = Some (s', r)"
    and alloc_none: "inv s \<Longrightarrow> alloc s q = Some (s', None) \<Longrightarrow> s' = s"
    and alloc_some: "inv s \<Longrightarrow> alloc s q = Some (s', Some p) \<Longrightarrow>
      inv s' \<and> span p (order_of q) \<subseteq> avail s \<and> avail s' = avail s - span p (order_of q)
      \<and> holds s' p (order_of q)"
    and alloc_keeps: "inv s \<Longrightarrow> alloc s q = Some (s', Some p) \<Longrightarrow> holds s x k \<Longrightarrow> holds s' x k"
    and holds_taken: "inv s \<Longrightarrow> holds s p k \<Longrightarrow> span p k \<inter> avail s = {}"
    and give_total: "inv s \<Longrightarrow> holds s p k \<Longrightarrow>
      \<exists>s'. give s p k = Some s' \<and> inv s' \<and> avail s' = avail s \<union> span p k
        \<and> (\<forall>x j. holds s x j \<and> span x j \<inter> span p k = {} \<longrightarrow> holds s' x j)"
begin

fun exec :: "'r alloc_op list \<Rightarrow> 's \<Rightarrow> (pfn \<times> nat) list \<Rightarrow> ('s \<times> (pfn \<times> nat) list) option" where
  "exec [] s own = Some (s, own)"
| "exec (Take q # ops) s own =
     (case alloc s q of
        None \<Rightarrow> None
      | Some (s', None) \<Rightarrow> exec ops s' own
      | Some (s', Some p) \<Rightarrow> exec ops s' ((p, order_of q) # own))"
| "exec (Give i # ops) s own =
     (if i < length own then
        (case give s (fst (own ! i)) (snd (own ! i)) of
           None \<Rightarrow> None
         | Some s' \<Rightarrow> exec ops s' (take i own @ drop (Suc i) own))
      else exec ops s own)"

definition frames_of :: "(pfn \<times> nat) list \<Rightarrow> pfn set" where
  "frames_of own = (\<Union>b \<in> set own. span (fst b) (snd b))"

definition good :: "'s \<Rightarrow> (pfn \<times> nat) list \<Rightarrow> bool" where
  "good s own \<longleftrightarrow> inv s \<and> (\<forall>b \<in> set own. holds s (fst b) (snd b))
     \<and> sorted_wrt (\<lambda>a b. span (fst a) (snd a) \<inter> span (fst b) (snd b) = {}) own"

lemma good_taken: "good s own \<Longrightarrow> frames_of own \<inter> avail s = {}"
  unfolding good_def frames_of_def using holds_taken by fastforce

lemma good_take:
  assumes g: "good s own" and a: "alloc s q = Some (s', Some p)"
  shows "good s' ((p, order_of q) # own)"
    and "avail s' \<union> frames_of ((p, order_of q) # own) = avail s \<union> frames_of own"
proof -
  have i: "inv s" using g by (simp add: good_def)
  note A = alloc_some [OF i a]
  have "span p (order_of q) \<inter> span (fst b) (snd b) = {}" if "b \<in> set own" for b
    using good_taken [OF g] A that by (auto simp: frames_of_def)
  then show "good s' ((p, order_of q) # own)"
    using g A alloc_keeps [OF i a] by (auto simp: good_def)
  show "avail s' \<union> frames_of ((p, order_of q) # own) = avail s \<union> frames_of own"
    using A by (auto simp: frames_of_def)
qed

lemma good_give:
  assumes g: "good s own" and own: "own = xs @ b # ys"
  obtains s' where "give s (fst b) (snd b) = Some s'" and "good s' (xs @ ys)"
    and "avail s' \<union> frames_of (xs @ ys) = avail s \<union> frames_of own"
proof -
  have i: "inv s" and h: "holds s (fst b) (snd b)" using g by (auto simp: good_def own)
  obtain s' where R: "give s (fst b) (snd b) = Some s'" "inv s'" "avail s' = avail s \<union> span (fst b) (snd b)"
      "\<forall>x j. holds s x j \<and> span x j \<inter> span (fst b) (snd b) = {} \<longrightarrow> holds s' x j"
    using give_total [OF i h] by blast
  have "span (fst a) (snd a) \<inter> span (fst b) (snd b) = {}" if "a \<in> set (xs @ ys)" for a
    using g that by (fastforce simp: good_def own sorted_wrt_append Int_commute)
  then have "good s' (xs @ ys)"
    using g R(2,4) by (auto simp: good_def own sorted_wrt_append)
  moreover have "avail s' \<union> frames_of (xs @ ys) = avail s \<union> frames_of own"
    using R(3) by (auto simp: frames_of_def own)
  ultimately show thesis using that R(1) by blast
qed

lemma exec_safe:
  "good s own \<Longrightarrow> \<exists>s' own'. exec ops s own = Some (s', own') \<and> good s' own'
     \<and> avail s' \<union> frames_of own' = avail s \<union> frames_of own"
proof (induction ops s own rule: exec.induct)
  case (1 s own)
  then show ?case by simp
next
  case (2 q ops s own)
  obtain s' r where a: "alloc s q = Some (s', r)" using alloc_total [of s q] 2(3) by (auto simp: good_def)
  show ?case
  proof (cases r)
    case None
    then have "s' = s" using alloc_none 2(3) a by (auto simp: good_def)
    then show ?thesis using 2(1) [of "(s', r)" s' r] 2(3) a None by simp
  next
    case (Some p)
    then show ?thesis
      using 2(2) [of "(s', r)" s' r p] good_take [OF 2(3), of q s' p] a by simp
  qed
next
  case (3 i ops s own)
  show ?case
  proof (cases "i < length own")
    case True
    have "own = take i own @ own ! i # drop (Suc i) own" using True by (rule id_take_nth_drop)
    then obtain s' where "give s (fst (own ! i)) (snd (own ! i)) = Some s'"
        "good s' (take i own @ drop (Suc i) own)"
        "avail s' \<union> frames_of (take i own @ drop (Suc i) own) = avail s \<union> frames_of own"
      by (rule good_give [OF 3(3)])
    then show ?thesis using 3(1) [of s'] True by simp
  next
    case False
    then show ?thesis using 3(2,3) by simp
  qed
qed

end

text \<open>The manager as such a source; a request is an order and the caller's flags.\<close>

definition clean_free :: "pmm \<Rightarrow> bool" where
  "clean_free m \<longleftrightarrow> (\<forall>q \<in> pmm_free m. unowned m q)"

definition pmm_inv :: "pmm \<Rightarrow> bool" where
  "pmm_inv m \<longleftrightarrow> pmm_ok m \<and> poison_ok m \<and> g_initialized m \<and> mapped_all m \<and> clean_free m"

definition pmm_holds :: "pmm \<Rightarrow> pfn \<Rightarrow> nat \<Rightarrow> bool" where
  "pmm_holds m p k \<longleftrightarrow> live m p k \<and> (\<forall>q \<in> span p k. unowned m q)"

lemma kept_unowned: "kept_flags m m' \<Longrightarrow> unowned m' q = unowned m q"
  by (simp add: kept_flags_def PG_defs flag_simps)

lemma live_frame:
  assumes "live m x j" and "bounds_ok m" and "bounds_ok m'" and "pmm_max_pfn m' = pmm_max_pfn m"
    and "\<And>q. q \<in> span x j \<Longrightarrow> pages m' q = pages m q" and "span x j \<inter> pmm_free m' = {}"
  shows "live m' x j"
proof -
  have mx: "x < pmm_max_pfn m" using assms(1) by (simp add: live_def)
  have z: "zone_for_pfn x < PMM_ZONE_COUNT" by (rule zone_for_pfn_frames(1) [OF assms(2) mx])
  have "block_ok (zones m' (zone_for_pfn x)) x j"
    using assms(1) bounds_same [OF assms(2-4) z] by (simp add: live_def block_ok_def)
  moreover have "span x j \<subseteq> pmm_managed m'"
    using assms(1,4,5) by (auto simp: live_def pmm_managed_def)
  ultimately show ?thesis using assms(1,4-6) by (auto simp: live_def)
qed

lemma pmm_alloc_inv:
  assumes inv: "pmm_inv m" and a: "pmm_alloc_pages m k fl = Some (m', Some p)"
  shows "pmm_inv m'" and "span p k \<subseteq> pmm_free m" and "pmm_free m' = pmm_free m - span p k"
    and "pmm_holds m' p k" and "pmm_holds m x j \<Longrightarrow> pmm_holds m' x j"
proof -
  have i: "pmm_ok m" "poison_ok m" "g_initialized m" "mapped_all m" "clean_free m"
    using inv by (auto simp: pmm_inv_def)
  have k: "k < PMM_MAX_ORDER" using a by (auto simp: pmm_alloc_pages_def split: if_splits)
  have A: "alloc_ok m m' p k fl" using alloc_pages_total [OF i(1-3) k, of fl] i(4) a by auto
  have un: "unowned m' q = unowned m q" for q using A kept_unowned by (auto simp: alloc_ok_def)
  have sg: "same_globals m m'" and ok': "pmm_ok m'" and l: "live m' p k" using A by (auto simp: alloc_ok_def)
  show sub: "span p k \<subseteq> pmm_free m" and free: "pmm_free m' = pmm_free m - span p k"
    using A by (auto simp: alloc_ok_def)
  have "clean_free m'" using i(5) free un by (auto simp: clean_free_def)
  then show "pmm_inv m'"
    using A i(3,4) sg by (simp add: pmm_inv_def alloc_ok_def same_globals_def mapped_all_def)
  show "pmm_holds m' p k" using l sub i(5) un by (auto simp: pmm_holds_def clean_free_def)
  show "pmm_holds m' x j" if h: "pmm_holds m x j"
  proof -
    have lx: "live m x j" using h by (simp add: pmm_holds_def)
    have dis: "span x j \<inter> pmm_free m = {}" using lx by (auto simp: live_def)
    have "live m' x j"
      using lx i(1) ok' sg A dis free
      by (intro live_frame [OF lx]) (auto simp: pmm_ok_def same_globals_def alloc_ok_def)
    then show ?thesis using h un by (simp add: pmm_holds_def)
  qed
qed

lemma pmm_free_inv:
  assumes inv: "pmm_inv m" and h: "pmm_holds m p k"
  obtains m' where "pmm_free_pages m p k pc = Some m'" and "pmm_inv m'"
    and "pmm_free m' = pmm_free m \<union> span p k"
    and "\<forall>x j. pmm_holds m x j \<and> span x j \<inter> span p k = {} \<longrightarrow> pmm_holds m' x j"
proof -
  have i: "pmm_ok m" "poison_ok m" "g_initialized m" "mapped_all m" "clean_free m"
    using inv by (auto simp: pmm_inv_def)
  have l: "live m p k" and u: "unowned m p" and us: "\<forall>q \<in> span p k. unowned m q"
    using h by (auto simp: pmm_holds_def)
  obtain m' where F: "pmm_free_pages m p k pc = Some m'" "pmm_ok m'" "poison_ok m'" "same_globals m m'"
      "pmm_free m' = pmm_free m \<union> span p k"
      "\<forall>q. q \<notin> pmm_free m \<union> span p k \<longrightarrow> pages m' q = pages m q" "kept_flags m m'"
    by (rule free_pages_total [OF i(1-3) l u])
  have un: "unowned m' q = unowned m q" for q by (rule kept_unowned [OF F(7)])
  have "clean_free m'" using i(5) F(5) us un by (auto simp: clean_free_def)
  then have "pmm_inv m'"
    using F(2-4) i(3,4) by (simp add: pmm_inv_def same_globals_def mapped_all_def)
  moreover have "pmm_holds m' x j" if hx: "pmm_holds m x j" "span x j \<inter> span p k = {}" for x j
  proof -
    have lx: "live m x j" using hx by (simp add: pmm_holds_def)
    have dis: "span x j \<inter> pmm_free m = {}" using lx by (auto simp: live_def)
    have "live m' x j"
      using i(1) F(2,4,5,6) dis hx(2)
      by (intro live_frame [OF lx]) (auto simp: pmm_ok_def same_globals_def)
    then show ?thesis using hx un by (simp add: pmm_holds_def)
  qed
  ultimately show thesis using that F(1,5) by blast
qed

interpretation pmm_source: frame_source pmm_inv pmm_free pmm_holds fst
    "\<lambda>m (k, fl). pmm_alloc_pages m k fl" "\<lambda>m p k. pmm_free_pages m p k pc" for pc
proof
  fix m :: pmm and q :: "nat \<times> 32 word" and m' p x k
  obtain j fl where q: "q = (j, fl)" by fastforce
  show "\<exists>m' r. (case q of (k, fl) \<Rightarrow> pmm_alloc_pages m k fl) = Some (m', r)" if "pmm_inv m"
  proof (cases "j < PMM_MAX_ORDER")
    case True
    then show ?thesis using alloc_pages_total [of m j fl] that by (auto simp: q pmm_inv_def)
  next
    case False
    then show ?thesis using that by (simp add: q pmm_alloc_pages_def pmm_inv_def)
  qed
  show "m' = m" if "pmm_inv m" "(case q of (k, fl) \<Rightarrow> pmm_alloc_pages m k fl) = Some (m', None)"
  proof (cases "j < PMM_MAX_ORDER")
    case True
    then show ?thesis using alloc_pages_total [of m j fl] that by (auto simp: q pmm_inv_def)
  next
    case False
    then show ?thesis using that by (simp add: q pmm_alloc_pages_def pmm_inv_def)
  qed
  show "pmm_inv m' \<and> span p (fst q) \<subseteq> pmm_free m \<and> pmm_free m' = pmm_free m - span p (fst q)
      \<and> pmm_holds m' p (fst q)"
    if "pmm_inv m" "(case q of (k, fl) \<Rightarrow> pmm_alloc_pages m k fl) = Some (m', Some p)"
    using pmm_alloc_inv(1-4) [of m j fl m' p] that by (simp add: q)
  show "pmm_holds m' x k"
    if "pmm_inv m" "(case q of (k, fl) \<Rightarrow> pmm_alloc_pages m k fl) = Some (m', Some p)" "pmm_holds m x k"
    using pmm_alloc_inv(5) [of m j fl m' p x k] that by (simp add: q)
  show "span p k \<inter> pmm_free m = {}" if "pmm_inv m" "pmm_holds m p k"
    using that by (auto simp: pmm_holds_def live_def)
  show "\<exists>m'. pmm_free_pages m p k pc = Some m' \<and> pmm_inv m' \<and> pmm_free m' = pmm_free m \<union> span p k
      \<and> (\<forall>x j. pmm_holds m x j \<and> span x j \<inter> span p k = {} \<longrightarrow> pmm_holds m' x j)"
    if "pmm_inv m" "pmm_holds m p k"
    using pmm_free_inv [OF that] by metis
qed

section \<open>A freshly initialised manager\<close>

lemma boot_page_flags [simp]:
  "has (pg_flags (boot_page p)) PG_RESERVED" "\<not> has (pg_flags (boot_page p)) PG_DEFERRED"
  "\<not> has (pg_flags (boot_page p)) PG_BUDDY" "\<not> has (pg_flags (boot_page p)) PG_POISONED"
  "has (pg_flags (boot_page p)) (PG_RESERVED OR PG_DEFERRED)" "pg_refcount (boot_page p) = 0"
  by (simp_all add: boot_page_def PG_defs flag_simps)

definition boot_pmm :: "pmm \<Rightarrow> pfn \<Rightarrow> pmm" where
  "boot_pmm m n = init_zones (m\<lparr>pmm_max_pfn := n, pages := boot_page, g_reserved_pages := n, g_deferred_pages := 0\<rparr>) n"

lemma boot_pmm_fields:
  "pmm_max_pfn (boot_pmm m n) = n" "pages (boot_pmm m n) = boot_page"
  "g_reserved_pages (boot_pmm m n) = n" "g_deferred_pages (boot_pmm m n) = 0"
  "pmm_hhdm_limit (boot_pmm m n) = pmm_hhdm_limit m" "g_initialized (boot_pmm m n) = g_initialized m"
  by (simp_all add: boot_pmm_def init_zones_def Let_def)

lemma boot_pmm_ok:
  assumes "n < 2 ^ 52"
  shows "pmm_ok (boot_pmm m n)" and "pmm_free (boot_pmm m n) = {}" and "withheld (boot_pmm m n) = {..<n}"
    and "poison_ok (boot_pmm m n)"
proof -
  let ?m = "boot_pmm m n"
  define b where "b = (\<lambda>z. zone_end z n)"
  have Z: "zones ?m z = buddy_zone_init (pmm_zone_name z) (if z = 0 then 0 else b (z - 1)) (b z)"
    if "z < PMM_ZONE_COUNT" for z
    using zone_cases [OF that]
    by (auto simp: boot_pmm_def init_zones_def Let_def zone_defs phys_to_pfn_def PAGE_SHIFT_def
        drop_bit_eq_div b_def min_def)
  have "bounds_ok ?m" using assms Z by (simp add: bounds_ok_def boot_pmm_fields buddy_zone_init_def b_def)
  moreover have "flagged ?m PG_RESERVED = {..<n}" "flagged ?m PG_DEFERRED = {}"
    by (auto simp: flagged_def boot_pmm_fields)
  then have "counts_ok ?m" by (simp add: counts_ok_def boot_pmm_fields)
  moreover have "zone_ok (zones ?m z) (pages ?m)" "free_pages (zones ?m z) = {}" "\<not> z_held (zones ?m z)"
    if "z < PMM_ZONE_COUNT" for z
  proof -
    have "managed (zones ?m z) (pages ?m) = {}" by (simp add: managed_def boot_pmm_fields)
    moreover have "b z \<le> 2 ^ 52" using assms by (simp add: b_def min_def)
    ultimately show "zone_ok (zones ?m z) (pages ?m)" "free_pages (zones ?m z) = {}"
      using zone_init_ok unfolding Z [OF that] boot_pmm_fields by auto
    show "\<not> z_held (zones ?m z)" by (simp add: Z [OF that] buddy_zone_init_def)
  qed
  ultimately show "pmm_ok ?m" and "pmm_free ?m = {}"
    by (simp_all add: pmm_ok_def zones_ok_def pmm_free_def)
  show "withheld ?m = {..<n}" by (auto simp: withheld_def boot_pmm_fields)
  show "poison_ok ?m" by (simp add: poison_ok_def boot_pmm_fields)
qed

text \<open>A machine of 64 frames, the first eight reserved, all of it in the direct map.\<close>

definition blank_pmm :: pmm where
  "blank_pmm = \<lparr>zones = (\<lambda>_. buddy_zone_init ''?'' 0 0), pages = boot_page, pmm_max_pfn = 0,
     pmm_hhdm_limit = 2 ^ 32, g_reserved_pages = 0, g_deferred_pages = 0, g_initialized = True,
     frame_words = (\<lambda>_ _. 0), config_debug = True\<rparr>"

definition demo_pmm :: pmm where
  "demo_pmm = the (release_range (boot_pmm blank_pmm 64) 8 64)"

lemma demo_pmm_released: "released (boot_pmm blank_pmm 64) demo_pmm {8..<64}"
proof -
  have "\<exists>m'. release_range (boot_pmm blank_pmm 64) 8 64 = Some m' \<and> released (boot_pmm blank_pmm 64) m' {8..<64}"
    by (rule release_range_ok) (auto simp: boot_pmm_ok boot_pmm_fields)
  then show ?thesis by (auto simp: demo_pmm_def)
qed

lemma releasedD:
  assumes "released m m' S"
  shows "pmm_ok m'" and "pmm_free m' = pmm_free m \<union> S" and "withheld m' = withheld m - S"
    and "flagged m' PG_DEFERRED = flagged m PG_DEFERRED - S" and "g_initialized m' = g_initialized m"
    and "pmm_max_pfn m' = pmm_max_pfn m" and "pmm_hhdm_limit m' = pmm_hhdm_limit m"
    and "config_debug m' = config_debug m" and "frame_words m' = frame_words m"
    and "kept_other m m'"
  using assms unfolding released_def same_globals_def by blast+

lemma demo_pmm_ok:
  "pmm_ok demo_pmm" "pmm_free demo_pmm = {8..<64}" "g_initialized demo_pmm" "mapped_all demo_pmm"
  "pmm_max_pfn demo_pmm = 64" "withheld demo_pmm = {..<8}" "flagged demo_pmm PG_DEFERRED = {}"
proof -
  have f: "flagged (boot_pmm blank_pmm 64) PG_DEFERRED = {}" by (simp add: flagged_def boot_pmm_fields)
  note R = releasedD [OF demo_pmm_released]
  show "pmm_ok demo_pmm" by (rule R(1))
  show "pmm_free demo_pmm = {8..<64}" "flagged demo_pmm PG_DEFERRED = {}"
    using R(2,4) f by (simp_all add: boot_pmm_ok)
  show "g_initialized demo_pmm" "pmm_max_pfn demo_pmm = 64" "mapped_all demo_pmm"
    by (simp_all add: R(5-7) mapped_all_def boot_pmm_fields blank_pmm_def)
  have "{..<64} - {8..<64} = {..<8::nat}" by auto
  then show "withheld demo_pmm = {..<8}" using R(3) by (simp add: boot_pmm_ok)
qed

lemma demo_pmm_inv: "pmm_inv demo_pmm"
proof -
  have "bit (pg_flags (pages demo_pmm q)) j = bit (pg_flags (boot_page q)) j" if "j \<notin> {0, 1, 5}" for q j
    using kept_otherD [OF releasedD(10) [OF demo_pmm_released] that] by (simp add: boot_pmm_fields)
  then have "bit (pg_flags (pages demo_pmm q)) j = False" if "j \<in> {2, 3, 4, 6}" for q j
    using that by (auto simp: boot_page_def PG_defs flag_simps)
  then have "poison_ok demo_pmm" "clean_free demo_pmm"
    by (simp_all add: poison_ok_def clean_free_def PG_defs flag_simps)
  then show ?thesis using demo_pmm_ok by (simp add: pmm_inv_def)
qed

section \<open>Marking deferred frames\<close>

definition fresh_frames :: "pmm \<Rightarrow> pfn set \<Rightarrow> bool" where
  "fresh_frames m S \<longleftrightarrow> (\<forall>p \<in> S. p < pmm_max_pfn m \<and> is_reserved m p \<and> \<not> is_deferred m p)"

text \<open>What marking a set of reserved frames as deferred does.\<close>

definition marked :: "pmm \<Rightarrow> pmm \<Rightarrow> pfn set \<Rightarrow> bool" where
  "marked m m' S \<longleftrightarrow>
     pmm_ok m' \<and> zones m' = zones m \<and> same_globals m m' \<and> withheld m' = withheld m
     \<and> flagged m' PG_RESERVED = flagged m PG_RESERVED - S
     \<and> flagged m' PG_DEFERRED = flagged m PG_DEFERRED \<union> S
     \<and> (\<forall>q. q \<notin> S \<longrightarrow> pages m' q = pages m q)
     \<and> kept_other m m'"

lemma markedD:
  assumes "marked m m' S"
  shows "pmm_ok m'" and "withheld m' = withheld m" and "pmm_free m' = pmm_free m"
    and "flagged m' PG_RESERVED = flagged m PG_RESERVED - S"
    and "flagged m' PG_DEFERRED = flagged m PG_DEFERRED \<union> S"
    and "g_initialized m' = g_initialized m" and "pmm_max_pfn m' = pmm_max_pfn m"
    and "pmm_hhdm_limit m' = pmm_hhdm_limit m" and "q \<notin> S \<Longrightarrow> pages m' q = pages m q"
  using assms unfolding marked_def same_globals_def pmm_free_def by simp_all

lemma marked_refl: "pmm_ok m \<Longrightarrow> marked m m {}"
  by (simp add: marked_def same_globals_def)

lemma marked_trans: "marked m m1 S \<Longrightarrow> marked m1 m2 T \<Longrightarrow> marked m m2 (S \<union> T)"
  unfolding marked_def same_globals_def by (auto intro: kept_other_trans)

lemma mark_one_marked:
  assumes ok: "pmm_ok m" and f: "fresh_frames m {p}"
  shows "marked m (mark_one p m) {p}"
proof -
  let ?m = "mark_one p m"
  have b: "bounds_ok m" and zo: "zones_ok m" and c: "counts_ok m" using ok by (auto simp: pmm_ok_def)
  have p: "p < pmm_max_pfn m" "is_reserved m p" "\<not> is_deferred m p" using f by (auto simp: fresh_frames_def)
  have g: "zones ?m = zones m" "pmm_max_pfn ?m = pmm_max_pfn m" "same_globals m ?m"
    by (simp_all add: mark_one_def same_globals_def)
  have other: "q \<noteq> p \<Longrightarrow> pages ?m q = pages m q" for q by (simp add: mark_one_def)
  have at: "pg_refcount (pages ?m p) = pg_refcount (pages m p)" "pg_order (pages ?m p) = pg_order (pages m p)"
      "\<not> is_reserved ?m p" "is_deferred ?m p" "is_buddy (pages ?m) p = is_buddy (pages m) p"
    by (simp_all add: mark_one_def PG_defs flag_simps)
  have rd: "has (pg_flags (pages ?m q)) (PG_RESERVED OR PG_DEFERRED) = has (pg_flags (pages m q)) (PG_RESERVED OR PG_DEFERRED)" for q
    using p(2) at(4) other [of q] by (cases "q = p") (simp_all add: has_res_or_def)
  have same: "is_buddy (pages ?m) q = is_buddy (pages m) q \<and> pg_order (pages ?m q) = pg_order (pages m q)"
    and rc: "pg_refcount (pages ?m q) = pg_refcount (pages m q)" for q
    using at other [of q] by (cases "q = p"; simp)+
  have "zone_ok (zones m z) (pages ?m)" if "z < PMM_ZONE_COUNT" for z
    using zone_ok_pages_cong [OF zones_okD(1) [OF zo that] same rc rd] .
  then have "zones_ok ?m" using zo g(1) by (simp add: zones_ok_def)
  have fr: "flagged ?m PG_RESERVED = flagged m PG_RESERVED - {p}"
    using at(3) other g(2) by (auto simp: flagged_def) metis+
  have fd: "flagged ?m PG_DEFERRED = insert p (flagged m PG_DEFERRED)"
    using at(4) other g(2) p(1) by (auto simp: flagged_def) metis+
  have mem: "p \<in> flagged m PG_RESERVED" "p \<notin> flagged m PG_DEFERRED" "finite (flagged m f)" for f
    using p by (auto simp: flagged_def)
  have "0 < card (flagged m PG_RESERVED)" using mem by (metis card_gt_0_iff empty_iff)
  moreover have "card (flagged m PG_RESERVED) < W64" "card (flagged m PG_DEFERRED) \<le> pmm_max_pfn m"
    using flagged_card_bound [OF b] card_mono [of "{..<pmm_max_pfn m}" "flagged m PG_DEFERRED"]
    by (auto simp: flagged_def)
  moreover have "pmm_max_pfn m < 2 ^ 52" using b by (simp add: bounds_ok_def)
  ultimately have "counts_ok ?m"
    using c mem by (simp add: counts_ok_def fr fd) (simp add: mark_one_def sub64_id u64_id)
  then have "pmm_ok ?m" using \<open>zones_ok ?m\<close> b g by (simp add: pmm_ok_def bounds_ok_def)
  moreover have "withheld ?m = withheld m"
    using rd rc g(2) by (simp add: withheld_def has_res_or_def)
  moreover have "bit (pg_flags (pages ?m q)) j = bit (pg_flags (pages m q)) j" if "j \<notin> {0, 1, 5}" for q j
    using that by (cases "q = p") (auto simp: mark_one_def PG_defs flag_simps dest: bit_length)
  then have "kept_other m ?m" by (simp add: kept_other_def)
  ultimately show ?thesis using g fr fd other by (simp add: marked_def)
qed

lemma fold_mark_one:
  "pmm_ok m \<Longrightarrow> fresh_frames m (set ps) \<Longrightarrow> distinct ps \<Longrightarrow> marked m (fold mark_one ps m) (set ps)"
proof (induction ps arbitrary: m)
  case Nil
  then show ?case by (simp add: marked_refl)
next
  case (Cons p ps)
  have M: "marked m (mark_one p m) {p}" using Cons.prems by (intro mark_one_marked) (auto simp: fresh_frames_def)
  have "fresh_frames (mark_one p m) (set ps)"
    using Cons.prems(2,3) markedD(7,9) [OF M] by (auto simp: fresh_frames_def) (metis (no_types))+
  then have "marked (mark_one p m) (fold mark_one ps (mark_one p m)) (set ps)"
    using Cons.IH markedD(1) [OF M] Cons.prems(3) by simp
  from marked_trans [OF M this] show ?case by simp
qed

section \<open>The manager's contract\<close>


lemma demo_big_block: "big_block (zones demo_pmm 0) 0"
proof -
  have b: "bounds_ok demo_pmm" and zo: "zones_ok demo_pmm" using demo_pmm_ok(1) by (auto simp: pmm_ok_def)
  have "8 \<in> pmm_free demo_pmm" using demo_pmm_ok(2) by simp
  moreover have "8 \<in> frames (zones demo_pmm 0)" using bounds_okD(1,2) [OF b] demo_pmm_ok(5) by simp
  ultimately have "8 \<in> pmm_free demo_pmm \<inter> frames (zones demo_pmm 0)" by (rule IntI)
  moreover have "0 < PMM_ZONE_COUNT" by (simp add: PMM_ZONE_COUNT_def)
  ultimately have "8 \<in> free_pages (zones demo_pmm 0)" by (simp only: pmm_free_zone [OF b zo])
  then show ?thesis by (elim free_pagesE) (auto simp: big_block_def)
qed


text \<open>
  C1. Over any sequence of allocations (of any order, with any flags) and of frees of blocks the
  caller holds, the manager never panics; the blocks held at the end are pairwise disjoint and not
  free, and every frame that was free at the start is at the end either free or in exactly one
  held block.
\<close>

theorem pmm_history_safe:
  assumes "pmm_inv m"
  shows "\<exists>m' own. pmm_source.exec pc ops m [] = Some (m', own) \<and> pmm_inv m'
           \<and> (\<forall>(p, k) \<in> set own. pmm_holds m' p k \<and> span p k \<inter> pmm_free m' = {})
           \<and> sorted_wrt (\<lambda>a b. span (fst a) (snd a) \<inter> span (fst b) (snd b) = {}) own
           \<and> pmm_free m' \<union> (\<Union>(p, k) \<in> set own. span p k) = pmm_free m"
proof -
  have "pmm_source.good m []" using assms by (simp add: pmm_source.good_def)
  then obtain m' own where E: "pmm_source.exec pc ops m [] = Some (m', own)" "pmm_source.good m' own"
      "pmm_free m' \<union> pmm_source.frames_of own = pmm_free m \<union> pmm_source.frames_of []"
    using pmm_source.exec_safe by blast
  then have inv: "pmm_inv m'" and h: "\<forall>b \<in> set own. pmm_holds m' (fst b) (snd b)"
    and dis: "sorted_wrt (\<lambda>a b. span (fst a) (snd a) \<inter> span (fst b) (snd b) = {}) own"
    unfolding pmm_source.good_def by simp_all
  have "\<forall>(p, k) \<in> set own. pmm_holds m' p k \<and> span p k \<inter> pmm_free m' = {}"
    using h pmm_source.holds_taken [OF inv] by fastforce
  moreover have "pmm_free m' \<union> (\<Union>(p, k) \<in> set own. span p k) = pmm_free m"
    using E(3) by (simp add: pmm_source.frames_of_def case_prod_unfold)
  ultimately show ?thesis using E(1) inv dis by blast
qed

theorem pmm_history_safe_witness:
  "pmm_inv demo_pmm
   \<and> (\<exists>m' own. pmm_source.exec 0 [Take (1, 0), Take (0, PMM_FLAGS_ZONE_DMA), Give 0, Take (2, PMM_FLAGS_ZERO)] demo_pmm []
          = Some (m', own)
        \<and> pmm_inv m' \<and> pmm_free m' \<union> (\<Union>(p, k) \<in> set own. span p k) = {8..<64})"
  using pmm_history_safe [OF demo_pmm_inv, of 0 "[Take (1, 0), Take (0, PMM_FLAGS_ZONE_DMA), Give 0, Take (2, PMM_FLAGS_ZERO)]"]
    demo_pmm_inv demo_pmm_ok(2) by auto

text \<open>
  C32. Freeing any frame that is already free panics, whether the frame heads its free block or
  has been merged into a larger one, and whatever order is passed.
\<close>

theorem pmm_double_free_panics:
  assumes "pmm_ok m" and "p \<in> pmm_free m"
  shows "pmm_free_pages m p ord pc = None"
proof -
  obtain z where z: "z < PMM_ZONE_COUNT" "p \<in> free_pages (zones m z)" using assms(2) by (auto simp: pmm_free_def)
  have "zone_ok (zones m z) (pages m)" using zones_okD(1) [OF _ z(1)] assms(1) by (auto simp: pmm_ok_def)
  then have "pg_refcount (pages m p) = 0" using lists_okD(7) z(2) by (auto simp: zone_ok_def)
  then have "pg_refcount (pages m p) \<noteq> 1" by simp
  then show ?thesis by (simp add: pmm_free_pages_def kassert_def)
qed

theorem pmm_double_free_panics_witness:
  "pmm_ok demo_pmm \<and> 13 \<in> pmm_free demo_pmm \<and> pmm_free_pages demo_pmm 13 0 0 = None"
  using pmm_double_free_panics [of demo_pmm 13 0 0] demo_pmm_ok by simp

text \<open>
  C33. In a debug build a frame that was poisoned when it was freed and has been written since is
  never handed out: an allocation that succeeds returns only frames whose poison is intact in every
  word but the one that names the freer.
\<close>

theorem pmm_alloc_rejects_damage:
  assumes "pmm_ok m" and "config_debug m" and "pmm_alloc_pages m ord flags = Some (m', Some p)"
    and "q \<in> span p ord" and "has (pg_flags (pages m q)) PG_POISONED"
  shows "holds_poison q (frame_words m q)"
proof (rule ccontr)
  assume bad: "\<not> holds_poison q (frame_words m q)"
  have ord: "ord < PMM_MAX_ORDER" using assms(3) by (auto simp: pmm_alloc_pages_def split: if_splits)
  have tz: "top_zone flags < PMM_ZONE_COUNT" by (simp add: top_zone_def zone_defs)
  obtain m1 where A: "alloc_zones m ord (top_zone flags) = Some (m1, Some p)" "poison_check m1 p ord \<noteq> None"
    using assms(3) by (auto simp: pmm_alloc_pages_def bind_eq_Some_conv split: if_splits option.splits)
  have B: "took m m1 p ord" "kept_pages m m1 p" "frame_words m1 = frame_words m"
    using alloc_zones_total [OF assms(1) tz ord] A(1) by auto
  have "config_debug m1" using B(1) assms(2) by (simp add: took_def same_globals_def)
  moreover have "has (pg_flags (pages m1 q)) PG_POISONED"
    using B(2) assms(5) by (simp add: kept_pages_def PG_defs flag_simps)
  moreover have "q \<in> set [p..<p + 2 ^ ord]" using assms(4) by (simp add: span_def)
  ultimately have "poison_check m1 p ord = None"
    using poison_check_frames_None [of q "[p..<p + 2 ^ ord]" m1] bad B(3) by (simp add: poison_check_def)
  then show False using A(2) by simp
qed

definition demo_poisoned :: pmm where
  "demo_poisoned = poison_fill demo_pmm 0 6 0"

lemma demo_poisoned_ok:
  "pmm_ok demo_poisoned" "poison_ok demo_poisoned" "g_initialized demo_poisoned" "mapped_all demo_poisoned"
  "config_debug demo_poisoned" "zones demo_poisoned = zones demo_pmm"
  "q < 64 \<Longrightarrow> has (pg_flags (pages demo_poisoned q)) PG_POISONED"
proof -
  have i: "pmm_ok demo_pmm" "poison_ok demo_pmm" using demo_pmm_inv by (auto simp: pmm_inv_def)
  note F = poison_fill_ok [OF i, of 0 6 0, folded demo_poisoned_def]
  have dbg: "config_debug demo_pmm"
    using releasedD(8) [OF demo_pmm_released] by (simp add: boot_pmm_def init_zones_def Let_def blank_pmm_def)
  show "pmm_ok demo_poisoned" "poison_ok demo_poisoned" "zones demo_poisoned = zones demo_pmm" by (rule F)+
  show "g_initialized demo_poisoned" "mapped_all demo_poisoned" "config_debug demo_poisoned"
    using F(5) demo_pmm_ok dbg by (simp_all add: same_globals_def mapped_all_def)
  have "phys_in_direct_map demo_pmm (page_to_phys 0 + PAGE_SIZE * 2 ^ 6 - 1)"
    using demo_pmm_ok i(1) by (intro block_in_direct_map) (simp_all add: pmm_ok_def)
  then have e: "demo_poisoned = fold (poison_one 0) [0..<2 ^ 6] demo_pmm"
    using dbg by (simp add: demo_poisoned_def poison_fill_def)
  show "has (pg_flags (pages demo_poisoned q)) PG_POISONED" if "q < 64"
    unfolding e using that by (simp add: fold_poison_one PG_defs flag_simps)
qed

theorem pmm_alloc_rejects_damage_witness:
  "pmm_ok demo_poisoned \<and> config_debug demo_poisoned
   \<and> (\<exists>m' p. pmm_alloc_pages demo_poisoned 0 0 = Some (m', Some p) \<and> p \<in> span p 0
        \<and> has (pg_flags (pages demo_poisoned p)) PG_POISONED \<and> holds_poison p (frame_words demo_poisoned p))"
proof -
  have "big_block (zones demo_poisoned 0) 0" using demo_big_block by (simp add: demo_poisoned_ok)
  then obtain m' p where A: "pmm_alloc_pages demo_poisoned 0 0 = Some (m', Some p)"
      "alloc_ok demo_poisoned m' p 0 0"
    using alloc_pages_total [of demo_poisoned 0 0] demo_poisoned_ok by (auto simp: PMM_MAX_ORDER_def)
  have "p \<in> pmm_free demo_pmm" using A(2) span_self [of p 0]
    by (auto simp: alloc_ok_def pmm_free_def demo_poisoned_ok(6))
  then have "p < 64" using demo_pmm_ok(2) by simp
  then have fl: "has (pg_flags (pages demo_poisoned p)) PG_POISONED" by (rule demo_poisoned_ok(7))
  show ?thesis
  proof (intro conjI exI)
    show "pmm_alloc_pages demo_poisoned 0 0 = Some (m', Some p)" by (rule A(1))
    show "holds_poison p (frame_words demo_poisoned p)"
      by (rule pmm_alloc_rejects_damage [OF demo_poisoned_ok(1,5) A(1) span_self fl])
  qed (use fl demo_poisoned_ok(1,5) in simp_all)
qed

text \<open>
  C39. Reference counting: taking a reference and dropping it again leaves the manager exactly as
  it was, and dropping the last reference to a block is freeing it at its recorded order. (The
  count must not be at its 32-bit maximum, where taking a reference would wrap to zero.)
\<close>

theorem pmm_page_get_put:
  assumes "pg_refcount (pages m p) \<noteq> 0" and "pg_refcount (pages m p) \<noteq> - 1"
  shows "Option.bind (pmm_page_get m p) (\<lambda>m. pmm_page_put m p pc) = Some m
       \<and> (pg_refcount (pages m p) = 1 \<longrightarrow> pmm_page_put m p pc = pmm_free_pages m p (pg_order (pages m p)) pc)"
proof -
  let ?r = "pg_refcount (pages m p)"
  have "?r + 1 \<noteq> 0" using assms(2) by (simp add: eq_neg_iff_add_eq_0)
  moreover have "?r + 1 \<noteq> 1" using assms(1) by simp
  moreover have pg: "(pages m p)\<lparr>pg_refcount := ?r\<rparr> = pages m p" by simp
  have "(pages m)(p := pages m p) = pages m" by simp
  ultimately have "Option.bind (pmm_page_get m p) (\<lambda>m. pmm_page_put m p pc) = Some m"
    using assms(1) by (simp add: pmm_page_get_def pmm_page_put_def Let_def)
  moreover have "pmm_page_put m p pc = pmm_free_pages m p (pg_order (pages m p)) pc" if "?r = 1"
  proof -
    have e: "(pages m p)\<lparr>pg_refcount := 1\<rparr> = pages m p" by (simp add: that [symmetric])
    show ?thesis using that by (simp add: pmm_page_put_def Let_def e)
  qed
  ultimately show ?thesis by blast
qed

theorem pmm_page_get_put_witness:
  "pg_refcount (pages (demo_pmm\<lparr>pages := (\<lambda>_. (boot_page 0)\<lparr>pg_refcount := 1\<rparr>)\<rparr>) 9) \<noteq> 0
   \<and> Option.bind (pmm_page_get (demo_pmm\<lparr>pages := (\<lambda>_. (boot_page 0)\<lparr>pg_refcount := 1\<rparr>)\<rparr>) 9)
       (\<lambda>m. pmm_page_put m 9 0) = Some (demo_pmm\<lparr>pages := (\<lambda>_. (boot_page 0)\<lparr>pg_refcount := 1\<rparr>)\<rparr>)"
  using pmm_page_get_put [of "demo_pmm\<lparr>pages := (\<lambda>_. (boot_page 0)\<lparr>pg_refcount := 1\<rparr>)\<rparr>" 9 0] by simp

text \<open>
  C31. Once the direct map covers all of memory, \<open>pmm_release_deferred\<close> returns, whatever runs
  the deferred frames form, across zone boundaries and at the end of memory; afterwards every
  frame that was deferred is free, none is deferred, and nothing else has become free.
\<close>

theorem pmm_release_deferred_correct:
  assumes "pmm_ok m" and "g_initialized m" and "mapped_all m" and "flagged m PG_DEFERRED \<subseteq> withheld m"
  shows "\<exists>m'. pmm_release_deferred m = Some m' \<and> pmm_ok m' \<and> flagged m' PG_DEFERRED = {}
           \<and> pmm_free m' = pmm_free m \<union> flagged m PG_DEFERRED"
proof -
  have "run_ok m None 0" by (simp add: run_ok_def)
  from deferred_loop_ok [OF assms(1,3,4) _ this, of 0]
  obtain m' n where L: "deferred_loop m None 0 [0..<Suc (pmm_max_pfn m)] = Some (m', n)"
    and R: "released m m' (flagged m PG_DEFERRED)" by auto
  have none: "flagged m' PG_DEFERRED = {}" using releasedD(4) [OF R] by simp
  moreover have "counts_ok m'" using releasedD(1) [OF R] by (simp add: pmm_ok_def)
  ultimately have "g_deferred_pages m' = 0" by (simp add: counts_ok_def)
  then have "pmm_release_deferred m = Some m'"
    using assms(2) L by (simp add: pmm_release_deferred_def del: upt_Suc)
  then show ?thesis using releasedD(1,2) [OF R] none by blast
qed

definition demo_deferred :: pmm where
  "demo_deferred = fold mark_one [60..<64] (boot_pmm blank_pmm 64)"

lemma demo_deferred_ok:
  "pmm_ok demo_deferred" "g_initialized demo_deferred" "mapped_all demo_deferred"
  "flagged demo_deferred PG_DEFERRED = {60..<64}" "withheld demo_deferred = {..<64}" "pmm_free demo_deferred = {}"
proof -
  have ok: "pmm_ok (boot_pmm blank_pmm 64)" by (simp add: boot_pmm_ok)
  have fresh: "fresh_frames (boot_pmm blank_pmm 64) (set [60..<64])"
    unfolding set_upt by (auto simp: fresh_frames_def boot_pmm_fields)
  have "marked (boot_pmm blank_pmm 64) demo_deferred {60..<64}"
    using fold_mark_one [OF ok fresh distinct_upt] unfolding demo_deferred_def set_upt .
  note M = markedD [OF this]
  have "flagged (boot_pmm blank_pmm 64) PG_DEFERRED = {}" by (simp add: flagged_def boot_pmm_fields)
  then show "pmm_ok demo_deferred" "g_initialized demo_deferred" "mapped_all demo_deferred"
      "flagged demo_deferred PG_DEFERRED = {60..<64}" "withheld demo_deferred = {..<64}" "pmm_free demo_deferred = {}"
    using M boot_pmm_ok [of 64 blank_pmm]
    by (simp_all add: boot_pmm_fields mapped_all_def) (simp_all add: blank_pmm_def)
qed

theorem pmm_release_deferred_correct_witness:
  "pmm_ok demo_deferred \<and> flagged demo_deferred PG_DEFERRED \<subseteq> withheld demo_deferred
   \<and> (\<exists>m'. pmm_release_deferred demo_deferred = Some m' \<and> pmm_ok m' \<and> pmm_free m' = {60..<64})"
proof -
  have "flagged demo_deferred PG_DEFERRED \<subseteq> withheld demo_deferred" by (auto simp: demo_deferred_ok)
  then show ?thesis
    using pmm_release_deferred_correct [of demo_deferred] demo_deferred_ok by auto
qed

end
