(* ===== verification/Pmm_Boot.thy ===== *)
theory Pmm_Boot
  imports Pmm_Contract
begin

text \<open>
  Booting the manager: \<open>pmm_init\<close> composes the boot allocator, the page array, the zones, the
  marking of deferred frames and the release of what the boot allocator has left. The result is a
  consistent manager whose free frames are exactly the whole frames of the remaining boot ranges.
\<close>

section \<open>Bytes and frames\<close>

definition whole :: "paddr \<Rightarrow> paddr \<Rightarrow> pfn set" where
  "whole s e = {p. s \<le> p * 4096 \<and> p * 4096 + 4096 \<le> e}"

definition whole_frames :: "ranges \<Rightarrow> pfn set" where
  "whole_frames rs = (\<Union>(s, e) \<in> set rs. whole s e)"

lemma phys_to_pfn_div: "phys_to_pfn x = x div 4096"
  by (simp add: phys_to_pfn_def PAGE_SHIFT_def drop_bit_eq_div)

lemma PAGE_SIZE_4096: "PAGE_SIZE = 4096"
  by (simp add: PAGE_SIZE_def PAGE_SHIFT_def)

lemma align_down_div: "align_down x 4096 div 4096 = x div (4096 :: nat)"
  by (simp add: align_down_def minus_mod_eq_div_mult)

lemma released_frames:
  assumes "s + 4095 < W64"
  shows "{phys_to_pfn (page_align_up s)..<phys_to_pfn (page_align_down e)} = whole s e"
proof -
  have u: "phys_to_pfn (page_align_up s) = (s + 4095) div 4096"
    using assms by (simp add: phys_to_pfn_div page_align_up_def PAGE_SIZE_4096 align_down_div u64_id)
  have d: "phys_to_pfn (page_align_down e) = e div 4096"
    by (simp add: phys_to_pfn_div page_align_down_def PAGE_SIZE_4096 align_down_div)
  have "p \<in> {(s + 4095) div 4096..<e div 4096} \<longleftrightarrow> p \<in> whole s e" for p
  proof -
    have "(s + 4095) div 4096 \<le> p \<longleftrightarrow> s \<le> p * 4096"
      using div_less_iff_less_mult [of 4096 "s + 4095" "Suc p"] by auto
    moreover have "p < e div 4096 \<longleftrightarrow> p * 4096 + 4096 \<le> e"
      using less_eq_div_iff_mult_less_eq [of 4096 "Suc p" e] by auto
    ultimately show ?thesis unfolding whole_def atLeastLessThan_iff mem_Collect_eq by simp
  qed
  then show ?thesis unfolding u d by (rule set_eqI)
qed

lemma whole_bytes: "p \<in> whole s e \<Longrightarrow> {p * 4096..<p * 4096 + 4096} \<subseteq> {s..<e}"
  by (auto simp: whole_def)

lemma whole_frames_bytes: "p \<in> whole_frames rs \<Longrightarrow> {p * 4096..<p * 4096 + 4096} \<subseteq> bytes rs"
proof -
  assume "p \<in> whole_frames rs"
  then obtain s e where "(s, e) \<in> set rs" "p \<in> whole s e" by (auto simp: whole_frames_def)
  then have "{s..<e} \<subseteq> bytes rs" "{p * 4096..<p * 4096 + 4096} \<subseteq> {s..<e}"
    using whole_bytes [of p s e] unfolding bytes_def by fast+
  then show ?thesis by (rule order_trans [rotated])
qed

section \<open>Releasing the boot ranges\<close>

lemma release_each_ok:
  assumes "pmm_ok m" and "ranges_ok rs" and "bytes rs \<subseteq> {..<pmm_max_pfn m * 4096}"
    and "whole_frames rs \<subseteq> withheld m"
  shows "\<exists>m'. release_each (\<lambda>s e m. release_range m s e) rs m = Some m' \<and> released m m' (whole_frames rs)"
  using assms
proof (induction rs arbitrary: m)
  case Nil
  then show ?case by (simp add: whole_frames_def released_def same_globals_def)
next
  case (Cons r rs)
  obtain s e where r: "r = (s, e)" by fastforce
  have b: "pmm_max_pfn m < 2 ^ 52" using Cons.prems(1) by (simp add: pmm_ok_def bounds_ok_def)
  have rs: "ranges_ok rs" and dis: "{s..<e} \<inter> bytes rs = {}"
    using Cons.prems(2) ranges_ok_middle [of "[]" s e rs] by (auto simp: r)
  have wf: "whole_frames (r # rs) = whole s e \<union> whole_frames rs" by (simp add: whole_frames_def r)
  have apart: "whole s e \<inter> whole_frames rs = {}"
  proof (rule equals0I)
    fix p
    assume p: "p \<in> whole s e \<inter> whole_frames rs"
    have "p * 4096 \<in> {p * 4096..<p * 4096 + 4096}" by simp
    then have "p * 4096 \<in> {s..<e} \<inter> bytes rs" using p whole_bytes whole_frames_bytes by blast
    then show False using dis by blast
  qed
  have wh: "whole s e \<subseteq> withheld m" using Cons.prems(4) wf by blast
  obtain m1 where R: "(if e > s then release_range m (phys_to_pfn (page_align_up s)) (phys_to_pfn (page_align_down e))
      else Some m) = Some m1" "released m m1 (whole s e)"
  proof (cases "s < e")
    case True
    have "e - 1 \<in> bytes (r # rs)" using True unfolding r bytes_simps by auto
    then have e: "e \<le> pmm_max_pfn m * 4096" using Cons.prems(3) by fastforce
    then have "s + 4095 < W64" using True b by simp
    note F = released_frames [OF this, of e]
    have lim: "phys_to_pfn (page_align_down e) \<le> pmm_max_pfn m"
      using e by (simp add: phys_to_pfn_div page_align_down_def PAGE_SIZE_4096 align_down_div)
    show thesis
    proof (cases "phys_to_pfn (page_align_up s) \<le> phys_to_pfn (page_align_down e)")
      case True
      then show thesis
        using release_range_ok [OF Cons.prems(1) True lim] wh that \<open>s < e\<close> unfolding F by auto
    next
      case False
      then have "whole s e = {}" using F by auto
      moreover have "release_range m (phys_to_pfn (page_align_up s)) (phys_to_pfn (page_align_down e)) = Some m"
        using False by (subst release_range.simps) simp
      ultimately show thesis
        using that \<open>s < e\<close> Cons.prems(1) by (simp add: released_def same_globals_def)
    qed
  next
    case False
    then have "whole s e = {}" by (auto simp: whole_def)
    then show thesis using that False Cons.prems(1) by (simp add: released_def same_globals_def)
  qed
  note D = releasedD [OF R(2)]
  have "whole_frames rs \<subseteq> withheld m1" using D(3) apart Cons.prems(4) wf by blast
  moreover have "bytes rs \<subseteq> {..<pmm_max_pfn m1 * 4096}" using Cons.prems(3) D(6) by (simp add: r)
  ultimately obtain m' where "release_each (\<lambda>s e m. release_range m s e) rs m1 = Some m'"
      "released m1 m' (whole_frames rs)"
    using Cons.IH [OF D(1) rs] by blast
  then show ?case using R(1) released_trans [OF R(2)] unfolding wf by (auto simp: r)
qed

section \<open>Marking what the direct map does not reach\<close>

definition far_frames :: "paddr \<Rightarrow> mem_entry \<Rightarrow> pfn set" where
  "far_frames limit e =
     (if reclaimable e \<and> max (me_base e) limit < me_end e
      then {phys_to_pfn (max (me_base e) limit)..<phys_to_pfn (me_end e)} else {})"

lemma mark_deferred_ok:
  assumes "pmm_ok m" and "map_sorted mmap"
    and "fresh_frames m (\<Union>e \<in> set mmap. far_frames (pmm_hhdm_limit m) e)"
  shows "marked m (mark_deferred mmap m) (\<Union>e \<in> set mmap. far_frames (pmm_hhdm_limit m) e)"
  using assms
proof (induction mmap arbitrary: m)
  case Nil
  then show ?case by (simp add: mark_deferred_def marked_refl)
next
  case (Cons e mmap)
  let ?H = "pmm_hhdm_limit m"
  have sorted: "map_sorted mmap" and later: "\<forall>f \<in> set mmap. me_end e \<le> me_base f"
    using Cons.prems(2) by (auto simp: map_sorted_def)
  have mx: "(if me_base e < ?H then ?H else me_base e) = max (me_base e) ?H" by (simp add: max_def)
  define m1 where "m1 = (if \<not> reclaimable e then m else if max (me_base e) ?H \<ge> me_end e then m
       else fold mark_one [phys_to_pfn (max (me_base e) ?H)..<phys_to_pfn (me_end e)] m)"
  have step: "mark_deferred (e # mmap) m = mark_deferred mmap m1"
    by (simp only: mark_deferred_def m1_def Let_def mx foldl.simps)
  have M: "marked m m1 (far_frames ?H e)"
  proof (cases "reclaimable e \<and> max (me_base e) ?H < me_end e")
    case True
    then have "m1 = fold mark_one [phys_to_pfn (max (me_base e) ?H)..<phys_to_pfn (me_end e)] m"
      unfolding m1_def by (simp only: not_le if_not_P if_False simp_thms not_less [symmetric])
    moreover have "fresh_frames m (far_frames ?H e)" using Cons.prems(3) by (simp add: fresh_frames_def)
    ultimately show ?thesis
      using True fold_mark_one [OF Cons.prems(1), of "[phys_to_pfn (max (me_base e) ?H)..<phys_to_pfn (me_end e)]"]
      by (simp add: far_frames_def)
  next
    case False
    then have "m1 = m" unfolding m1_def by (metis not_le)
    moreover have "far_frames ?H e = {}" using False unfolding far_frames_def by (rule if_not_P)
    ultimately show ?thesis using Cons.prems(1) marked_refl by simp
  qed
  note D = markedD [OF M]
  have "far_frames ?H e \<inter> far_frames ?H f = {}" if "f \<in> set mmap" for f
  proof -
    have "me_end e div 4096 \<le> max (me_base f) ?H div 4096" using later that by (intro div_le_mono) auto
    then show ?thesis by (auto simp: far_frames_def phys_to_pfn_div)
  qed
  then have "p \<notin> far_frames ?H e" if "f \<in> set mmap" "p \<in> far_frames ?H f" for f p using that by blast
  then have "fresh_frames m1 (\<Union>f \<in> set mmap. far_frames (pmm_hhdm_limit m1) f)"
    using Cons.prems(3) D(7,8,9) by (auto simp: fresh_frames_def)
  then have "marked m1 (mark_deferred mmap m1) (\<Union>f \<in> set mmap. far_frames ?H f)"
    using Cons.IH [OF D(1) sorted] D(8) by simp
  from marked_trans [OF M this] show ?case by (simp add: step)
qed

section \<open>The whole of the initialisation\<close>

abbreviation limit_step :: "nat \<Rightarrow> mem_entry \<Rightarrow> nat" where
  "limit_step \<equiv> \<lambda>limit e. if \<not> bootinfo_mem_type_is_ram (me_type e) then limit
                       else if me_end e > limit then me_end e else limit"

lemma limit_fold:
  "acc \<le> foldl limit_step acc mmap
   \<and> (\<forall>e \<in> set mmap. bootinfo_mem_type_is_ram (me_type e) \<longrightarrow> me_end e \<le> foldl limit_step acc mmap)
   \<and> foldl limit_step acc mmap \<in> insert acc (me_end ` set mmap)"
proof (induction mmap arbitrary: acc)
  case (Cons e mmap)
  show ?case using Cons.IH [of "limit_step acc e"] by (auto split: if_splits)
qed simp

lemma reclaimable_ram: "reclaimable e \<Longrightarrow> bootinfo_mem_type_is_ram (me_type e)"
  by (auto simp: bootinfo_mem_type_is_ram_def)

lemma me_end_aligned: "mem_entry_valid e \<Longrightarrow> me_end e mod 4096 = 0"
proof -
  assume "mem_entry_valid e"
  then have "4096 dvd me_base e" "4096 dvd me_length e" by (simp_all add: mem_entry_valid_def mod_eq_0_iff_dvd)
  then have "(me_base e + me_length e) mod 4096 = 0" by (simp only: mod_eq_0_iff_dvd dvd_add)
  then show ?thesis by (simp add: u64_def mod_mod_cancel)
qed

lemma phys_limit_ok:
  assumes "map_sorted mmap"
  shows "bootinfo_phys_limit mmap mod 4096 = 0" and "bootinfo_phys_limit mmap < W64"
    and "e \<in> set mmap \<Longrightarrow> reclaimable e \<Longrightarrow> me_end e \<le> bootinfo_phys_limit mmap"
proof -
  have L: "bootinfo_phys_limit mmap = foldl limit_step 0 mmap" by (simp add: bootinfo_phys_limit_def)
  have "bootinfo_phys_limit mmap \<in> insert 0 (me_end ` set mmap)" using limit_fold [of 0 mmap] unfolding L by blast
  then show "bootinfo_phys_limit mmap mod 4096 = 0" "bootinfo_phys_limit mmap < W64"
    using assms me_end_aligned by (auto simp: map_sorted_def list_all_iff)
  show "me_end e \<le> bootinfo_phys_limit mmap" if "e \<in> set mmap" "reclaimable e"
    using limit_fold [of 0 mmap] that reclaimable_ram unfolding L by blast
qed

lemma phys_limit_frames:
  assumes "map_sorted mmap"
  shows "phys_to_pfn (page_align_up (bootinfo_phys_limit mmap)) * 4096 = bootinfo_phys_limit mmap"
    and "phys_to_pfn (page_align_up (bootinfo_phys_limit mmap)) < 2 ^ 52"
proof -
  let ?L = "bootinfo_phys_limit mmap"
  obtain n where n: "?L = 4096 * n" using phys_limit_ok(1) [OF assms] by (auto simp: mod_eq_0_iff_dvd)
  have "n < 2 ^ 52" using phys_limit_ok(2) [OF assms] unfolding n by simp
  then have "u64 (4095 + 4096 * n) = 4095 + 4096 * n" by (intro u64_id) simp
  then have "phys_to_pfn (page_align_up ?L) = (4095 + 4096 * n) div 4096"
    by (simp add: phys_to_pfn_div page_align_up_def PAGE_SIZE_4096 align_down_div n)
  also have "\<dots> = n" by simp
  finally have P: "phys_to_pfn (page_align_up ?L) = n" .
  show "phys_to_pfn (page_align_up ?L) * 4096 = ?L" unfolding P by (simp add: n)
  show "phys_to_pfn (page_align_up ?L) < 2 ^ 52" unfolding P by fact
qed

lemma usable_below_limit:
  assumes "map_sorted mmap"
  shows "(\<Union>e \<in> set mmap. usable_part lim e) \<subseteq> {..<bootinfo_phys_limit mmap} \<inter> {..<lim}"
proof (rule UN_least)
  fix e
  assume e: "e \<in> set mmap"
  show "usable_part lim e \<subseteq> {..<bootinfo_phys_limit mmap} \<inter> {..<lim}"
    using phys_limit_ok(3) [OF assms e] by (auto simp: usable_part_def)
qed

lemma far_fresh:
  assumes "map_sorted mmap" and "n * 4096 = bootinfo_phys_limit mmap"
  shows "fresh_frames (boot_pmm m n) (\<Union>e \<in> set mmap. far_frames lim e)"
  unfolding fresh_frames_def
proof (rule ballI)
  fix p
  assume "p \<in> (\<Union>e \<in> set mmap. far_frames lim e)"
  then obtain e where e: "e \<in> set mmap" "reclaimable e" "p < me_end e div 4096"
    by (auto simp: far_frames_def phys_to_pfn_div split: if_splits)
  have "me_end e div 4096 \<le> n * 4096 div 4096"
    unfolding assms(2) using phys_limit_ok(3) [OF assms(1) e(1,2)] by (rule div_le_mono)
  then show "p < pmm_max_pfn (boot_pmm m n) \<and> is_reserved (boot_pmm m n) p \<and> \<not> is_deferred (boot_pmm m n) p"
    using e(3) by (simp add: boot_pmm_fields)
qed

lemma far_not_whole:
  assumes "bytes rs \<subseteq> {..<lim}"
  shows "far_frames lim e \<inter> whole_frames rs = {}"
proof (rule equals0I)
  fix p
  assume p: "p \<in> far_frames lim e \<inter> whole_frames rs"
  then have "p * 4096 + 4095 \<in> bytes rs" using whole_frames_bytes [of p rs] by auto
  then have "p * 4096 + 4096 \<le> lim" using assms by (auto simp: subset_iff)
  then have "p < lim div 4096" by (simp add: less_eq_div_iff_mult_less_eq Suc_le_eq [symmetric])
  moreover have "max (me_base e) lim div 4096 \<le> p"
    using p by (auto simp: far_frames_def phys_to_pfn_div split: if_splits)
  moreover have "lim div 4096 \<le> max (me_base e) lim div 4096" by (intro div_le_mono) simp
  ultimately show False by linarith
qed

lemma set_initialized [simp]:
  "pmm_ok (m\<lparr>g_initialized := b\<rparr>) = pmm_ok m" "pmm_free (m\<lparr>g_initialized := b\<rparr>) = pmm_free m"
  "flagged (m\<lparr>g_initialized := b\<rparr>) f = flagged m f"
  by (simp_all add: pmm_ok_def bounds_ok_def counts_ok_def flagged_def zones_ok_def pmm_free_def)

lemma released_boot:
  assumes "map_sorted mmap" and "n = phys_to_pfn (page_align_up (bootinfo_phys_limit mmap))"
    and "ranges_ok rs" and "bytes rs \<subseteq> (\<Union>e \<in> set mmap. usable_part (pmm_hhdm_limit m) e)"
  shows "\<exists>m'. release_each (\<lambda>s e m. release_range m s e) rs (mark_deferred mmap (boot_pmm m n)) = Some m'
    \<and> pmm_ok m' \<and> pmm_free m' = whole_frames rs \<and> pmm_max_pfn m' = n
    \<and> flagged m' PG_DEFERRED = (\<Union>e \<in> set mmap. far_frames (pmm_hhdm_limit m) e)"
proof -
  let ?F = "\<Union>e \<in> set mmap. far_frames (pmm_hhdm_limit m) e"
  have n: "n * 4096 = bootinfo_phys_limit mmap" "n < 2 ^ 52"
    using phys_limit_frames [OF assms(1)] by (simp_all add: assms(2))
  note B = boot_pmm_ok [OF n(2), of m]
  have "marked (boot_pmm m n) (mark_deferred mmap (boot_pmm m n)) ?F"
    using mark_deferred_ok [OF B(1) assms(1)] far_fresh [OF assms(1) n(1)] by (simp add: boot_pmm_fields)
  note M = markedD [OF this]
  have b: "bytes rs \<subseteq> {..<n * 4096}" "bytes rs \<subseteq> {..<pmm_hhdm_limit m}"
    using assms(4) usable_below_limit [OF assms(1)] unfolding n(1) by blast+
  have "whole_frames rs \<subseteq> {..<n}"
  proof
    fix p
    assume "p \<in> whole_frames rs"
    then have "p * 4096 \<in> bytes rs" using whole_frames_bytes [of p rs] by auto
    then show "p \<in> {..<n}" using b(1) by auto
  qed
  then obtain m' where R: "release_each (\<lambda>s e m. release_range m s e) rs (mark_deferred mmap (boot_pmm m n)) = Some m'"
      "released (mark_deferred mmap (boot_pmm m n)) m' (whole_frames rs)"
    using release_each_ok [OF M(1) assms(3)] b(1) by (auto simp: M(2,7) B(3) boot_pmm_fields)
  have "flagged (boot_pmm m n) PG_DEFERRED = {}" by (simp add: flagged_def boot_pmm_fields)
  moreover have "?F \<inter> whole_frames rs = {}" using far_not_whole [OF b(2)] by blast
  ultimately have "flagged m' PG_DEFERRED = ?F" using releasedD(4) [OF R(2)] M(5) by auto
  then show ?thesis
    using R(1) releasedD(1,2,6) [OF R(2)] M(3,7) B(2) by (simp add: boot_pmm_fields)
qed


definition demo_info :: boot_info where
  "demo_info = \<lparr>bi_hhdm_size = 0x380000, bi_kernel_phys_base = 0x400000, bi_kernel_size = 0x200000,
     bi_map = demo_map\<rparr>"

lemma demo_boot_ranges:
  "bootmem_init demo_map 0x380000 =
     Some \<lparr>g_ranges = [(0x100000, 0x380000)], g_allocated_bytes = 0, g_sealed = False\<rparr>"
  by (simp add: bootmem_init_def demo_map_def add_range_def mem_type_defs BOOTMEM_LOW_LIMIT_def
      BOOTMEM_MAX_RANGES_def u64_id)

lemma demo_phys_limit: "bootinfo_phys_limit demo_map = 0x600000"
  by (simp add: bootinfo_phys_limit_def demo_map_def bootinfo_mem_type_is_ram_def mem_type_defs u64_id)


end
