(* ===== verification/Slab.thy ===== *)
theory Slab
  imports Pmm_Contract
begin

text \<open>
  The object caches (\<open>kernel/memory/slab.c\<close>, \<open>kernel/memory/slab.h\<close>): slabs of two to the power of
  an order frames, each with a header, a bitmap of free slots and equal slots, and the caches that
  own them.

  A pointer into the direct map is the physical address it maps; the null pointer is \<open>None\<close>. A
  slab is named by its first frame, where its header stands. The lists \<open>partial\<close>, \<open>full\<close> and
  \<open>empty\<close> are the sequences of slabs the intrusive lists hold, and a slab's link is in one of them.
  A cache is named by where its structure is: the static cache of caches, or an object of that
  cache. Headers and cache structures are records; the words of the frames hold the objects. Each
  critical section of a cache lock is one step.
\<close>

section \<open>Bytes of the direct map\<close>

definition byte_of :: "nat \<Rightarrow> nat \<Rightarrow> nat" where
  "byte_of w i = (w div 256 ^ i) mod 256"

definition get_byte :: "pmm \<Rightarrow> paddr \<Rightarrow> nat" where
  "get_byte m a = byte_of (frame_words m (a div 4096) (a mod 4096 div 8)) (a mod 8)"

fun word_of_bytes :: "nat list \<Rightarrow> nat" where
  "word_of_bytes [] = 0"
| "word_of_bytes (b # bs) = b mod 256 + 256 * word_of_bytes bs"

definition put_bytes :: "pmm \<Rightarrow> paddr \<Rightarrow> nat list \<Rightarrow> pmm" where
  "put_bytes m a bs = m\<lparr>frame_words := (\<lambda>p k.
     let wa = p * 4096 + k * 8; w = frame_words m p k in
     if k \<ge> 512 \<or> wa + 8 \<le> a \<or> a + length bs \<le> wa then w
     else word_of_bytes (map (\<lambda>i. if a \<le> wa + i \<and> wa + i < a + length bs then bs ! (wa + i - a)
                                  else byte_of w i) [0..<8]))\<rparr>"

definition memset0 :: "pmm \<Rightarrow> paddr \<Rightarrow> nat \<Rightarrow> pmm" where
  "memset0 m a n = put_bytes m a (replicate n 0)"

definition memcpy :: "pmm \<Rightarrow> paddr \<Rightarrow> paddr \<Rightarrow> nat \<Rightarrow> pmm" where
  "memcpy m dst src n = put_bytes m dst (map (get_byte m) [src..<src + n])"

section \<open>Slabs and caches\<close>

definition SLAB_MIN_OBJECTS :: nat where "SLAB_MIN_OBJECTS = 8"
definition SLAB_MAX_ORDER :: nat where "SLAB_MAX_ORDER = 3"
definition SLAB_KEEP_EMPTY :: nat where "SLAB_KEEP_EMPTY = 2"
definition KMEM_ZERO :: "32 word" where "KMEM_ZERO = flag 0"
definition KMALLOC_MIN_ALIGN :: nat where "KMALLOC_MIN_ALIGN = 16"

text \<open>The sizes of the two structures on a 64-bit machine.\<close>

definition sizeof_slab :: nat where "sizeof_slab = 48"
definition sizeof_kmem_cache :: nat where "sizeof_kmem_cache = 168"

datatype cref = Cache_Cache | Cache_At paddr

record slab =
  sl_cache :: cref
  sl_page :: pfn
  sl_objects :: paddr
  sl_free_count :: nat
  sl_next_hint :: nat
  sl_bitmap :: "64 word list"

record kmem_cache =
  kc_name :: string
  kc_object_size :: nat
  kc_align :: nat
  kc_slot_size :: nat
  kc_slab_order :: nat
  kc_objects_per_slab :: nat
  kc_header_size :: nat
  kc_partial :: "pfn list"
  kc_full :: "pfn list"
  kc_empty :: "pfn list"
  kc_nr_slabs :: nat
  kc_nr_empty :: nat
  kc_nr_allocated :: nat
  kc_nr_allocs :: nat
  kc_nr_frees :: nat

record kheap =
  hp_pmm :: pmm
  hp_slabs :: "pfn \<rightharpoonup> slab"
  hp_caches :: "cref \<rightharpoonup> kmem_cache"
  g_caches :: "cref list"

section \<open>The layout of a slab\<close>

definition align_up_size :: "nat \<Rightarrow> nat \<Rightarrow> nat" where
  "align_up_size x a = align_down (u64 (x + a - 1)) a"

definition header_bytes :: "nat \<Rightarrow> nat \<Rightarrow> nat" where
  "header_bytes objects algn = align_up_size (sizeof_slab + u32 (objects + 63) div 64 * 8) algn"

text \<open>The inner loop of \<open>layout\<close>: fewer objects until header and objects fit.\<close>

fun fit_objects :: "nat \<Rightarrow> nat \<Rightarrow> nat \<Rightarrow> nat \<Rightarrow> nat" where
  "fit_objects nbytes slot algn 0 = 0"
| "fit_objects nbytes slot algn (Suc n) =
     (if u64 (header_bytes (Suc n) algn + u64 (Suc n * slot)) > nbytes then fit_objects nbytes slot algn n
      else Suc n)"

fun layout_loop :: "nat \<Rightarrow> nat \<Rightarrow> nat list \<Rightarrow> (nat \<times> nat \<times> nat) option" where
  "layout_loop slot algn [] = None"
| "layout_loop slot algn (ord # ords) =
     (let nbytes = PAGE_SIZE * 2 ^ ord;
          objects = fit_objects nbytes slot algn (u32 (sub64 nbytes (header_bytes 1 algn) div slot))
      in if objects = 0 then layout_loop slot algn ords
         else if objects \<ge> SLAB_MIN_OBJECTS \<or> ord = SLAB_MAX_ORDER
           then Some (ord, objects, header_bytes objects algn)
         else layout_loop slot algn ords)"

definition layout :: "nat \<Rightarrow> nat \<Rightarrow> (nat \<times> nat \<times> nat) option" where
  "layout slot algn = layout_loop slot algn [0..<Suc SLAB_MAX_ORDER]"

definition cache_init :: "string \<Rightarrow> nat \<Rightarrow> nat \<Rightarrow> kmem_cache" where
  "cache_init nm object_size algn =
     \<lparr>kc_name = nm, kc_object_size = object_size, kc_align = algn,
      kc_slot_size = align_up_size object_size algn, kc_slab_order = 0, kc_objects_per_slab = 0,
      kc_header_size = 0, kc_partial = [], kc_full = [], kc_empty = [], kc_nr_slabs = 0,
      kc_nr_empty = 0, kc_nr_allocated = 0, kc_nr_allocs = 0, kc_nr_frees = 0\<rparr>"

text \<open>A cache, or none where the code returns false.\<close>

definition cache_setup :: "string \<Rightarrow> nat \<Rightarrow> nat \<Rightarrow> kmem_cache option" where
  "cache_setup nm object_size align0 =
     (let algn = (if align0 = 0 then KMALLOC_MIN_ALIGN else align0) in
      if algn AND (algn - 1) \<noteq> 0 \<or> algn < KMALLOC_MIN_ALIGN \<or> object_size = 0 then None
      else let kc = cache_init nm object_size algn in
      case layout (kc_slot_size kc) algn of
        None \<Rightarrow> None
      | Some (ord, objects, header) \<Rightarrow>
          Some (kc\<lparr>kc_slab_order := ord, kc_objects_per_slab := objects, kc_header_size := header\<rparr>))"

section \<open>The life of a slab\<close>

abbreviation set_pages :: "'a kheap_scheme \<Rightarrow> (pfn \<Rightarrow> page) \<Rightarrow> 'a kheap_scheme" where
  "set_pages h ps \<equiv> h\<lparr>hp_pmm := (hp_pmm h)\<lparr>pages := ps\<rparr>\<rparr>"

abbreviation set_cache :: "'a kheap_scheme \<Rightarrow> cref \<Rightarrow> kmem_cache \<Rightarrow> 'a kheap_scheme" where
  "set_cache h c kc \<equiv> h\<lparr>hp_caches := (hp_caches h)(c \<mapsto> kc)\<rparr>"

definition bitmap_words :: "nat \<Rightarrow> nat" where
  "bitmap_words n = u32 (n + 63) div 64"

definition full_bitmap :: "nat \<Rightarrow> 64 word list" where
  "full_bitmap n =
     (let ws = replicate (bitmap_words n) (- 1) in
      if n mod 64 \<noteq> 0 then ws[bitmap_words n - 1 := push_bit (n mod 64) 1 - 1] else ws)"

definition new_slab :: "cref \<Rightarrow> kmem_cache \<Rightarrow> pfn \<Rightarrow> slab" where
  "new_slab c kc p =
     \<lparr>sl_cache = c, sl_page = p, sl_objects = u64 (page_to_phys p + kc_header_size kc),
      sl_free_count = kc_objects_per_slab kc, sl_next_hint = 0,
      sl_bitmap = full_bitmap (kc_objects_per_slab kc)\<rparr>"

text \<open>Every frame of a slab names it, from the loops of \<open>slab_grow\<close> and \<open>slab_release\<close>.\<close>

definition slab_mark :: "pmm \<Rightarrow> pfn \<Rightarrow> nat \<Rightarrow> pfn \<Rightarrow> page" where
  "slab_mark m p k = (\<lambda>q. if p \<le> q \<and> q < p + 2 ^ k
     then (pages m q)\<lparr>pg_flags := pg_flags (pages m q) OR PG_SLAB, pg_slab := Some p\<rparr> else pages m q)"

definition slab_unmark :: "pmm \<Rightarrow> pfn \<Rightarrow> nat \<Rightarrow> pfn \<Rightarrow> page" where
  "slab_unmark m p k = (\<lambda>q. if p \<le> q \<and> q < p + 2 ^ k
     then (pages m q)\<lparr>pg_flags := pg_flags (pages m q) AND NOT PG_SLAB, pg_slab := None\<rparr> else pages m q)"

definition slab_grow :: "'a kheap_scheme \<Rightarrow> cref \<Rightarrow> ('a kheap_scheme \<times> pfn option) option" where
  "slab_grow h c = do {
     kc \<leftarrow> hp_caches h c;
     (m, r) \<leftarrow> pmm_alloc_pages (hp_pmm h) (kc_slab_order kc) 0;
     let h = h\<lparr>hp_pmm := m\<rparr>;
     (case r of
        None \<Rightarrow> Some (h, None)
      | Some p \<Rightarrow> do {
          let h = set_pages h (slab_mark m p (kc_slab_order kc));
          let h = h\<lparr>hp_slabs := (hp_slabs h)(p \<mapsto> new_slab c kc p)\<rparr>;
          Some (set_cache h c (kc\<lparr>kc_nr_slabs := u32 (kc_nr_slabs kc + 1)\<rparr>), Some p)
        })
   }"

text \<open>\<open>pc\<close> is the address of the code that frees, which a debug build stamps on the frames.\<close>

definition slab_release :: "'a kheap_scheme \<Rightarrow> cref \<Rightarrow> pfn \<Rightarrow> nat \<Rightarrow> 'a kheap_scheme option" where
  "slab_release h c p pc = do {
     kc \<leftarrow> hp_caches h c;
     sl \<leftarrow> hp_slabs h p;
     kassert (sl_free_count sl = kc_objects_per_slab kc);
     let pg = sl_page sl;
     let h = set_pages h (slab_unmark (hp_pmm h) pg (kc_slab_order kc));
     let h = set_cache h c (kc\<lparr>kc_nr_slabs := sub32 (kc_nr_slabs kc) 1\<rparr>);
     m \<leftarrow> pmm_free_pages (hp_pmm h) pg (kc_slab_order kc) pc;
     Some (h\<lparr>hp_pmm := m, hp_slabs := (hp_slabs h)(p := None)\<rparr>)
   }"

text \<open>The scan of \<open>slab_take_slot\<close> over the words of the bitmap.\<close>

fun take_from :: "slab \<Rightarrow> nat \<Rightarrow> nat list \<Rightarrow> (slab \<times> nat) option" where
  "take_from sl words [] = None"
| "take_from sl words (n # ns) =
     (let w = u32 (sl_next_hint sl + n) mod words; b = sl_bitmap sl ! w in
      if b = 0 then take_from sl words ns
      else let i = ctz64 b in
        Some (sl\<lparr>sl_bitmap := (sl_bitmap sl)[w := b AND NOT (push_bit i 1)],
                 sl_free_count := sub32 (sl_free_count sl) 1, sl_next_hint := w\<rparr>, w * 64 + i))"

definition slab_take_slot :: "kmem_cache \<Rightarrow> slab \<Rightarrow> (slab \<times> nat) option" where
  "slab_take_slot kc sl =
     (let words = bitmap_words (kc_objects_per_slab kc) in take_from sl words [0..<words])"

section \<open>Allocating and freeing objects\<close>

text \<open>Unlinking a slab from the list it is in.\<close>

definition unlink_slab :: "pfn \<Rightarrow> kmem_cache \<Rightarrow> kmem_cache" where
  "unlink_slab p kc = kc\<lparr>kc_partial := remove1 p (kc_partial kc), kc_full := remove1 p (kc_full kc),
     kc_empty := remove1 p (kc_empty kc)\<rparr>"

text \<open>The slab \<open>kmem_cache_alloc\<close> takes a slot from: a partial one, an empty one, or a new one.\<close>

definition pick_slab :: "'a kheap_scheme \<Rightarrow> cref \<Rightarrow> ('a kheap_scheme \<times> pfn option) option" where
  "pick_slab h c = do {
     kc \<leftarrow> hp_caches h c;
     (case kc_partial kc of
        p # _ \<Rightarrow> Some (h, Some p)
      | [] \<Rightarrow>
        (case kc_empty kc of
           p # _ \<Rightarrow>
             (let kc = unlink_slab p kc; kc = kc\<lparr>kc_nr_empty := sub32 (kc_nr_empty kc) 1\<rparr>
              in Some (set_cache h c (kc\<lparr>kc_partial := p # kc_partial kc\<rparr>), Some p))
         | [] \<Rightarrow> do {
             (h, r) \<leftarrow> slab_grow h c;
             (case r of
                None \<Rightarrow> Some (h, None)
              | Some p \<Rightarrow> do {
                  kc \<leftarrow> hp_caches h c;
                  Some (set_cache h c (kc\<lparr>kc_partial := p # kc_partial kc\<rparr>), Some p)
                })
           }))
   }"

text \<open>\<open>fi\<close> is what fault injection answers at the call.\<close>

definition kmem_cache_alloc ::
    "'a kheap_scheme \<Rightarrow> cref \<Rightarrow> 32 word \<Rightarrow> bool \<Rightarrow> ('a kheap_scheme \<times> paddr option) option" where
  "kmem_cache_alloc h c flags fi =
     (if fi then Some (h, None)
      else do {
        (h, r) \<leftarrow> pick_slab h c;
        (case r of
           None \<Rightarrow> Some (h, None)
         | Some p \<Rightarrow> do {
             kc \<leftarrow> hp_caches h c;
             sl \<leftarrow> hp_slabs h p;
             (sl, idx) \<leftarrow> slab_take_slot kc sl;
             let h = h\<lparr>hp_slabs := (hp_slabs h)(p \<mapsto> sl)\<rparr>;
             let kc = (if sl_free_count sl = 0
                       then let kc = unlink_slab p kc in kc\<lparr>kc_full := p # kc_full kc\<rparr> else kc);
             let kc = kc\<lparr>kc_nr_allocated := u64 (kc_nr_allocated kc + 1), kc_nr_allocs := u64 (kc_nr_allocs kc + 1)\<rparr>;
             let h = set_cache h c kc;
             let obj = u64 (sl_objects sl + idx * kc_slot_size kc);
             let h = (if has flags KMEM_ZERO
                      then h\<lparr>hp_pmm := memset0 (hp_pmm h) obj (kc_object_size kc)\<rparr> else h);
             Some (h, Some obj)
           })
      })"

definition slab_of :: "'a kheap_scheme \<Rightarrow> paddr \<Rightarrow> pfn option" where
  "slab_of h obj =
     (case phys_to_page (hp_pmm h) obj of
        None \<Rightarrow> None
      | Some q \<Rightarrow>
          if \<not> has (pg_flags (pages (hp_pmm h) q)) PG_SLAB then None else pg_slab (pages (hp_pmm h) q))"

definition kmem_cache_free :: "'a kheap_scheme \<Rightarrow> cref \<Rightarrow> paddr \<Rightarrow> nat \<Rightarrow> 'a kheap_scheme option" where
  "kmem_cache_free h c obj pc = do {
     p \<leftarrow> slab_of h obj;
     sl \<leftarrow> hp_slabs h p;
     kassert (sl_cache sl = c);
     kc \<leftarrow> hp_caches h c;
     let off = sub64 obj (sl_objects sl);
     kassert (\<not> (off mod kc_slot_size kc \<noteq> 0 \<or> off div kc_slot_size kc \<ge> kc_objects_per_slab kc));
     let idx = u32 (off div kc_slot_size kc);
     let w = sl_bitmap sl ! (idx div 64);
     kassert (w AND push_bit (idx mod 64) 1 = 0);
     let sl = sl\<lparr>sl_bitmap := (sl_bitmap sl)[idx div 64 := w OR push_bit (idx mod 64) 1],
                 sl_free_count := u32 (sl_free_count sl + 1)\<rparr>;
     let h = h\<lparr>hp_slabs := (hp_slabs h)(p \<mapsto> sl)\<rparr>;
     let kc = kc\<lparr>kc_nr_allocated := sub64 (kc_nr_allocated kc) 1, kc_nr_frees := u64 (kc_nr_frees kc + 1)\<rparr>;
     let kc = (if sl_free_count sl = 1
               then let kc = unlink_slab p kc in kc\<lparr>kc_partial := p # kc_partial kc\<rparr> else kc);
     if sl_free_count sl = kc_objects_per_slab kc
     then (let kc = unlink_slab p kc in
           if kc_nr_empty kc < SLAB_KEEP_EMPTY
           then Some (set_cache h c (kc\<lparr>kc_empty := p # kc_empty kc, kc_nr_empty := u32 (kc_nr_empty kc + 1)\<rparr>))
           else slab_release (set_cache h c kc) c p pc)
     else Some (set_cache h c kc)
   }"

section \<open>Creating and destroying caches\<close>

definition kmem_cache_create ::
    "'a kheap_scheme \<Rightarrow> string \<Rightarrow> nat \<Rightarrow> nat \<Rightarrow> bool \<Rightarrow> nat \<Rightarrow> ('a kheap_scheme \<times> cref option) option" where
  "kmem_cache_create h nm object_size algn fi pc = do {
     (h, r) \<leftarrow> kmem_cache_alloc h Cache_Cache KMEM_ZERO fi;
     (case r of
        None \<Rightarrow> Some (h, None)
      | Some a \<Rightarrow>
          (case cache_setup nm object_size algn of
             None \<Rightarrow> do {
               h \<leftarrow> kmem_cache_free h Cache_Cache a pc;
               Some (h, None)
             }
           | Some kc \<Rightarrow>
               Some ((set_cache h (Cache_At a) kc)\<lparr>g_caches := g_caches h @ [Cache_At a]\<rparr>, Some (Cache_At a))))
   }"

fun release_empty :: "'a kheap_scheme \<Rightarrow> cref \<Rightarrow> pfn list \<Rightarrow> nat \<Rightarrow> 'a kheap_scheme option" where
  "release_empty h c [] pc = Some h"
| "release_empty h c (p # ps) pc = do {
     kc \<leftarrow> hp_caches h c;
     let kc = unlink_slab p kc;
     let h = set_cache h c (kc\<lparr>kc_nr_empty := sub32 (kc_nr_empty kc) 1\<rparr>);
     h \<leftarrow> slab_release h c p pc;
     release_empty h c ps pc
   }"

text \<open>
  The structure of a destroyed cache goes back to the cache of caches. The static cache is not an
  object of any slab, so destroying it would panic in \<open>kmem_cache_free\<close>.
\<close>

definition kmem_cache_destroy :: "'a kheap_scheme \<Rightarrow> cref \<Rightarrow> nat \<Rightarrow> 'a kheap_scheme option" where
  "kmem_cache_destroy h c pc = do {
     kc \<leftarrow> hp_caches h c;
     kassert (kc_nr_allocated kc = 0);
     kassert (kc_partial kc = [] \<and> kc_full kc = []);
     h \<leftarrow> release_empty h c (kc_empty kc) pc;
     let h = h\<lparr>g_caches := remove1 c (g_caches h)\<rparr>;
     (case c of
        Cache_Cache \<Rightarrow> None
      | Cache_At a \<Rightarrow> do {
          h \<leftarrow> kmem_cache_free h Cache_Cache a pc;
          Some (h\<lparr>hp_caches := (hp_caches h)(c := None)\<rparr>)
        })
   }"

definition kmem_cache_pages :: "kmem_cache \<Rightarrow> nat" where
  "kmem_cache_pages kc = u64 (kc_nr_slabs kc * 2 ^ kc_slab_order kc)"

definition slab_bootstrap :: "'a kheap_scheme \<Rightarrow> 'a kheap_scheme option" where
  "slab_bootstrap h = do {
     kc \<leftarrow> cache_setup ''kmem_cache'' sizeof_kmem_cache 0;
     Some ((set_cache h Cache_Cache kc)\<lparr>g_caches := g_caches h @ [Cache_Cache]\<rparr>)
   }"

definition slab_total_pages :: "'a kheap_scheme \<Rightarrow> nat" where
  "slab_total_pages h =
     foldl (\<lambda>total c. case hp_caches h c of None \<Rightarrow> total | Some kc \<Rightarrow> u64 (total + kmem_cache_pages kc))
       0 (g_caches h)"

end
