(* ===== verification/Slab_Inv.thy ===== *)
theory Slab_Inv
  imports Slab
begin

text \<open>
  What the object caches keep true: the layout fits, a bitmap is the set of free slots, the three
  lists hold every slab of their cache by its number of free slots, and the frames of a slab are in
  its hands. The properties of allocation and freeing rest on these.
\<close>

section \<open>Bytes\<close>

lemma byte_of_word: "i < length bs \<Longrightarrow> byte_of (word_of_bytes bs) i = bs ! i mod 256"
proof (induction bs arbitrary: i)
  case (Cons b bs)
  show ?case
  proof (cases i)
    case 0
    then show ?thesis by (simp add: byte_of_def)
  next
    case (Suc j)
    have "word_of_bytes (b # bs) div 256 ^ i = (b mod 256 + 256 * word_of_bytes bs) div 256 div 256 ^ j"
      by (simp only: Suc power_Suc div_mult2_eq word_of_bytes.simps)
    also have "(b mod 256 + 256 * word_of_bytes bs) div 256 = word_of_bytes bs" by simp
    finally show ?thesis using Cons by (simp add: byte_of_def Suc)
  qed
qed simp

lemma get_put_byte:
  "get_byte (put_bytes m a bs) x = (if a \<le> x \<and> x < a + length bs then bs ! (x - a) mod 256 else get_byte m x)"
proof -
  define p k i where "p = x div 4096" and "k = x mod 4096 div 8" and "i = x mod 8"
  have ik: "k < 512" "i < 8" by (auto simp: k_def i_def)
  have "x mod 4096 mod 8 = x mod 8" by (simp add: mod_mod_cancel)
  then have "x mod 4096 = k * 8 + i" unfolding k_def i_def by (metis div_mult_mod_eq)
  then have x: "p * 4096 + k * 8 + i = x" unfolding p_def by (metis add.assoc div_mult_mod_eq)
  show ?thesis
  proof (cases "p * 4096 + k * 8 + 8 \<le> a \<or> a + length bs \<le> p * 4096 + k * 8")
    case True
    then have "\<not> (a \<le> x \<and> x < a + length bs)" using ik x by linarith
    then show ?thesis using True by (auto simp: get_byte_def put_bytes_def p_def k_def Let_def)
  next
    case False
    let ?w = "frame_words m p k"
    let ?f = "\<lambda>i. if a \<le> p * 4096 + k * 8 + i \<and> p * 4096 + k * 8 + i < a + length bs
        then bs ! (p * 4096 + k * 8 + i - a) else byte_of ?w i"
    have "get_byte (put_bytes m a bs) x = byte_of (word_of_bytes (map ?f [0..<8])) i"
      using False ik by (simp add: get_byte_def put_bytes_def p_def [symmetric] k_def [symmetric] i_def [symmetric]
          Let_def del: upt_rec_numeral)
    also have "\<dots> = ?f i mod 256" using ik by (subst byte_of_word) (simp_all del: upt_rec_numeral)
    also have "\<dots> = (if a \<le> x \<and> x < a + length bs then bs ! (x - a) mod 256 else get_byte m x)"
      unfolding x by (simp add: get_byte_def p_def k_def i_def byte_of_def)
    finally show ?thesis .
  qed
qed

lemma put_bytes_fields [simp]:
  "pages (put_bytes m a bs) = pages m" "zones (put_bytes m a bs) = zones m"
  "pmm_max_pfn (put_bytes m a bs) = pmm_max_pfn m" "g_reserved_pages (put_bytes m a bs) = g_reserved_pages m"
  "g_deferred_pages (put_bytes m a bs) = g_deferred_pages m" "g_initialized (put_bytes m a bs) = g_initialized m"
  "pmm_hhdm_limit (put_bytes m a bs) = pmm_hhdm_limit m" "config_debug (put_bytes m a bs) = config_debug m"
  by (simp_all add: put_bytes_def)

lemma put_bytes_frame:
  assumes "q * 4096 + 4096 \<le> a \<or> a + length bs \<le> q * 4096"
  shows "frame_words (put_bytes m a bs) q = frame_words m q"
  using assms by (auto simp: put_bytes_def Let_def fun_eq_iff)

lemma put_bytes_inv:
  assumes "pmm_inv m"
    and "\<And>q. has (pg_flags (pages m q)) PG_POISONED \<Longrightarrow> q * 4096 + 4096 \<le> a \<or> a + length bs \<le> q * 4096"
  shows "pmm_inv (put_bytes m a bs)"
proof -
  have i: "pmm_ok m" "poison_ok m" "g_initialized m" "mapped_all m" "clean_free m"
    using assms(1) by (auto simp: pmm_inv_def)
  have "pmm_ok (put_bytes m a bs)" using i(1) by (rule pmm_ok_pages_cong(1)) simp_all
  moreover have "poison_ok (put_bytes m a bs)" using i(2) put_bytes_frame assms(2) by (simp add: poison_ok_def)
  moreover have "clean_free (put_bytes m a bs)" using i(5) by (simp add: clean_free_def pmm_free_def)
  ultimately show ?thesis using i by (simp add: pmm_inv_def mapped_all_def)
qed

section \<open>The layout\<close>

lemma power_of_two:
  assumes "0 < (n::nat)" and "n AND (n - 1) = 0"
  shows "\<exists>k. n = 2 ^ k"
proof -
  obtain k where k: "2 ^ k \<le> n" "n < 2 ^ (k + 1)" using ex_power_ivl1 [of 2 n] assms(1) by auto
  have top: "bit x k" if "2 ^ k \<le> x" "x < 2 ^ (k + 1)" for x :: nat
  proof -
    have "x div 2 ^ k = 1" using that by (intro div_nat_eqI) auto
    then show ?thesis by (simp add: bit_iff_odd)
  qed
  have "n = 2 ^ k"
  proof (rule ccontr)
    assume "n \<noteq> 2 ^ k"
    then have "2 ^ k \<le> n - 1" "n - 1 < 2 ^ (k + 1)" using k by auto
    then have "bit (n AND (n - 1)) k" using top k by (simp add: bit_and_iff)
    then show False using assms(2) by simp
  qed
  then show ?thesis ..
qed

lemma align_up_size_ok:
  assumes "0 < a" and "x + a < W64"
  shows "a dvd align_up_size x a" and "x \<le> align_up_size x a" and "align_up_size x a < x + a"
proof -
  have "u64 (x + a - 1) = x + a - 1" using assms by (intro u64_id) linarith
  then have e: "align_up_size x a = align_up x a" by (simp add: align_up_size_def align_up_def)
  show "a dvd align_up_size x a" "x \<le> align_up_size x a" "align_up_size x a < x + a"
    unfolding e using align_up_ge [OF assms(1)] align_up_less [OF assms(1)] by simp_all
qed

lemma u32_le: "u32 n \<le> n" by (simp add: u32_def)

lemma header_bytes_ok:
  assumes "0 < algn" and "algn \<le> 2 ^ 30"
  shows "algn dvd header_bytes n algn" and "sizeof_slab \<le> header_bytes n algn" and "header_bytes n algn \<le> 2 ^ 31"
proof -
  have "u32 (n + 63) div 64 * 8 < 2 ^ 29" using u32_less [of "n + 63"] by (simp add: div_less_iff_less_mult)
  then have x: "sizeof_slab + u32 (n + 63) div 64 * 8 \<le> 2 ^ 30" by (simp add: sizeof_slab_def)
  moreover have "sizeof_slab + u32 (n + 63) div 64 * 8 + algn < W64" using x assms(2) by simp
  note A = align_up_size_ok [OF assms(1) this, folded header_bytes_def]
  moreover have "(2::nat) ^ 31 = 2 ^ 30 + 2 ^ 30" by simp
  ultimately show "header_bytes n algn \<le> 2 ^ 31" using A(3) assms(2) by linarith
  show "algn dvd header_bytes n algn" by (rule A(1))
  show "sizeof_slab \<le> header_bytes n algn" using A(2) by linarith
qed

lemma fit_objects_ok:
  assumes "0 < algn" and "algn \<le> 2 ^ 30" and "slot \<le> 2 ^ 31" and "n < W32"
  shows "fit_objects nbytes slot algn n \<le> n
    \<and> (0 < fit_objects nbytes slot algn n \<longrightarrow>
         header_bytes (fit_objects nbytes slot algn n) algn + fit_objects nbytes slot algn n * slot \<le> nbytes)"
  using assms(4)
proof (induction n)
  case (Suc n)
  have "Suc n * slot \<le> W32 * 2 ^ 31" using Suc.prems assms(3) by (intro mult_mono) simp_all
  then have "header_bytes (Suc n) algn + Suc n * slot < W64" "Suc n * slot < W64"
    using header_bytes_ok(3) [OF assms(1,2), of "Suc n"] by simp_all
  then have "u64 (header_bytes (Suc n) algn + u64 (Suc n * slot)) = header_bytes (Suc n) algn + Suc n * slot"
    by (simp add: u64_id)
  then show ?case using Suc by (auto simp: not_less)
qed simp

lemma layout_loop_ok:
  assumes "0 < algn" and "algn \<le> 2 ^ 30" and "slot \<le> 2 ^ 31" and "layout_loop slot algn ords = Some (ord, n, hb)"
  shows "ord \<in> set ords \<and> 0 < n \<and> hb = header_bytes n algn \<and> hb + n * slot \<le> 4096 * 2 ^ ord"
  using assms(4)
proof (induction ords)
  case (Cons k ords)
  define n0 where "n0 = fit_objects (PAGE_SIZE * 2 ^ k) slot algn
      (u32 (sub64 (PAGE_SIZE * 2 ^ k) (header_bytes 1 algn) div slot))"
  have f: "0 < n0 \<longrightarrow> header_bytes n0 algn + n0 * slot \<le> 4096 * 2 ^ k"
    using fit_objects_ok [OF assms(1-3) u32_less] unfolding n0_def by (simp add: PAGE_SIZE_def PAGE_SHIFT_def)
  have e: "layout_loop slot algn (k # ords) = (if n0 = 0 then layout_loop slot algn ords
      else if n0 \<ge> SLAB_MIN_OBJECTS \<or> k = SLAB_MAX_ORDER then Some (k, n0, header_bytes n0 algn)
      else layout_loop slot algn ords)"
    by (simp add: n0_def Let_def)
  show ?case using Cons f unfolding e by (auto split: if_splits)
qed simp

text \<open>What every cache's shape satisfies.\<close>

definition cache_wf :: "kmem_cache \<Rightarrow> bool" where
  "cache_wf kc \<longleftrightarrow>
     kc_slab_order kc \<le> SLAB_MAX_ORDER \<and> 0 < kc_objects_per_slab kc \<and> 0 < kc_object_size kc
     \<and> kc_object_size kc \<le> kc_slot_size kc \<and> KMALLOC_MIN_ALIGN \<le> kc_slot_size kc
     \<and> sizeof_slab \<le> kc_header_size kc
     \<and> kc_header_size kc + kc_objects_per_slab kc * kc_slot_size kc \<le> 4096 * 2 ^ kc_slab_order kc
     \<and> kc_align kc dvd kc_slot_size kc \<and> kc_align kc dvd kc_header_size kc
     \<and> kc_align kc dvd 4096 * 2 ^ kc_slab_order kc"

lemma cache_wf_bounds:
  assumes "cache_wf kc"
  shows "kc_objects_per_slab kc \<le> 2048" and "kc_slab_order kc \<le> 3" and "16 \<le> kc_slot_size kc"
    and "kc_header_size kc + kc_objects_per_slab kc * kc_slot_size kc \<le> 32768"
    and "kc_slab_order kc < PMM_MAX_ORDER"
proof -
  show k: "kc_slab_order kc \<le> 3" and s: "16 \<le> kc_slot_size kc"
    using assms by (auto simp: cache_wf_def SLAB_MAX_ORDER_def KMALLOC_MIN_ALIGN_def)
  then show "kc_slab_order kc < PMM_MAX_ORDER" by (simp add: PMM_MAX_ORDER_def)
  have "(4096::nat) * 2 ^ kc_slab_order kc \<le> 4096 * 2 ^ 3" using k by (intro mult_left_mono power_increasing) auto
  then show b: "kc_header_size kc + kc_objects_per_slab kc * kc_slot_size kc \<le> 32768"
    using assms by (simp add: cache_wf_def)
  have "kc_objects_per_slab kc * 16 \<le> kc_objects_per_slab kc * kc_slot_size kc" using s by (intro mult_left_mono) auto
  then show "kc_objects_per_slab kc \<le> 2048" using b by linarith
qed

lemma layout_sound:
  assumes "0 < algn" and "algn \<le> 2 ^ 30" and "slot \<le> 2 ^ 31" and "layout slot algn = Some (ord, n, hb)"
  shows "ord \<le> SLAB_MAX_ORDER" and "0 < n" and "hb = header_bytes n algn" and "hb + n * slot \<le> 4096 * 2 ^ ord"
proof -
  have "ord \<in> set [0..<Suc SLAB_MAX_ORDER] \<and> 0 < n \<and> hb = header_bytes n algn \<and> hb + n * slot \<le> 4096 * 2 ^ ord"
    using assms(4) unfolding layout_def by (rule layout_loop_ok [OF assms(1-3)])
  then show "ord \<le> SLAB_MAX_ORDER" "0 < n" "hb = header_bytes n algn" "hb + n * slot \<le> 4096 * 2 ^ ord"
    unfolding set_upt by auto
qed

lemma cache_setup_ok:
  assumes "cache_setup nm sz align0 = Some kc" and "sz \<le> 2 ^ 30" and "align0 \<le> 2 ^ 30"
  shows "cache_wf kc" and "kc_object_size kc = sz" and "kc_align kc = (if align0 = 0 then KMALLOC_MIN_ALIGN else align0)"
    and "kc_partial kc = []" and "kc_full kc = []" and "kc_empty kc = []" and "kc_nr_slabs kc = 0"
    and "kc_nr_empty kc = 0" and "kc_nr_allocated kc = 0"
proof -
  define a where "a = (if align0 = 0 then KMALLOC_MIN_ALIGN else align0)"
  have g: "a AND (a - 1) = 0" "KMALLOC_MIN_ALIGN \<le> a" "0 < sz"
    using assms(1) by (auto simp: cache_setup_def Let_def a_def [symmetric] split: if_splits)
  then have a: "0 < a" "a \<le> 2 ^ 30" using assms(3) by (auto simp: a_def KMALLOC_MIN_ALIGN_def)
  obtain ord n hb where l: "layout (align_up_size sz a) a = Some (ord, n, hb)"
      and kc: "kc = (cache_init nm sz a)\<lparr>kc_slab_order := ord, kc_objects_per_slab := n, kc_header_size := hb\<rparr>"
    using assms(1) g by (auto simp: cache_setup_def Let_def a_def [symmetric] cache_init_def split: if_splits option.splits)
  have "sz + a < W64" using a assms(2) by simp
  note S = align_up_size_ok [OF a(1) this]
  have "(2::nat) ^ 31 = 2 ^ 30 + 2 ^ 30" by simp
  then have "align_up_size sz a \<le> 2 ^ 31" using S(3) a(2) assms(2) by linarith
  note L = layout_sound [OF a this l]
  note H = header_bytes_ok [OF a, of n, folded L(3)]
  obtain k where k: "a = 2 ^ k" using power_of_two [OF a(1) g(1)] by blast
  have "a \<le> hb" using H(1,2) by (intro dvd_imp_le) (auto simp: sizeof_slab_def)
  then have "2 ^ k \<le> (2::nat) ^ (12 + ord)" using L(4) by (simp add: k power_add)
  then have "k \<le> 12 + ord" by (simp only: power_increasing_iff [of 2 k] numeral_2_eq_2) simp
  then have "a dvd 2 ^ (12 + ord)" unfolding k by (rule le_imp_power_dvd)
  then have ad: "a dvd 4096 * 2 ^ ord" by (simp add: power_add)
  have "a \<le> align_up_size sz a" using S(1,2) g(3) by (intro dvd_imp_le) auto
  then show "cache_wf kc"
    using S H L g ad by (simp add: cache_wf_def kc cache_init_def)
  show "kc_object_size kc = sz" "kc_align kc = (if align0 = 0 then KMALLOC_MIN_ALIGN else align0)"
    "kc_partial kc = []" "kc_full kc = []" "kc_empty kc = []" "kc_nr_slabs kc = 0" "kc_nr_empty kc = 0"
    "kc_nr_allocated kc = 0"
    by (simp_all add: kc cache_init_def a_def)
qed

section \<open>Bitmaps\<close>

definition bits_of :: "64 word list \<Rightarrow> nat set" where
  "bits_of ws = {i. i div 64 < length ws \<and> bit (ws ! (i div 64)) (i mod 64)}"

lemma bits_of_bound: "bits_of ws \<subseteq> {..<64 * length ws}"
  by (auto simp: bits_of_def div_less_iff_less_mult mult.commute)

lemma finite_bits_of [simp]: "finite (bits_of ws)"
  by (rule finite_subset [OF bits_of_bound]) simp

lemma slot_eq: "i = w * 64 + b \<longleftrightarrow> i div 64 = w \<and> i mod 64 = b" if "b < 64" for i w b :: nat
proof
  assume "i div 64 = w \<and> i mod 64 = b"
  then show "i = w * 64 + b" using div_mult_mod_eq [of i 64] by simp
qed (use that in simp)

lemma bits_of_clear:
  assumes "w < length ws" and "b < 64"
  shows "bits_of (ws[w := ws ! w AND NOT (push_bit b 1)]) = bits_of ws - {w * 64 + b}"
proof (rule set_eqI)
  fix i
  have "bit (ws ! w AND NOT (push_bit b 1)) j \<longleftrightarrow> bit (ws ! w) j \<and> j \<noteq> b" if "j < 64" for j
    using that by (auto simp: bit_and_iff bit_not_iff bit_push_bit_iff bit_1_iff simp del: push_bit_of_1)
  then show "i \<in> bits_of (ws[w := ws ! w AND NOT (push_bit b 1)]) \<longleftrightarrow> i \<in> bits_of ws - {w * 64 + b}"
    using assms(1) slot_eq [OF assms(2), of i w] by (cases "i div 64 = w") (auto simp: bits_of_def)
qed

lemma bits_of_set:
  assumes "w < length ws" and "b < 64"
  shows "bits_of (ws[w := ws ! w OR push_bit b 1]) = insert (w * 64 + b) (bits_of ws)"
proof (rule set_eqI)
  fix i
  have "bit (ws ! w OR push_bit b 1) j \<longleftrightarrow> bit (ws ! w) j \<or> j = b" if "j < 64" for j
    using that by (auto simp: bit_or_iff bit_push_bit_iff bit_1_iff simp del: push_bit_of_1)
  then show "i \<in> bits_of (ws[w := ws ! w OR push_bit b 1]) \<longleftrightarrow> i \<in> insert (w * 64 + b) (bits_of ws)"
    using assms(1) slot_eq [OF assms(2), of i w] by (cases "i div 64 = w") (auto simp: bits_of_def)
qed

lemma bitmap_words_bound: "n \<le> 2048 \<Longrightarrow> bitmap_words n = (n + 63) div 64"
  by (simp add: bitmap_words_def u32_id)

lemma full_bitmap_bits:
  assumes "0 < n" and "n \<le> 2048"
  shows "bits_of (full_bitmap n) = {..<n}" and "length (full_bitmap n) = bitmap_words n"
proof -
  show len: "length (full_bitmap n) = bitmap_words n" by (simp add: full_bitmap_def Let_def)
  define q t where "q = n div 64" and "t = n mod 64"
  have n: "n = 64 * q + t" and t64: "t < 64" by (simp_all add: q_def t_def)
  have W: "bitmap_words n = (if t = 0 then q else Suc q)"
  proof (cases t)
    case 0
    have "(q * 64 + 63) div 64 = q" by simp
    then show ?thesis using 0 n assms(2) by (simp add: bitmap_words_bound mult.commute)
  next
    case (Suc s)
    then have "s < 64" using t64 by simp
    then have "(64 * Suc q + s) div 64 = Suc q" by (simp only: div_mult_self4 div_less)
    moreover have "n + 63 = 64 * Suc q + s" using n Suc by simp
    ultimately show ?thesis using Suc assms(2) by (simp add: bitmap_words_bound)
  qed
  have nth: "full_bitmap n ! w = (if t \<noteq> 0 \<and> w = q then mask t else - 1)" if "w < bitmap_words n" for w
  proof -
    have "t \<noteq> 0 \<Longrightarrow> bitmap_words n - 1 = q" using W by simp
    then show ?thesis
      using that by (auto simp: full_bitmap_def Let_def nth_list_update mask_eq_exp_minus_1 t_def [symmetric])
  qed
  show "bits_of (full_bitmap n) = {..<n}"
  proof (rule set_eqI)
    fix i :: nat
    define a b where "a = i div 64" and "b = i mod 64"
    have i: "i = 64 * a + b" and b: "b < 64" by (simp_all add: a_def b_def)
    have lt: "i < n \<longleftrightarrow> a < q \<or> a = q \<and> b < t"
      unfolding i n using b t64 by (cases a q rule: linorder_cases) linarith+
    have "i \<in> bits_of (full_bitmap n) \<longleftrightarrow> a < bitmap_words n \<and> (if t \<noteq> 0 \<and> a = q then b < t else True)"
      using nth [of a] b t64
      by (auto simp: bits_of_def a_def [symmetric] b_def [symmetric] len bit_mask_iff split: if_splits)
    then show "i \<in> bits_of (full_bitmap n) \<longleftrightarrow> i \<in> {..<n}" using lt W by auto
  qed
qed

definition slab_ok :: "kmem_cache \<Rightarrow> pfn \<Rightarrow> slab \<Rightarrow> bool" where
  "slab_ok kc p sl \<longleftrightarrow>
     sl_page sl = p \<and> sl_objects sl = p * 4096 + kc_header_size kc
     \<and> length (sl_bitmap sl) = bitmap_words (kc_objects_per_slab kc)
     \<and> bits_of (sl_bitmap sl) \<subseteq> {..<kc_objects_per_slab kc}
     \<and> sl_free_count sl = card (bits_of (sl_bitmap sl))
     \<and> sl_next_hint sl < bitmap_words (kc_objects_per_slab kc)"

lemma slab_free_bound: "slab_ok kc p sl \<Longrightarrow> sl_free_count sl \<le> kc_objects_per_slab kc"
  using card_mono [of "{..<kc_objects_per_slab kc}" "bits_of (sl_bitmap sl)"] by (simp add: slab_ok_def)

lemma take_from_cases:
  assumes "0 < words" and "length (sl_bitmap sl) = words"
  shows "(take_from sl words ns = None \<and> (\<forall>n \<in> set ns. sl_bitmap sl ! (u32 (sl_next_hint sl + n) mod words) = 0))
    \<or> (\<exists>i. take_from sl words ns = Some (sl\<lparr>
          sl_bitmap := (sl_bitmap sl)[i div 64 := sl_bitmap sl ! (i div 64) AND NOT (push_bit (i mod 64) 1)],
          sl_free_count := sub32 (sl_free_count sl) 1, sl_next_hint := i div 64\<rparr>, i) \<and> i \<in> bits_of (sl_bitmap sl))"
proof (induction ns)
  case (Cons n ns)
  define w where "w = u32 (sl_next_hint sl + n) mod words"
  show ?case
  proof (cases "sl_bitmap sl ! w = 0")
    case True
    then show ?thesis using Cons by (simp add: w_def Let_def)
  next
    case False
    define i where "i = w * 64 + ctz64 (sl_bitmap sl ! w)"
    note C = ctz64_bit [OF False]
    have i: "i div 64 = w" "i mod 64 = ctz64 (sl_bitmap sl ! w)" using C by (simp_all add: i_def)
    have "i \<in> bits_of (sl_bitmap sl)" using assms C unfolding bits_of_def mem_Collect_eq i by (simp add: w_def)
    then show ?thesis using False by (intro disjI2 exI [of _ i]) (simp add: i w_def [symmetric] Let_def i_def [symmetric])
  qed
qed simp

lemma slab_take_ok:
  assumes "slab_ok kc p sl" and "cache_wf kc" and "0 < sl_free_count sl"
  shows "\<exists>sl' i. slab_take_slot kc sl = Some (sl', i) \<and> slab_ok kc p sl' \<and> sl_cache sl' = sl_cache sl
    \<and> i \<in> bits_of (sl_bitmap sl) \<and> bits_of (sl_bitmap sl') = bits_of (sl_bitmap sl) - {i}
    \<and> sl_free_count sl' = sl_free_count sl - 1"
proof -
  let ?n = "kc_objects_per_slab kc"
  define words where "words = bitmap_words ?n"
  have n: "0 < ?n" "?n \<le> 2048" using assms(2) cache_wf_bounds(1) by (auto simp: cache_wf_def)
  have S: "length (sl_bitmap sl) = words" "bits_of (sl_bitmap sl) \<subseteq> {..<?n}" "sl_next_hint sl < words"
      "sl_free_count sl = card (bits_of (sl_bitmap sl))"
    using assms(1) by (auto simp: slab_ok_def words_def)
  have w: "0 < words" "words \<le> 33" using S(3) n by (auto simp: words_def bitmap_words_bound)
  obtain j where j: "j \<in> bits_of (sl_bitmap sl)" using assms(3) S(4) by (auto simp: card_gt_0_iff)
  define d where "d = (j div 64 + words - sl_next_hint sl) mod words"
  have jw: "j div 64 < words" using j S(1) by (auto simp: bits_of_def)
  have "(sl_next_hint sl + d) mod words = (sl_next_hint sl + (j div 64 + words - sl_next_hint sl)) mod words"
    unfolding d_def by (simp add: mod_add_right_eq)
  also have "\<dots> = j div 64" using S(3) jw by simp
  finally have e: "(sl_next_hint sl + d) mod words = j div 64" .
  have d: "d < words" using w(1) by (simp add: d_def)
  then have "u32 (sl_next_hint sl + d) = sl_next_hint sl + d" using S(3) w(2) by (intro u32_id) simp
  then have "u32 (sl_next_hint sl + d) mod words = j div 64" "d \<in> set [0..<words]" using e d by simp_all
  moreover have "sl_bitmap sl ! (j div 64) \<noteq> 0" using j by (auto simp: bits_of_def)
  ultimately have "\<not> (\<forall>n \<in> set [0..<words]. sl_bitmap sl ! (u32 (sl_next_hint sl + n) mod words) = 0)" by metis
  then obtain i where T: "slab_take_slot kc sl = Some (sl\<lparr>
          sl_bitmap := (sl_bitmap sl)[i div 64 := sl_bitmap sl ! (i div 64) AND NOT (push_bit (i mod 64) 1)],
          sl_free_count := sub32 (sl_free_count sl) 1, sl_next_hint := i div 64\<rparr>, i)"
      and i: "i \<in> bits_of (sl_bitmap sl)"
    using take_from_cases [OF w(1) S(1), of "[0..<words]"]
    unfolding slab_take_slot_def words_def [symmetric] Let_def by blast
  have iw: "i div 64 < length (sl_bitmap sl)" using i by (simp add: bits_of_def)
  have B: "bits_of ((sl_bitmap sl)[i div 64 := sl_bitmap sl ! (i div 64) AND NOT (push_bit (i mod 64) 1)])
      = bits_of (sl_bitmap sl) - {i}"
    using bits_of_clear [OF iw, of "i mod 64"] by simp
  have "sl_free_count sl \<le> 2048" using slab_free_bound [OF assms(1)] n by linarith
  then have fc: "sub32 (sl_free_count sl) 1 = sl_free_count sl - 1" using assms(3) by (simp add: sub32_id)
  define sl' where "sl' = sl\<lparr>
          sl_bitmap := (sl_bitmap sl)[i div 64 := sl_bitmap sl ! (i div 64) AND NOT (push_bit (i mod 64) 1)],
          sl_free_count := sub32 (sl_free_count sl) 1, sl_next_hint := i div 64\<rparr>"
  have f: "bits_of (sl_bitmap sl') = bits_of (sl_bitmap sl) - {i}" "sl_free_count sl' = sl_free_count sl - 1"
      "length (sl_bitmap sl') = words" "sl_next_hint sl' = i div 64" "sl_cache sl' = sl_cache sl"
      "sl_page sl' = sl_page sl" "sl_objects sl' = sl_objects sl"
    using B fc S(1) by (simp_all add: sl'_def)
  have "slab_ok kc p sl'"
    unfolding slab_ok_def f using assms(1) S i iw by (auto simp: slab_ok_def words_def)
  then show ?thesis using T [folded sl'_def] i f by blast
qed

section \<open>The frames of slabs\<close>

lemma live_disjoint:
  assumes "live m p k" and "live m p' k'" and "p \<noteq> p'"
  shows "span p k \<inter> span p' k' = {}"
proof (rule ccontr)
  assume x: "span p k \<inter> span p' k' \<noteq> {}"
  have d: "2 ^ k dvd p" "2 ^ k' dvd p'" using assms(1,2) by (auto simp: live_def block_ok_def)
  have r: "pg_refcount (pages m p) = 1" "pg_refcount (pages m p') = 1" using assms(1,2) by (auto simp: live_def)
  have "p' \<notin> span p k" "p \<notin> span p' k'" using assms r by (auto simp: live_def)
  then show False using x assms(3) unfolding span_def by auto
qed

definition slab_frame :: "pmm \<Rightarrow> pfn \<Rightarrow> pfn \<Rightarrow> bool" where
  "slab_frame m p q \<longleftrightarrow>
     has (pg_flags (pages m q)) PG_SLAB \<and> pg_slab (pages m q) = Some p
     \<and> \<not> has (pg_flags (pages m q)) PG_KMALLOC_LARGE \<and> \<not> has (pg_flags (pages m q)) PG_PAGETABLE
     \<and> \<not> has (pg_flags (pages m q)) PG_POISONED"

text \<open>The set \<open>B\<close> of slabs, each with its order, are in the caches' hands, and no other frame is.\<close>

definition frames_ok :: "pmm \<Rightarrow> (pfn \<times> nat) set \<Rightarrow> bool" where
  "frames_ok m B \<longleftrightarrow> pmm_inv m
     \<and> (\<forall>(p, k) \<in> B. live m p k \<and> (\<forall>q \<in> span p k. slab_frame m p q))
     \<and> (\<forall>q. has (pg_flags (pages m q)) PG_SLAB \<longrightarrow> (\<exists>(p, k) \<in> B. q \<in> span p k))"

lemma frames_okD:
  assumes "frames_ok m B"
  shows "pmm_inv m" and "(p, k) \<in> B \<Longrightarrow> live m p k" and "(p, k) \<in> B \<Longrightarrow> q \<in> span p k \<Longrightarrow> slab_frame m p q"
    and "has (pg_flags (pages m q)) PG_SLAB \<Longrightarrow> \<exists>p k. (p, k) \<in> B \<and> q \<in> span p k"
  using assms unfolding frames_ok_def by blast+

text \<open>Rewriting descriptors in a way the manager does not see.\<close>

definition quiet :: "pmm \<Rightarrow> (pfn \<Rightarrow> page) \<Rightarrow> bool" where
  "quiet m ps \<longleftrightarrow>
     (\<forall>q. pg_order (ps q) = pg_order (pages m q) \<and> pg_refcount (ps q) = pg_refcount (pages m q)
        \<and> (\<forall>j \<in> {0, 1, 5, 6}. bit (pg_flags (ps q)) j = bit (pg_flags (pages m q)) j)
        \<and> (q \<in> pmm_free m \<longrightarrow> ps q = pages m q))"

lemma quiet_ok:
  assumes "pmm_inv m" and "quiet m ps"
  shows "pmm_inv (m\<lparr>pages := ps\<rparr>)" and "live (m\<lparr>pages := ps\<rparr>) x j = live m x j"
    and "pmm_free (m\<lparr>pages := ps\<rparr>) = pmm_free m"
proof -
  let ?m = "m\<lparr>pages := ps\<rparr>"
  have i: "pmm_ok m" "poison_ok m" "g_initialized m" "mapped_all m" "clean_free m"
    using assms(1) by (auto simp: pmm_inv_def)
  have q: "pg_order (ps q) = pg_order (pages m q)" "pg_refcount (ps q) = pg_refcount (pages m q)"
      "bit (pg_flags (ps q)) 0 = bit (pg_flags (pages m q)) 0" "bit (pg_flags (ps q)) 1 = bit (pg_flags (pages m q)) 1"
      "bit (pg_flags (ps q)) 5 = bit (pg_flags (pages m q)) 5" "bit (pg_flags (ps q)) 6 = bit (pg_flags (pages m q)) 6"
      "q \<in> pmm_free m \<Longrightarrow> ps q = pages m q" for q
    using assms(2) by (simp_all add: quiet_def)
  have ok: "pmm_ok ?m"
    using i(1) by (rule pmm_ok_pages_cong(1)) (use q in auto)
  show f: "pmm_free ?m = pmm_free m" by (simp add: pmm_free_def)
  have "poison_ok ?m" using i(2) q(6) by (simp add: poison_ok_def PG_defs flag_simps)
  moreover have "clean_free ?m" using i(5) q(7) by (simp add: clean_free_def f)
  ultimately show "pmm_inv ?m" using ok i(3,4) by (simp add: pmm_inv_def mapped_all_def)
  have "pmm_managed ?m = pmm_managed m" using q(3,5) by (simp add: pmm_managed_def PG_defs flag_simps)
  then show "live ?m x j = live m x j" using q(1,2) f by (simp add: live_def)
qed

lemma in_span: "q \<in> span p k \<longleftrightarrow> p \<le> q \<and> q < p + 2 ^ k"
  by (simp add: span_def)

lemma frames_grow:
  assumes ok: "frames_ok m B" and a: "pmm_alloc_pages m k 0 = Some (m1, Some p)"
  shows "frames_ok (m1\<lparr>pages := slab_mark m1 p k\<rparr>) (insert (p, k) B)" and "(p, j) \<notin> B"
    and "\<forall>q. q \<notin> span p k \<longrightarrow> frame_words m1 q = frame_words m q"
proof -
  note F = frames_okD [OF ok]
  note A = pmm_alloc_inv [OF F(1) a]
  have k: "k < PMM_MAX_ORDER" using a by (auto simp: pmm_alloc_pages_def split: if_splits)
  have i: "pmm_ok m" "poison_ok m" "g_initialized m" "mapped_all m" "clean_free m"
    using F(1) by (auto simp: pmm_inv_def)
  have al: "alloc_ok m m1 p k 0" using alloc_pages_total [OF i(1-3) k, of 0] i(4) a by auto
  then have K: "kept_flags m m1" "same_globals m m1" "pmm_ok m1"
      "\<forall>q. q \<notin> pmm_free m \<longrightarrow> pages m1 q = pages m q"
      "\<forall>q \<in> span p k. \<not> has (pg_flags (pages m1 q)) PG_POISONED"
    by (auto simp: alloc_ok_def)
  show "\<forall>q. q \<notin> span p k \<longrightarrow> frame_words m1 q = frame_words m q" using al by (simp add: alloc_ok_def)
  let ?ps = "slab_mark m1 p k"
  have Q: "quiet m1 ?ps"
    using A(3) by (auto simp: quiet_def slab_mark_def in_span [symmetric] PG_defs flag_simps)
  note C = quiet_ok [OF A(1) Q]
  have away: "span x j \<inter> pmm_free m = {}" if "(x, j) \<in> B" for x j using F(2) [OF that] by (auto simp: live_def)
  then show "(p, j) \<notin> B" using A(2) span_self by blast
  have old: "live m1 x j \<and> (\<forall>q \<in> span x j. ?ps q = pages m q)" if "(x, j) \<in> B" for x j
  proof
    show "live m1 x j"
      using i(1) K(2-4) away [OF that] A(3)
      by (intro live_frame [OF F(2) [OF that]]) (auto simp: pmm_ok_def same_globals_def)
    show "\<forall>q \<in> span x j. ?ps q = pages m q"
      using away [OF that] A(2) K(4) by (auto simp: slab_mark_def in_span [symmetric])
  qed
  have new: "slab_frame (m1\<lparr>pages := ?ps\<rparr>) p q" if "q \<in> span p k" for q
  proof -
    have "unowned m q" using that A(2) i(5) by (auto simp: clean_free_def)
    then have "unowned m1 q" using kept_unowned [OF K(1)] by simp
    then show ?thesis
      using that K(5) by (simp add: slab_frame_def slab_mark_def in_span [symmetric] PG_defs flag_simps)
  qed
  have flag: "has (pg_flags (?ps q)) PG_SLAB \<Longrightarrow> q \<in> span p k \<or> has (pg_flags (pages m q)) PG_SLAB" for q
    using K(1) by (auto simp: slab_mark_def in_span [symmetric] kept_flags_def PG_defs flag_simps split: if_splits)
  have "live m1 p k" using A(4) by (simp add: pmm_holds_def)
  then show "frames_ok (m1\<lparr>pages := ?ps\<rparr>) (insert (p, k) B)"
    unfolding frames_ok_def using C(1,2) old new F(3,4) flag by (fastforce simp: slab_frame_def)
qed

lemma frames_release:
  assumes ok: "frames_ok m B" and p: "(p, k) \<in> B"
  shows "\<exists>m'. pmm_free_pages (m\<lparr>pages := slab_unmark m p k\<rparr>) p k pc = Some m' \<and> frames_ok m' (B - {(p, k)})
    \<and> (\<forall>q. q \<notin> span p k \<longrightarrow> frame_words m' q = frame_words m q)
    \<and> pmm_free m' = pmm_free m \<union> span p k \<and> same_globals m m'
    \<and> (\<forall>q. q \<notin> pmm_free m \<union> span p k \<longrightarrow> pages m' q = pages m q)
    \<and> (\<forall>q. has (pg_flags (pages m' q)) PG_KMALLOC_LARGE = has (pg_flags (pages m q)) PG_KMALLOC_LARGE)"
proof -
  note F = frames_okD [OF ok]
  let ?ps = "slab_unmark m p k"
  let ?m = "m\<lparr>pages := ?ps\<rparr>"
  have away: "span p k \<inter> pmm_free m = {}" using F(2) [OF p] by (auto simp: live_def)
  have Q: "quiet m ?ps"
    using away by (auto simp: quiet_def slab_unmark_def in_span [symmetric] PG_defs flag_simps)
  note C = quiet_ok [OF F(1) Q]
  have i: "pmm_ok ?m" "poison_ok ?m" "g_initialized ?m" "clean_free ?m" "mapped_all ?m"
    using C(1) by (auto simp: pmm_inv_def)
  have un: "unowned ?m q" if "q \<in> span p k" for q
    using F(3) [OF p that] that by (simp add: slab_frame_def slab_unmark_def in_span [symmetric] PG_defs flag_simps)
  have l: "live ?m p k" using F(2) [OF p] C(2) by simp
  obtain m' where R: "pmm_free_pages ?m p k pc = Some m'" "pmm_ok m'" "poison_ok m'" "same_globals ?m m'"
      "pmm_free m' = pmm_free ?m \<union> span p k" "\<forall>q. q \<notin> span p k \<longrightarrow> frame_words m' q = frame_words ?m q"
      "\<forall>q. q \<notin> pmm_free ?m \<union> span p k \<longrightarrow> pages m' q = pages ?m q" "kept_flags ?m m'"
    by (rule free_pages_total [OF i(1-3) l un [OF span_self]])
  have un': "unowned m' q = unowned ?m q" for q by (rule kept_unowned [OF R(8)])
  have "clean_free m'" using i(4) un un' R(5) by (auto simp: clean_free_def)
  then have inv: "pmm_inv m'" using R(2-4) i(3,5) by (simp add: pmm_inv_def same_globals_def mapped_all_def)
  have rest: "live m' x j \<and> (\<forall>q \<in> span x j. pages m' q = pages m q)" if "(x, j) \<in> B - {(p, k)}" for x j
  proof -
    have lx: "live m x j" using that F(2) by blast
    have "x \<noteq> p" using that lx F(2) [OF p] by (auto simp: live_def)
    then have dis: "span x j \<inter> span p k = {}" by (rule live_disjoint [OF lx F(2) [OF p]])
    have dm: "span x j \<inter> pmm_free m = {}" using lx by (auto simp: live_def)
    have eq: "\<forall>q \<in> span x j. pages m' q = pages m q"
      using R(7) dis dm C(3) by (auto simp: slab_unmark_def in_span [symmetric])
    moreover have "live m' x j"
      using F(1) R(2,4,5) dis dm C(3) eq
      by (intro live_frame [OF lx]) (auto simp: pmm_inv_def pmm_ok_def same_globals_def)
    ultimately show ?thesis by blast
  qed
  have flag: "has (pg_flags (pages m' q)) PG_SLAB \<Longrightarrow> q \<notin> span p k \<and> has (pg_flags (pages m q)) PG_SLAB" for q
    using R(8) by (auto simp: slab_unmark_def in_span [symmetric] kept_flags_def PG_defs flag_simps split: if_splits)
  have "\<exists>(x, j) \<in> B - {(p, k)}. q \<in> span x j" if "has (pg_flags (pages m' q)) PG_SLAB" for q
    using flag [OF that] F(4) [of q] by blast
  then have "frames_ok m' (B - {(p, k)})"
    unfolding frames_ok_def using inv rest F(3) by (fastforce simp: slab_frame_def)
  moreover have "same_globals m m'" using R(4) by (simp add: same_globals_def)
  moreover have "\<forall>q. q \<notin> pmm_free m \<union> span p k \<longrightarrow> pages m' q = pages m q"
    using R(7) C(3) by (simp add: slab_unmark_def in_span [symmetric])
  moreover have "\<forall>q. has (pg_flags (pages m' q)) PG_KMALLOC_LARGE = has (pg_flags (pages m q)) PG_KMALLOC_LARGE"
    using R(8) by (simp add: kept_flags_def slab_unmark_def PG_defs flag_simps)
  ultimately show ?thesis using R(1,5,6) C(3) by simp
qed

section \<open>The invariant of the heap\<close>

definition slabs_of :: "(pfn \<rightharpoonup> slab) \<Rightarrow> cref \<Rightarrow> pfn set" where
  "slabs_of slabs c = {p. \<exists>sl. slabs p = Some sl \<and> sl_cache sl = c}"

definition live_slots :: "(pfn \<rightharpoonup> slab) \<Rightarrow> cref \<Rightarrow> nat \<Rightarrow> (pfn \<times> nat) set" where
  "live_slots slabs c n =
     {(p, i). \<exists>sl. slabs p = Some sl \<and> sl_cache sl = c \<and> i < n \<and> i \<notin> bits_of (sl_bitmap sl)}"

definition slab_lists :: "kmem_cache \<Rightarrow> pfn list" where
  "slab_lists kc = kc_partial kc @ kc_full kc @ kc_empty kc"

definition free_of :: "(pfn \<rightharpoonup> slab) \<Rightarrow> pfn \<Rightarrow> nat" where
  "free_of slabs p = (case slabs p of None \<Rightarrow> 0 | Some sl \<Rightarrow> sl_free_count sl)"

text \<open>
  A slab in \<open>X\<close> has just been put on the partial list, maybe with all its slots free; between
  operations \<open>X\<close> is empty.
\<close>

definition cache_ok :: "pfn set \<Rightarrow> (pfn \<rightharpoonup> slab) \<Rightarrow> cref \<Rightarrow> kmem_cache \<Rightarrow> bool" where
  "cache_ok X slabs c kc \<longleftrightarrow>
     cache_wf kc \<and> distinct (slab_lists kc) \<and> set (slab_lists kc) = slabs_of slabs c
     \<and> (\<forall>p \<in> set (kc_partial kc). 0 < free_of slabs p \<and> (free_of slabs p < kc_objects_per_slab kc \<or> p \<in> X))
     \<and> (\<forall>p \<in> set (kc_full kc). free_of slabs p = 0)
     \<and> (\<forall>p \<in> set (kc_empty kc). free_of slabs p = kc_objects_per_slab kc)
     \<and> kc_nr_slabs kc = u32 (length (slab_lists kc)) \<and> kc_nr_empty kc = length (kc_empty kc)
     \<and> length (kc_empty kc) \<le> SLAB_KEEP_EMPTY
     \<and> kc_nr_allocated kc = u64 (card (live_slots slabs c (kc_objects_per_slab kc)))"

definition store_ok :: "pfn set \<Rightarrow> (pfn \<rightharpoonup> slab) \<Rightarrow> (cref \<rightharpoonup> kmem_cache) \<Rightarrow> bool" where
  "store_ok X slabs caches \<longleftrightarrow>
     (\<forall>p sl. slabs p = Some sl \<longrightarrow> (\<exists>kc. caches (sl_cache sl) = Some kc \<and> slab_ok kc p sl))
     \<and> (\<forall>c kc. caches c = Some kc \<longrightarrow> cache_ok X slabs c kc)"

definition slab_blocks :: "(pfn \<rightharpoonup> slab) \<Rightarrow> (cref \<rightharpoonup> kmem_cache) \<Rightarrow> (pfn \<times> nat) set" where
  "slab_blocks slabs caches =
     {(p, k). \<exists>sl kc. slabs p = Some sl \<and> caches (sl_cache sl) = Some kc \<and> k = kc_slab_order kc}"

definition heap_ok :: "pfn set \<Rightarrow> 'a kheap_scheme \<Rightarrow> bool" where
  "heap_ok X h \<longleftrightarrow> store_ok X (hp_slabs h) (hp_caches h)
     \<and> frames_ok (hp_pmm h) (slab_blocks (hp_slabs h) (hp_caches h))"

lemma cache_okD:
  assumes "cache_ok X slabs c kc"
  shows "cache_wf kc" and "distinct (slab_lists kc)" and "set (slab_lists kc) = slabs_of slabs c"
    and "p \<in> set (kc_partial kc) \<Longrightarrow> 0 < free_of slabs p \<and> (free_of slabs p < kc_objects_per_slab kc \<or> p \<in> X)"
    and "p \<in> set (kc_full kc) \<Longrightarrow> free_of slabs p = 0"
    and "p \<in> set (kc_empty kc) \<Longrightarrow> free_of slabs p = kc_objects_per_slab kc"
    and "kc_nr_slabs kc = u32 (length (slab_lists kc))" and "kc_nr_empty kc = length (kc_empty kc)"
    and "length (kc_empty kc) \<le> SLAB_KEEP_EMPTY"
    and "kc_nr_allocated kc = u64 (card (live_slots slabs c (kc_objects_per_slab kc)))"
  using assms unfolding cache_ok_def by simp_all

lemma store_okD:
  assumes "store_ok X slabs caches"
  shows "slabs p = Some sl \<Longrightarrow> \<exists>kc. caches (sl_cache sl) = Some kc \<and> slab_ok kc p sl"
    and "caches c = Some kc \<Longrightarrow> cache_ok X slabs c kc"
  using assms unfolding store_ok_def by blast+

lemma finite_live_slots: "cache_ok X slabs c kc \<Longrightarrow> finite (live_slots slabs c n)"
proof -
  assume "cache_ok X slabs c kc"
  then have "finite (slabs_of slabs c)" using cache_okD(3) by (metis List.finite_set)
  moreover have "live_slots slabs c n \<subseteq> slabs_of slabs c \<times> {..<n}" by (auto simp: live_slots_def slabs_of_def)
  ultimately show ?thesis using finite_subset by blast
qed

text \<open>One slab of cache \<open>c\<close> changes: the other caches do not notice.\<close>

lemma cache_ok_other:
  assumes "cache_ok X slabs d kd" and "d \<noteq> c"
    and "\<And>sl. slabs p = Some sl \<Longrightarrow> sl_cache sl = c" and "\<And>sl. v = Some sl \<Longrightarrow> sl_cache sl = c"
    and "X - {p} \<subseteq> Y"
  shows "cache_ok Y (slabs(p := v)) d kd"
proof -
  note K = cache_okD [OF assms(1)]
  have o: "slabs_of (slabs(p := v)) d = slabs_of slabs d" using assms(2-4) by (auto simp: slabs_of_def)
  have np: "p \<notin> set (slab_lists kd)" using K(3) assms(2,3) by (auto simp: slabs_of_def)
  then have f: "free_of (slabs(p := v)) q = free_of slabs q" if "q \<in> set (slab_lists kd)" for q
    using that by (auto simp: free_of_def)
  have l: "live_slots (slabs(p := v)) d n = live_slots slabs d n" for n
    using assms(2-4) by (auto simp: live_slots_def split: if_splits)
  have mem: "q \<in> set (slab_lists kd)" if "q \<in> set (kc_partial kd) \<union> set (kc_full kd) \<union> set (kc_empty kd)" for q
    using that by (auto simp: slab_lists_def)
  have "0 < free_of (slabs(p := v)) q \<and> (free_of (slabs(p := v)) q < kc_objects_per_slab kd \<or> q \<in> Y)"
    if "q \<in> set (kc_partial kd)" for q
    using K(4) [OF that] f [OF mem] that np mem [of q] assms(5) by auto
  moreover have "\<forall>q \<in> set (kc_full kd). free_of (slabs(p := v)) q = 0" using K(5) f mem by simp
  moreover have "\<forall>q \<in> set (kc_empty kd). free_of (slabs(p := v)) q = kc_objects_per_slab kd" using K(6) f mem by simp
  ultimately show ?thesis unfolding cache_ok_def o l using K by blast
qed

text \<open>Unlinking a slab, and what it leaves of the lists.\<close>

lemma unlink_fields [simp]:
  "kc_partial (unlink_slab p kc) = remove1 p (kc_partial kc)" "kc_full (unlink_slab p kc) = remove1 p (kc_full kc)"
  "kc_empty (unlink_slab p kc) = remove1 p (kc_empty kc)" "kc_objects_per_slab (unlink_slab p kc) = kc_objects_per_slab kc"
  "kc_slab_order (unlink_slab p kc) = kc_slab_order kc" "kc_slot_size (unlink_slab p kc) = kc_slot_size kc"
  "kc_object_size (unlink_slab p kc) = kc_object_size kc" "kc_header_size (unlink_slab p kc) = kc_header_size kc"
  "kc_align (unlink_slab p kc) = kc_align kc" "kc_nr_empty (unlink_slab p kc) = kc_nr_empty kc"
  "kc_nr_slabs (unlink_slab p kc) = kc_nr_slabs kc" "kc_nr_allocated (unlink_slab p kc) = kc_nr_allocated kc"
  "kc_nr_allocs (unlink_slab p kc) = kc_nr_allocs kc" "kc_nr_frees (unlink_slab p kc) = kc_nr_frees kc"
  by (simp_all add: unlink_slab_def)

lemma cache_wf_shape:
  assumes "cache_wf kc" and "kc_object_size kc' = kc_object_size kc" and "kc_align kc' = kc_align kc"
    and "kc_slot_size kc' = kc_slot_size kc" and "kc_slab_order kc' = kc_slab_order kc"
    and "kc_objects_per_slab kc' = kc_objects_per_slab kc" and "kc_header_size kc' = kc_header_size kc"
  shows "cache_wf kc'"
  using assms by (simp add: cache_wf_def)

lemma unlink_lists:
  assumes "distinct (slab_lists kc)"
  shows "distinct (slab_lists (unlink_slab p kc))" and "set (slab_lists (unlink_slab p kc)) = set (slab_lists kc) - {p}"
    and "p \<in> set (slab_lists kc) \<Longrightarrow> Suc (length (slab_lists (unlink_slab p kc))) = length (slab_lists kc)"
    and "set (remove1 p (kc_partial kc)) = set (kc_partial kc) - {p}"
    and "set (remove1 p (kc_full kc)) = set (kc_full kc) - {p}"
    and "set (remove1 p (kc_empty kc)) = set (kc_empty kc) - {p}"
proof -
  have d: "distinct (kc_partial kc)" "distinct (kc_full kc)" "distinct (kc_empty kc)"
      "set (kc_partial kc) \<inter> set (kc_full kc) = {}" "set (kc_partial kc) \<inter> set (kc_empty kc) = {}"
      "set (kc_full kc) \<inter> set (kc_empty kc) = {}"
    using assms by (auto simp: slab_lists_def)
  show s: "set (remove1 p (kc_partial kc)) = set (kc_partial kc) - {p}"
      "set (remove1 p (kc_full kc)) = set (kc_full kc) - {p}" "set (remove1 p (kc_empty kc)) = set (kc_empty kc) - {p}"
    using d by (simp_all add: set_remove1_eq)
  show "distinct (slab_lists (unlink_slab p kc))" using d by (auto simp: slab_lists_def s)
  show "set (slab_lists (unlink_slab p kc)) = set (slab_lists kc) - {p}" by (auto simp: slab_lists_def s)
  show "Suc (length (slab_lists (unlink_slab p kc))) = length (slab_lists kc)" if m: "p \<in> set (slab_lists kc)"
  proof -
    have "length (slab_lists (unlink_slab p kc)) = card (set (slab_lists kc) - {p})"
      using distinct_card [OF \<open>distinct (slab_lists (unlink_slab p kc))\<close>]
      unfolding \<open>set (slab_lists (unlink_slab p kc)) = set (slab_lists kc) - {p}\<close> by simp
    then show ?thesis using distinct_card [OF assms] m length_pos_if_in_set [OF m] by simp
  qed
qed

definition same_shape :: "kmem_cache \<Rightarrow> kmem_cache \<Rightarrow> bool" where
  "same_shape kc kc' \<longleftrightarrow>
     kc_object_size kc' = kc_object_size kc \<and> kc_align kc' = kc_align kc \<and> kc_slot_size kc' = kc_slot_size kc
     \<and> kc_slab_order kc' = kc_slab_order kc \<and> kc_objects_per_slab kc' = kc_objects_per_slab kc
     \<and> kc_header_size kc' = kc_header_size kc"

lemma same_shape_wf: "same_shape kc kc' \<Longrightarrow> cache_wf kc \<Longrightarrow> cache_wf kc'"
  by (simp add: same_shape_def cache_wf_def)

lemma same_shape_slab: "same_shape kc kc' \<Longrightarrow> slab_ok kc' p sl = slab_ok kc p sl"
  by (simp add: same_shape_def slab_ok_def)

text \<open>A slab of the cache changes its state and maybe its list.\<close>

lemma cache_ok_moved:
  assumes K: "cache_ok X slabs c kc" and p: "p \<in> slabs_of slabs c" and c: "sl_cache sl' = c"
    and sh: "same_shape kc kc'" and X: "X - {p} \<subseteq> Y"
    and d: "distinct (slab_lists kc')" and s: "set (slab_lists kc') = set (slab_lists kc)"
    and l: "set (kc_partial kc') - {p} \<subseteq> set (kc_partial kc)" "set (kc_full kc') - {p} \<subseteq> set (kc_full kc)"
      "set (kc_empty kc') - {p} \<subseteq> set (kc_empty kc)"
    and P: "p \<in> set (kc_partial kc') \<Longrightarrow>
      0 < sl_free_count sl' \<and> (sl_free_count sl' < kc_objects_per_slab kc \<or> p \<in> Y)"
    and F: "p \<in> set (kc_full kc') \<Longrightarrow> sl_free_count sl' = 0"
    and E: "p \<in> set (kc_empty kc') \<Longrightarrow> sl_free_count sl' = kc_objects_per_slab kc"
    and n: "kc_nr_slabs kc' = kc_nr_slabs kc" "kc_nr_empty kc' = length (kc_empty kc')"
      "length (kc_empty kc') \<le> SLAB_KEEP_EMPTY"
      "kc_nr_allocated kc' = u64 (card (live_slots (slabs(p \<mapsto> sl')) c (kc_objects_per_slab kc)))"
  shows "cache_ok Y (slabs(p \<mapsto> sl')) c kc'"
proof -
  note D = cache_okD [OF K]
  have o: "slabs_of (slabs(p \<mapsto> sl')) c = slabs_of slabs c" using p c by (auto simp: slabs_of_def)
  have f: "free_of (slabs(p \<mapsto> sl')) q = (if q = p then sl_free_count sl' else free_of slabs q)" for q
    by (simp add: free_of_def)
  have ob: "kc_objects_per_slab kc' = kc_objects_per_slab kc" using sh by (simp add: same_shape_def)
  have len: "length (slab_lists kc') = length (slab_lists kc)"
    using distinct_card [OF d] distinct_card [OF D(2)] s by simp
  have "0 < free_of (slabs(p \<mapsto> sl')) q \<and> (free_of (slabs(p \<mapsto> sl')) q < kc_objects_per_slab kc \<or> q \<in> Y)"
    if "q \<in> set (kc_partial kc')" for q
    using that P D(4) [of q] l(1) X unfolding f by (cases "q = p") auto
  moreover have "free_of (slabs(p \<mapsto> sl')) q = 0" if "q \<in> set (kc_full kc')" for q
    using that F D(5) [of q] l(2) unfolding f by (cases "q = p") auto
  moreover have "free_of (slabs(p \<mapsto> sl')) q = kc_objects_per_slab kc" if "q \<in> set (kc_empty kc')" for q
    using that E D(6) [of q] l(3) unfolding f by (cases "q = p") auto
  ultimately show ?thesis
    unfolding cache_ok_def o ob using same_shape_wf [OF sh D(1)] d s D(3,7) n len by simp
qed

text \<open>Such a change, seen from the whole store and from the frames.\<close>

lemma slab_blocks_moved:
  assumes "slabs p = Some sl" and "caches c = Some kc" and "sl_cache sl = c" and "sl_cache sl' = c" and "same_shape kc kc'"
  shows "slab_blocks (slabs(p \<mapsto> sl')) (caches(c \<mapsto> kc')) = slab_blocks slabs caches"
  using assms unfolding slab_blocks_def same_shape_def by (auto split: if_splits)

lemma store_moved:
  assumes S: "store_ok X slabs caches" and p: "slabs p = Some sl" and c: "caches c = Some kc" "sl_cache sl = c" "sl_cache sl' = c"
    and sh: "same_shape kc kc'" and sl: "slab_ok kc p sl'" and new: "cache_ok Y (slabs(p \<mapsto> sl')) c kc'"
    and X: "X - {p} \<subseteq> Y"
  shows "store_ok Y (slabs(p \<mapsto> sl')) (caches(c \<mapsto> kc'))"
  unfolding store_ok_def
proof (intro conjI allI impI)
  fix q t
  assume q: "(slabs(p \<mapsto> sl')) q = Some t"
  show "\<exists>kd. (caches(c \<mapsto> kc')) (sl_cache t) = Some kd \<and> slab_ok kd q t"
  proof (cases "q = p")
    case True
    then show ?thesis using q sl c(3) same_shape_slab [OF sh] by simp
  next
    case False
    then obtain kd where "caches (sl_cache t) = Some kd" "slab_ok kd q t" using store_okD(1) [OF S] q by auto
    then show ?thesis using c(1) same_shape_slab [OF sh] by (cases "sl_cache t = c") auto
  qed
next
  fix d kd
  assume d: "(caches(c \<mapsto> kc')) d = Some kd"
  show "cache_ok Y (slabs(p \<mapsto> sl')) d kd"
  proof (cases "d = c")
    case True
    then show ?thesis using d new by simp
  next
    case False
    then have "cache_ok X slabs d kd" using store_okD(2) [OF S] d by simp
    then show ?thesis using False p c X by (intro cache_ok_other) auto
  qed
qed

lemma heap_moved:
  assumes "heap_ok X h" and "hp_slabs h p = Some sl" and "hp_caches h c = Some kc" "sl_cache sl = c" "sl_cache sl' = c"
    and "same_shape kc kc'" and "slab_ok kc p sl'" and "cache_ok Y ((hp_slabs h)(p \<mapsto> sl')) c kc'" and "X - {p} \<subseteq> Y"
  shows "heap_ok Y (h\<lparr>hp_slabs := (hp_slabs h)(p \<mapsto> sl'), hp_caches := (hp_caches h)(c \<mapsto> kc')\<rparr>)"
  using assms store_moved [of X "hp_slabs h" "hp_caches h" p sl c kc sl' kc' Y] slab_blocks_moved [of "hp_slabs h" p sl "hp_caches h" c kc sl' kc']
  by (simp add: heap_ok_def)

end
