(* ===== verification/Slab_Ops.thy ===== *)
theory Slab_Ops
  imports Slab_Inv
begin

text \<open>
  The operations of the object caches against their invariant: allocation hands out a slot nobody
  holds, freeing accepts exactly the live objects, and both keep the heap consistent.
\<close>

section \<open>Live slots under a change of one slab\<close>

lemma live_slots_take:
  assumes "slabs p = Some sl" and "sl_cache sl = c" and "sl_cache sl' = c" and "i < n"
    and "bits_of (sl_bitmap sl') = bits_of (sl_bitmap sl) - {i}"
  shows "live_slots (slabs(p \<mapsto> sl')) c n = insert (p, i) (live_slots slabs c n)"
  using assms unfolding live_slots_def by (auto split: if_splits)

lemma live_slots_give:
  assumes "slabs p = Some sl" and "sl_cache sl = c" and "sl_cache sl' = c"
    and "bits_of (sl_bitmap sl') = insert i (bits_of (sl_bitmap sl))"
  shows "live_slots (slabs(p \<mapsto> sl')) c n = live_slots slabs c n - {(p, i)}"
  using assms unfolding live_slots_def by (auto split: if_splits)

lemma live_slots_other:
  assumes "\<And>sl. slabs p = Some sl \<Longrightarrow> sl_cache sl \<noteq> d" and "\<And>sl. v = Some sl \<Longrightarrow> sl_cache sl \<noteq> d"
  shows "live_slots (slabs(p := v)) d n = live_slots slabs d n"
  using assms unfolding live_slots_def by (auto split: if_splits)

lemma u64_Suc: "u64 (u64 n + 1) = u64 (n + 1)"
  by (simp add: u64_def mod_simps)

lemma mod_pred:
  assumes "0 < n" and "0 < (W::nat)"
  shows "(n mod W + W - 1) mod W = (n - 1) mod W"
proof -
  have "(n mod W + W - 1) mod W = (n mod W + (W - 1)) mod W" using assms(2) by simp
  also have "\<dots> = (n + (W - 1)) mod W" by (simp only: mod_add_left_eq)
  also have "n + (W - 1) = n - 1 + W" using assms by simp
  finally show ?thesis by simp
qed

lemma sub64_u64: "0 < n \<Longrightarrow> sub64 (u64 n) 1 = u64 (n - 1)"
  using mod_pred [of n W64] by (simp only: sub64_def u64_def) simp

lemma sub32_u32: "0 < n \<Longrightarrow> sub32 (u32 n) 1 = u32 (n - 1)"
  using mod_pred [of n W32] by (simp only: sub32_def u32_def) simp

section \<open>What an operation leaves alone\<close>

text \<open>
  Bytes and descriptors of frames that are free neither before nor after, outside \<open>A\<close>. Frames that
  become free were the slabs' own, and no frame's mark as a large block changes.
\<close>

definition kept :: "'a kheap_scheme \<Rightarrow> 'a kheap_scheme \<Rightarrow> paddr set \<Rightarrow> bool" where
  "kept h h' A \<longleftrightarrow>
     g_caches h' = g_caches h \<and> kheap.more h' = kheap.more h
     \<and> (\<forall>c. rel_option same_shape (hp_caches h c) (hp_caches h' c))
     \<and> same_globals (hp_pmm h) (hp_pmm h')
     \<and> (\<forall>q. has (pg_flags (pages (hp_pmm h') q)) PG_KMALLOC_LARGE = has (pg_flags (pages (hp_pmm h) q)) PG_KMALLOC_LARGE)
     \<and> (\<forall>q \<in> pmm_free (hp_pmm h'). q \<in> pmm_free (hp_pmm h) \<or> has (pg_flags (pages (hp_pmm h) q)) PG_SLAB)
     \<and> (\<forall>q. q \<notin> pmm_free (hp_pmm h) \<union> pmm_free (hp_pmm h') \<and> \<not> has (pg_flags (pages (hp_pmm h) q)) PG_SLAB
          \<longrightarrow> pages (hp_pmm h') q = pages (hp_pmm h) q)
     \<and> (\<forall>x. x div 4096 \<notin> pmm_free (hp_pmm h) \<union> pmm_free (hp_pmm h') \<and> x \<notin> A
          \<longrightarrow> get_byte (hp_pmm h') x = get_byte (hp_pmm h) x)"

lemma same_shape_refl [simp]: "same_shape kc kc"
  by (simp add: same_shape_def)

lemma same_shape_trans: "same_shape a b \<Longrightarrow> same_shape b c \<Longrightarrow> same_shape a c"
  by (simp add: same_shape_def)

lemma same_shapes_refl [simp]: "rel_option same_shape x x"
  by (cases x) simp_all

lemma same_globals_refl [simp]: "same_globals m m"
  by (simp add: same_globals_def)

lemma kept_refl [simp]: "kept h h A"
  by (simp add: kept_def)

lemma kept_caches:
  assumes "hp_caches h c = Some kc" and "same_shape kc kc'"
  shows "kept h (h\<lparr>hp_slabs := s, hp_caches := (hp_caches h)(c \<mapsto> kc')\<rparr>) A"
  using assms by (simp add: kept_def)

lemma heap_ok_mono: "heap_ok {} h \<Longrightarrow> heap_ok X h"
  unfolding heap_ok_def store_ok_def cache_ok_def by simp

lemma heap_cacheD: "heap_ok X h \<Longrightarrow> hp_caches h c = Some kc \<Longrightarrow> cache_ok X (hp_slabs h) c kc"
  unfolding heap_ok_def store_ok_def by blast

lemma cache_of_slab: "heap_ok X h \<Longrightarrow> hp_slabs h p = Some sl \<Longrightarrow> \<exists>kc. hp_caches h (sl_cache sl) = Some kc \<and> slab_ok kc p sl"
  using store_okD(1) by (auto simp: heap_ok_def)

lemma slab_has_block:
  assumes "heap_ok X h" and "hp_slabs h p = Some sl" and "hp_caches h (sl_cache sl) = Some kc"
  shows "(p, kc_slab_order kc) \<in> slab_blocks (hp_slabs h) (hp_caches h)"
  using assms by (auto simp: slab_blocks_def)

section \<open>Picking a slab\<close>

text \<open>The store with one more slab, all its slots free, at the front of the partial list.\<close>

lemma store_added:
  assumes S: "store_ok {} slabs caches" and c: "caches c = Some kc" and p: "slabs p = None"
    and sl: "slab_ok kc p sl" "sl_cache sl = c" "bits_of (sl_bitmap sl) = {..<kc_objects_per_slab kc}"
  shows "store_ok {p} (slabs(p \<mapsto> sl)) (caches(c \<mapsto> kc\<lparr>kc_nr_slabs := u32 (kc_nr_slabs kc + 1),
           kc_partial := p # kc_partial kc\<rparr>))" (is "store_ok _ ?s ?c")
    and "caches d = Some kd \<Longrightarrow> live_slots (slabs(p \<mapsto> sl)) d (kc_objects_per_slab kd) = live_slots slabs d (kc_objects_per_slab kd)"
proof -
  let ?kc = "kc\<lparr>kc_nr_slabs := u32 (kc_nr_slabs kc + 1), kc_partial := p # kc_partial kc\<rparr>"
  note K = cache_okD [OF store_okD(2) [OF S c]]
  show live: "live_slots ?s d (kc_objects_per_slab kd) = live_slots slabs d (kc_objects_per_slab kd)" if "caches d = Some kd" for d kd
    using p sl that c unfolding live_slots_def by (auto split: if_splits)
  have sh: "same_shape kc ?kc" by (simp add: same_shape_def)
  have np: "p \<notin> set (slab_lists kc)" using K(3) p by (auto simp: slabs_of_def)
  have o: "slabs_of ?s c = insert p (slabs_of slabs c)" using sl(2) by (auto simp: slabs_of_def)
  have f: "free_of ?s q = (if q = p then kc_objects_per_slab kc else free_of slabs q)" for q
    using sl(1,3) by (simp add: free_of_def slab_ok_def)
  have ls: "slab_lists ?kc = p # slab_lists kc" by (simp add: slab_lists_def)
  have n0: "0 < kc_objects_per_slab kc" using K(1) by (simp add: cache_wf_def)
  have len: "u32 (u32 (length (slab_lists kc)) + 1) = u32 (length (p # slab_lists kc))" by (simp add: u32_def mod_simps)
  have "q \<noteq> p" if "q \<in> set (kc_full kc) \<union> set (kc_empty kc)" for q using that np by (auto simp: slab_lists_def)
  then have new: "cache_ok {p} ?s c ?kc"
    unfolding cache_ok_def ls o
    using K n0 np same_shape_wf [OF sh K(1)] live [OF c] len by (auto simp: f)
  show "store_ok {p} ?s ?c"
    unfolding store_ok_def
  proof (intro conjI allI impI)
    fix q t
    assume q: "?s q = Some t"
    show "\<exists>kd. ?c (sl_cache t) = Some kd \<and> slab_ok kd q t"
    proof (cases "q = p")
      case True
      then show ?thesis using q sl same_shape_slab [OF sh] by simp
    next
      case False
      then obtain kd where "caches (sl_cache t) = Some kd" "slab_ok kd q t" using store_okD(1) [OF S] q by auto
      then show ?thesis using c same_shape_slab [OF sh] by (cases "sl_cache t = c") auto
    qed
  next
    fix d kd
    assume d: "?c d = Some kd"
    show "cache_ok {p} ?s d kd"
    proof (cases "d = c")
      case True
      then show ?thesis using d new by simp
    next
      case False
      then have "cache_ok {} slabs d kd" using store_okD(2) [OF S] d by simp
      then show ?thesis using False p sl(2) by (intro cache_ok_other [where c = c]) auto
    qed
  qed
qed

lemma frame_bytes_kept:
  assumes "\<forall>q. q \<notin> S \<longrightarrow> frame_words m' q = frame_words m q" and "x div 4096 \<notin> S"
  shows "get_byte m' x = get_byte m x"
  using assms by (simp add: get_byte_def)

lemma new_slab_ok:
  assumes "cache_wf kc" and "live m p (kc_slab_order kc)" and "bounds_ok m"
  shows "slab_ok kc p (new_slab c kc p)" and "bits_of (sl_bitmap (new_slab c kc p)) = {..<kc_objects_per_slab kc}"
    and "sl_cache (new_slab c kc p) = c"
proof -
  let ?k = "kc_slab_order kc"
  have n: "0 < kc_objects_per_slab kc" "kc_objects_per_slab kc \<le> 2048"
    using assms(1) cache_wf_bounds(1) by (auto simp: cache_wf_def)
  note B = full_bitmap_bits [OF n]
  have blk: "block_ok (zones m (zone_for_pfn p)) p ?k" and mx: "p < pmm_max_pfn m" using assms(2) by (auto simp: live_def)
  have z: "zone_for_pfn p < PMM_ZONE_COUNT" by (rule zone_for_pfn_frames(1) [OF assms(3) mx])
  have "p + 2 ^ ?k \<le> pmm_max_pfn m" using blk end_le_max [OF assms(3) z] by (simp add: block_ok_def)
  then have lim: "p + 2 ^ ?k < 2 ^ 52" "p < 2 ^ 52" using assms(3) mx by (auto simp: bounds_ok_def)
  have "kc_header_size kc \<le> 4096 * 2 ^ ?k" using assms(1) by (auto simp: cache_wf_def)
  then have "p * 4096 + kc_header_size kc \<le> (p + 2 ^ ?k) * 4096" by simp
  also have "\<dots> < W64" using lim by simp
  finally have "u64 (page_to_phys p + kc_header_size kc) = p * 4096 + kc_header_size kc"
    using lim by (simp add: page_to_phys_def u64_id)
  moreover have "0 < bitmap_words (kc_objects_per_slab kc)" using n by (simp add: bitmap_words_bound)
  ultimately show "slab_ok kc p (new_slab c kc p)" using B by (simp add: slab_ok_def new_slab_def)
  show "bits_of (sl_bitmap (new_slab c kc p)) = {..<kc_objects_per_slab kc}" "sl_cache (new_slab c kc p) = c"
    using B by (simp_all add: new_slab_def)
qed

lemma grow_ok:
  assumes ok: "heap_ok {} h" and c: "hp_caches h c = Some kc"
  shows "slab_grow h c = Some (h, None) \<or>
    (\<exists>h1 p. slab_grow h c = Some (h1, Some p) \<and> hp_caches h1 c = Some (kc\<lparr>kc_nr_slabs := u32 (kc_nr_slabs kc + 1)\<rparr>)
       \<and> (let kc' = kc\<lparr>kc_nr_slabs := u32 (kc_nr_slabs kc + 1), kc_partial := p # kc_partial kc\<rparr>;
              h' = set_cache h1 c kc'
          in heap_ok {p} h' \<and> hp_slabs h' p = Some (new_slab c kc p) \<and> kept h h' {}
             \<and> (\<forall>d kd. hp_caches h d = Some kd \<longrightarrow>
                  live_slots (hp_slabs h') d (kc_objects_per_slab kd) = live_slots (hp_slabs h) d (kc_objects_per_slab kd))))"
proof -
  have S: "store_ok {} (hp_slabs h) (hp_caches h)"
    and F: "frames_ok (hp_pmm h) (slab_blocks (hp_slabs h) (hp_caches h))" using ok by (auto simp: heap_ok_def)
  note K = cache_okD [OF store_okD(2) [OF S c]]
  let ?k = "kc_slab_order kc"
  have inv: "pmm_inv (hp_pmm h)" by (rule frames_okD(1) [OF F])
  obtain m r where a: "pmm_alloc_pages (hp_pmm h) ?k 0 = Some (m, r)"
    using pmm_source.alloc_total [OF inv, of "(?k, 0)"] by auto
  show ?thesis
  proof (cases r)
    case None
    then have "m = hp_pmm h" using pmm_source.alloc_none [OF inv, of "(?k, 0)" m] a by simp
    then show ?thesis using a None c by (simp add: slab_grow_def)
  next
    case (Some p)
    have a': "pmm_alloc_pages (hp_pmm h) ?k 0 = Some (m, Some p)" using a Some by simp
    note G = frames_grow [OF F a']
    note A = pmm_alloc_inv [OF inv a']
    have al: "alloc_ok (hp_pmm h) m p ?k 0"
      using alloc_pages_total [of "hp_pmm h" ?k 0] cache_wf_bounds(5) [OF K(1)] inv a' by (auto simp: pmm_inv_def)
    have np: "hp_slabs h p = None"
    proof (rule ccontr)
      assume "hp_slabs h p \<noteq> None"
      then obtain sl kd where "hp_slabs h p = Some sl" "hp_caches h (sl_cache sl) = Some kd"
        using cache_of_slab [OF ok] by blast
      then show False using slab_has_block [OF ok] G(2) by blast
    qed
    define kc' where "kc' = kc\<lparr>kc_nr_slabs := u32 (kc_nr_slabs kc + 1), kc_partial := p # kc_partial kc\<rparr>"
    define h1 where "h1 = h\<lparr>hp_pmm := m\<lparr>pages := slab_mark m p ?k\<rparr>, hp_slabs := (hp_slabs h)(p \<mapsto> new_slab c kc p),
        hp_caches := (hp_caches h)(c \<mapsto> kc\<lparr>kc_nr_slabs := u32 (kc_nr_slabs kc + 1)\<rparr>)\<rparr>"
    have step: "slab_grow h c = Some (h1, Some p)"
      using a' c by (simp add: slab_grow_def h1_def Let_def)
    have l: "live m p ?k" "bounds_ok m" using A(1,4) by (auto simp: pmm_holds_def pmm_inv_def pmm_ok_def)
    note N = new_slab_ok [OF K(1) l, of c]
    note T = store_added [OF S c np N(1,3,2), folded kc'_def]
    have sh: "same_shape kc kc'" by (simp add: kc'_def same_shape_def)
    define h' where "h' = set_cache h1 c kc'"
    have f: "hp_slabs h' = (hp_slabs h)(p \<mapsto> new_slab c kc p)" "hp_caches h' = (hp_caches h)(c \<mapsto> kc')"
        "hp_pmm h' = m\<lparr>pages := slab_mark m p ?k\<rparr>" "g_caches h' = g_caches h" "kheap.more h' = kheap.more h"
      by (simp_all add: h'_def h1_def)
    have "slab_blocks (hp_slabs h') (hp_caches h') = insert (p, ?k) (slab_blocks (hp_slabs h) (hp_caches h))"
      using np c sh N(3) unfolding f slab_blocks_def same_shape_def by (auto split: if_splits)
    then have "heap_ok {p} h'" using T(1) G(1) by (simp add: heap_ok_def f)
    moreover have "hp_slabs h' p = Some (new_slab c kc p)" by (simp add: f)
    moreover have "kept h h' {}"
    proof -
      have "q \<notin> span p ?k" if "q \<notin> pmm_free (hp_pmm h)" for q using that A(2) by blast
      then have "pages (hp_pmm h') q = pages (hp_pmm h) q" if "q \<notin> pmm_free (hp_pmm h)" for q
        using that al by (auto simp: f slab_mark_def in_span [symmetric] alloc_ok_def)
      moreover have "get_byte (hp_pmm h') x = get_byte (hp_pmm h) x" if "x div 4096 \<notin> pmm_free (hp_pmm h)" for x
        using frame_bytes_kept [OF G(3), of x] that A(2) by (auto simp: f get_byte_def)
      moreover have "same_globals (hp_pmm h) (hp_pmm h')" using al by (simp add: alloc_ok_def same_globals_def f)
      moreover have "has (pg_flags (pages (hp_pmm h') q)) PG_KMALLOC_LARGE = has (pg_flags (pages (hp_pmm h) q)) PG_KMALLOC_LARGE" for q
        using al by (simp add: alloc_ok_def kept_flags_def f slab_mark_def PG_defs flag_simps)
      moreover have "pmm_free (hp_pmm h') \<subseteq> pmm_free (hp_pmm h)" using A(3) by (auto simp: f pmm_free_def)
      ultimately show ?thesis using c sh by (auto simp: kept_def f)
    qed
    moreover have "\<forall>d kd. hp_caches h d = Some kd \<longrightarrow>
        live_slots (hp_slabs h') d (kc_objects_per_slab kd) = live_slots (hp_slabs h) d (kc_objects_per_slab kd)"
      using T(2) by (simp add: f)
    moreover have "hp_caches h1 c = Some (kc\<lparr>kc_nr_slabs := u32 (kc_nr_slabs kc + 1)\<rparr>)" by (simp add: h1_def)
    ultimately show ?thesis using step unfolding kc'_def h'_def Let_def by blast
  qed
qed

text \<open>What picking a slab promises, when it finds one.\<close>

definition picked :: "'a kheap_scheme \<Rightarrow> cref \<Rightarrow> kmem_cache \<Rightarrow> 'a kheap_scheme \<Rightarrow> pfn \<Rightarrow> bool" where
  "picked h c kc h' p \<longleftrightarrow>
     heap_ok {p} h' \<and> kept h h' {}
     \<and> (\<exists>kc' sl. hp_caches h' c = Some kc' \<and> same_shape kc kc' \<and> p \<in> set (kc_partial kc')
          \<and> hp_slabs h' p = Some sl \<and> sl_cache sl = c)
     \<and> (\<forall>d kd. hp_caches h d = Some kd \<longrightarrow>
          live_slots (hp_slabs h') d (kc_objects_per_slab kd) = live_slots (hp_slabs h) d (kc_objects_per_slab kd))"

lemma listed_slab:
  assumes "heap_ok X h" and "hp_caches h c = Some kc" and "p \<in> set (slab_lists kc)"
  shows "\<exists>sl. hp_slabs h p = Some sl \<and> sl_cache sl = c \<and> slab_ok kc p sl"
proof -
  have S: "store_ok X (hp_slabs h) (hp_caches h)" using assms(1) by (simp add: heap_ok_def)
  have "p \<in> slabs_of (hp_slabs h) c" using cache_okD(3) [OF store_okD(2) [OF S assms(2)]] assms(3) by simp
  then show ?thesis using store_okD(1) [OF S] assms(2) by (fastforce simp: slabs_of_def)
qed

lemma pick_empty_ok:
  assumes ok: "heap_ok {} h" and c: "hp_caches h c = Some kc" and p: "p \<in> set (kc_empty kc)"
  shows "picked h c kc (set_cache h c ((unlink_slab p kc)\<lparr>kc_nr_empty := sub32 (kc_nr_empty kc) 1,
     kc_partial := p # remove1 p (kc_partial kc)\<rparr>)) p"
proof -
  let ?kc = "(unlink_slab p kc)\<lparr>kc_nr_empty := sub32 (kc_nr_empty kc) 1, kc_partial := p # remove1 p (kc_partial kc)\<rparr>"
  have S: "store_ok {} (hp_slabs h) (hp_caches h)" using ok by (simp add: heap_ok_def)
  note K = cache_okD [OF store_okD(2) [OF S c]]
  note U = unlink_lists [OF K(2), of p]
  have pl: "p \<in> set (slab_lists kc)" using p by (simp add: slab_lists_def)
  obtain sl where sl: "hp_slabs h p = Some sl" "sl_cache sl = c" "slab_ok kc p sl" using listed_slab [OF ok c pl] by blast
  have upd: "(hp_slabs h)(p \<mapsto> sl) = hp_slabs h" using sl(1) by (simp add: fun_upd_idem)
  have ps: "p \<in> slabs_of (hp_slabs h) c" using sl by (auto simp: slabs_of_def)
  have fc: "sl_free_count sl = kc_objects_per_slab kc" "0 < kc_objects_per_slab kc"
    using K(1) K(6) [OF p] sl(1) by (auto simp: free_of_def cache_wf_def)
  have sh: "same_shape kc ?kc" by (simp add: same_shape_def)
  have dE: "distinct (kc_empty kc)" "p \<notin> set (kc_partial kc)" "p \<notin> set (kc_full kc)"
    using K(2) p by (auto simp: slab_lists_def)
  have ls: "slab_lists ?kc = p # slab_lists (unlink_slab p kc)" by (simp add: slab_lists_def)
  have le: "0 < length (kc_empty kc)" "length (kc_empty kc) \<le> 2"
    using p K(9) by (auto simp: SLAB_KEEP_EMPTY_def intro: length_pos_if_in_set)
  then have "sub32 (length (kc_empty kc)) 1 = length (kc_empty kc) - 1" by (intro sub32_id) linarith+
  then have ne: "sub32 (kc_nr_empty kc) 1 = length (remove1 p (kc_empty kc))" using p K(8) by (simp add: length_remove1)
  have "cache_ok {p} ((hp_slabs h)(p \<mapsto> sl)) c ?kc"
  proof (rule cache_ok_moved [OF store_okD(2) [OF S c] ps sl(2) sh])
    show "distinct (slab_lists ?kc)" unfolding ls using U(1,2) by simp
    show "set (slab_lists ?kc) = set (slab_lists kc)" unfolding ls using U(2) pl by auto
    show "kc_nr_empty ?kc = length (kc_empty ?kc)" using ne by simp
    show "length (kc_empty ?kc) \<le> SLAB_KEEP_EMPTY" using K(9) p by (simp add: length_remove1)
    show "kc_nr_allocated ?kc = u64 (card (live_slots ((hp_slabs h)(p \<mapsto> sl)) c (kc_objects_per_slab kc)))"
      using K(10) by (simp add: upd)
  qed (use U fc dE in auto)
  then have "heap_ok {p} (h\<lparr>hp_slabs := (hp_slabs h)(p \<mapsto> sl), hp_caches := (hp_caches h)(c \<mapsto> ?kc)\<rparr>)"
    by (intro heap_moved [OF ok sl(1) c sl(2,2) sh sl(3)]) auto
  moreover have "kept h (h\<lparr>hp_slabs := hp_slabs h, hp_caches := (hp_caches h)(c \<mapsto> ?kc)\<rparr>) {}"
    using c sh by (rule kept_caches)
  ultimately show ?thesis using sl sh by (simp add: picked_def upd)
qed

lemma pick_ok:
  assumes ok: "heap_ok {} h" and c: "hp_caches h c = Some kc"
  shows "pick_slab h c = Some (h, None) \<or> (\<exists>h' p. pick_slab h c = Some (h', Some p) \<and> picked h c kc h' p)"
proof (cases "kc_partial kc")
  case (Cons p ps)
  then have "p \<in> set (slab_lists kc)" by (simp add: slab_lists_def)
  then obtain sl where "hp_slabs h p = Some sl" "sl_cache sl = c" using listed_slab [OF ok c] by blast
  then have "picked h c kc h p" using c Cons heap_ok_mono [OF ok] by (simp add: picked_def)
  then show ?thesis using Cons c by (simp add: pick_slab_def)
next
  case Nil
  show ?thesis
  proof (cases "kc_empty kc")
    case (Cons p ps)
    then have "picked h c kc (set_cache h c ((unlink_slab p kc)\<lparr>kc_nr_empty := sub32 (kc_nr_empty kc) 1,
        kc_partial := p # remove1 p (kc_partial kc)\<rparr>)) p"
      by (intro pick_empty_ok [OF ok c]) simp
    then show ?thesis using Cons Nil c by (simp add: pick_slab_def Let_def)
  next
    case Nil2: Nil
    from grow_ok [OF ok c] show ?thesis
    proof (elim disjE exE conjE)
      assume "slab_grow h c = Some (h, None)"
      then show ?thesis using Nil Nil2 c by (simp add: pick_slab_def)
    next
      fix h1 p
      let ?kc = "kc\<lparr>kc_nr_slabs := u32 (kc_nr_slabs kc + 1), kc_partial := p # kc_partial kc\<rparr>"
      assume G: "slab_grow h c = Some (h1, Some p)" "hp_caches h1 c = Some (kc\<lparr>kc_nr_slabs := u32 (kc_nr_slabs kc + 1)\<rparr>)"
        and P: "let kc' = ?kc; h' = set_cache h1 c kc'
          in heap_ok {p} h' \<and> hp_slabs h' p = Some (new_slab c kc p) \<and> kept h h' {}
             \<and> (\<forall>d kd. hp_caches h d = Some kd \<longrightarrow>
                  live_slots (hp_slabs h') d (kc_objects_per_slab kd) = live_slots (hp_slabs h) d (kc_objects_per_slab kd))"
      have "picked h c kc (set_cache h1 c ?kc) p"
        using P by (simp add: picked_def Let_def same_shape_def new_slab_def)
      then show ?thesis using G Nil Nil2 c by (simp add: pick_slab_def)
    qed
  qed
qed

section \<open>Objects\<close>

definition obj_addr :: "kmem_cache \<Rightarrow> pfn \<Rightarrow> nat \<Rightarrow> paddr" where
  "obj_addr kc p i = p * 4096 + kc_header_size kc + i * kc_slot_size kc"

definition live_objs :: "'a kheap_scheme \<Rightarrow> cref \<Rightarrow> paddr set" where
  "live_objs h c = (case hp_caches h c of None \<Rightarrow> {}
     | Some kc \<Rightarrow> (\<lambda>(p, i). obj_addr kc p i) ` live_slots (hp_slabs h) c (kc_objects_per_slab kc))"

lemma same_shape_addr: "same_shape kc kc' \<Longrightarrow> obj_addr kc' p i = obj_addr kc p i"
  by (simp add: obj_addr_def same_shape_def)

lemma obj_bounds:
  assumes "cache_wf kc" and "i < kc_objects_per_slab kc"
  shows "p * 4096 \<le> obj_addr kc p i" and "obj_addr kc p i + kc_slot_size kc \<le> (p + 2 ^ kc_slab_order kc) * 4096"
    and "obj_addr kc p i + kc_object_size kc \<le> (p + 2 ^ kc_slab_order kc) * 4096"
proof -
  have "i * kc_slot_size kc + kc_slot_size kc = Suc i * kc_slot_size kc" by simp
  also have "\<dots> \<le> kc_objects_per_slab kc * kc_slot_size kc" using assms(2) by (intro mult_right_mono) auto
  finally show "obj_addr kc p i + kc_slot_size kc \<le> (p + 2 ^ kc_slab_order kc) * 4096"
    using assms(1) unfolding obj_addr_def cache_wf_def by (simp add: algebra_simps)
  then show "obj_addr kc p i + kc_object_size kc \<le> (p + 2 ^ kc_slab_order kc) * 4096"
    using assms(1) unfolding cache_wf_def by linarith
  show "p * 4096 \<le> obj_addr kc p i" by (simp add: obj_addr_def)
qed

lemma addr_in_span: "p * 4096 \<le> x \<Longrightarrow> x < (p + 2 ^ k) * 4096 \<Longrightarrow> x div 4096 \<in> span p k"
  by (simp add: span_def less_eq_div_iff_mult_less_eq div_less_iff_less_mult)

lemma live_below:
  assumes "pmm_inv m" and "live m p k"
  shows "(p + 2 ^ k) * 4096 < W64" and "p + 2 ^ k \<le> pmm_max_pfn m"
proof -
  have b: "bounds_ok m" using assms(1) by (simp add: pmm_inv_def pmm_ok_def)
  have blk: "block_ok (zones m (zone_for_pfn p)) p k" and mx: "p < pmm_max_pfn m" using assms(2) by (auto simp: live_def)
  show le: "p + 2 ^ k \<le> pmm_max_pfn m"
    using blk end_le_max [OF b zone_for_pfn_frames(1) [OF b mx]] by (simp add: block_ok_def)
  then have "p + 2 ^ k < 2 ^ 52" using b by (auto simp: bounds_ok_def)
  then show "(p + 2 ^ k) * 4096 < W64" by simp
qed

lemma frames_put:
  assumes F: "frames_ok m B" and p: "(p, k) \<in> B" and a: "p * 4096 \<le> a" "a + length bs \<le> (p + 2 ^ k) * 4096"
  shows "frames_ok (put_bytes m a bs) B"
proof -
  note D = frames_okD [OF F]
  have "q * 4096 + 4096 \<le> a \<or> a + length bs \<le> q * 4096" if "has (pg_flags (pages m q)) PG_POISONED" for q
  proof -
    have "q \<notin> span p k" using D(3) [OF p] that by (auto simp: slab_frame_def)
    then have "Suc q \<le> p \<or> p + 2 ^ k \<le> q" by (auto simp: span_def)
    then show ?thesis
    proof
      assume "Suc q \<le> p"
      then have "Suc q * 4096 \<le> p * 4096" by (intro mult_right_mono) auto
      then show ?thesis using a(1) by simp
    next
      assume "p + 2 ^ k \<le> q"
      then have "(p + 2 ^ k) * 4096 \<le> q * 4096" by (intro mult_right_mono) auto
      then show ?thesis using a(2) by linarith
    qed
  qed
  then have "pmm_inv (put_bytes m a bs)" by (rule put_bytes_inv [OF D(1)])
  moreover have "live (put_bytes m a bs) x j = live m x j" for x j
    by (simp add: live_def pmm_managed_def pmm_free_def)
  moreover have "slab_frame (put_bytes m a bs) x q = slab_frame m x q" for x q by (simp add: slab_frame_def)
  ultimately show ?thesis using F unfolding frames_ok_def by simp
qed

section \<open>Allocation\<close>

definition took_slot :: "'a kheap_scheme \<Rightarrow> cref \<Rightarrow> kmem_cache \<Rightarrow> 'a kheap_scheme \<Rightarrow> pfn \<Rightarrow> nat \<Rightarrow> bool" where
  "took_slot h c kc h' p i \<longleftrightarrow>
     i < kc_objects_per_slab kc \<and> (p, i) \<notin> live_slots (hp_slabs h) c (kc_objects_per_slab kc)
     \<and> live_slots (hp_slabs h') c (kc_objects_per_slab kc) = insert (p, i) (live_slots (hp_slabs h) c (kc_objects_per_slab kc))
     \<and> (\<forall>d kd. d \<noteq> c \<and> hp_caches h d = Some kd \<longrightarrow>
          live_slots (hp_slabs h') d (kc_objects_per_slab kd) = live_slots (hp_slabs h) d (kc_objects_per_slab kd))"

text \<open>The cache after a slot of slab \<open>p\<close> has been taken.\<close>

definition after_take :: "kmem_cache \<Rightarrow> pfn \<Rightarrow> slab \<Rightarrow> kmem_cache" where
  "after_take kc p sl =
     (let kc = (if sl_free_count sl = 0 then let kc = unlink_slab p kc in kc\<lparr>kc_full := p # kc_full kc\<rparr> else kc)
      in kc\<lparr>kc_nr_allocated := u64 (kc_nr_allocated kc + 1), kc_nr_allocs := u64 (kc_nr_allocs kc + 1)\<rparr>)"

lemma take_heap_ok:
  assumes ok: "heap_ok {p} h" and c: "hp_caches h c = Some kc" and p: "p \<in> set (kc_partial kc)"
    and sl: "hp_slabs h p = Some sl" "sl_cache sl = c"
  obtains sl' i where "slab_take_slot kc sl = Some (sl', i)"
    and "heap_ok {} (h\<lparr>hp_slabs := (hp_slabs h)(p \<mapsto> sl'), hp_caches := (hp_caches h)(c \<mapsto> after_take kc p sl')\<rparr>)"
    and "took_slot h c kc (h\<lparr>hp_slabs := (hp_slabs h)(p \<mapsto> sl'), hp_caches := (hp_caches h)(c \<mapsto> after_take kc p sl')\<rparr>) p i"
    and "same_shape kc (after_take kc p sl')" and "sl_objects sl' = p * 4096 + kc_header_size kc" and "sl_cache sl' = c"
proof -
  have S: "store_ok {p} (hp_slabs h) (hp_caches h)" using ok by (simp add: heap_ok_def)
  note Kc = store_okD(2) [OF S c]
  note K = cache_okD [OF Kc]
  note U = unlink_lists [OF K(2), of p]
  have so: "slab_ok kc p sl" using store_okD(1) [OF S sl(1)] sl(2) c by auto
  have fc: "0 < sl_free_count sl" using K(4) [OF p] sl(1) by (simp add: free_of_def)
  obtain sl' i where T: "slab_take_slot kc sl = Some (sl', i)" "slab_ok kc p sl'" "sl_cache sl' = sl_cache sl"
      "i \<in> bits_of (sl_bitmap sl)" "bits_of (sl_bitmap sl') = bits_of (sl_bitmap sl) - {i}"
      "sl_free_count sl' = sl_free_count sl - 1"
    using slab_take_ok [OF so K(1) fc] by blast
  have i: "i < kc_objects_per_slab kc" using so T(4) by (auto simp: slab_ok_def)
  let ?kc = "after_take kc p sl'"
  have sc: "sl_cache sl' = c" using T(3) sl(2) by simp
  have sh: "same_shape kc ?kc" by (simp add: same_shape_def after_take_def Let_def)
  have pl: "p \<in> set (slab_lists kc)" using p by (simp add: slab_lists_def)
  have ps: "p \<in> slabs_of (hp_slabs h) c" using sl by (auto simp: slabs_of_def)
  have out: "p \<notin> set (kc_full kc)" "p \<notin> set (kc_empty kc)" using K(2) p by (auto simp: slab_lists_def)
  have live: "live_slots ((hp_slabs h)(p \<mapsto> sl')) c (kc_objects_per_slab kc)
      = insert (p, i) (live_slots (hp_slabs h) c (kc_objects_per_slab kc))"
    using sl sc i T(5) by (rule live_slots_take)
  have new: "(p, i) \<notin> live_slots (hp_slabs h) c (kc_objects_per_slab kc)" using T(4) sl(1) by (auto simp: live_slots_def)
  have fl: "sl_free_count sl \<le> kc_objects_per_slab kc" by (rule slab_free_bound [OF so])
  have lists: "slab_lists ?kc = (if sl_free_count sl' = 0
      then remove1 p (kc_partial kc) @ p # kc_full kc @ kc_empty kc else slab_lists kc)"
    using out by (simp add: after_take_def Let_def slab_lists_def remove1_idem)
  have "cache_ok {} ((hp_slabs h)(p \<mapsto> sl')) c ?kc"
  proof (rule cache_ok_moved [OF Kc ps sc sh])
    show "distinct (slab_lists ?kc)" using K(2) p unfolding lists by (auto simp: slab_lists_def)
    show "set (slab_lists ?kc) = set (slab_lists kc)" using U(4) p unfolding lists by (auto simp: slab_lists_def)
    show "kc_nr_allocated ?kc = u64 (card (live_slots ((hp_slabs h)(p \<mapsto> sl')) c (kc_objects_per_slab kc)))"
      using K(10) new finite_live_slots [OF Kc] by (simp add: live after_take_def Let_def u64_Suc [simplified])
  qed (use U out fc fl T(6) K(8,9) in \<open>auto simp: after_take_def Let_def remove1_idem split: if_splits\<close>)
  then have "heap_ok {} (h\<lparr>hp_slabs := (hp_slabs h)(p \<mapsto> sl'), hp_caches := (hp_caches h)(c \<mapsto> ?kc)\<rparr>)"
    by (intro heap_moved [OF ok sl(1) c sl(2) sc sh T(2)]) auto
  moreover have "took_slot h c kc (h\<lparr>hp_slabs := (hp_slabs h)(p \<mapsto> sl'), hp_caches := (hp_caches h)(c \<mapsto> ?kc)\<rparr>) p i"
    using i new live sl sc by (auto simp: took_slot_def intro!: live_slots_other)
  ultimately show thesis using that T(1,2) sh sc by (simp add: slab_ok_def)
qed

lemma kept_slab_step:
  assumes "kept h h1 {}" and "hp_caches h1 c = Some kc" and "same_shape kc kc'"
  shows "kept h (h1\<lparr>hp_slabs := s, hp_caches := (hp_caches h1)(c \<mapsto> kc')\<rparr>) A"
proof -
  have "rel_option same_shape (hp_caches h d) (((hp_caches h1)(c \<mapsto> kc')) d)" for d
    using assms same_shape_trans by (cases "d = c") (auto simp: kept_def option_rel_Some2 dest!: spec [of _ c])
  then show ?thesis using assms(1) by (simp add: kept_def)
qed

lemma kept_put:
  assumes "kept h h1 {}"
  shows "kept h (h1\<lparr>hp_pmm := put_bytes (hp_pmm h1) a bs\<rparr>) {a..<a + length bs}"
proof -
  have f: "pmm_free (put_bytes (hp_pmm h1) a bs) = pmm_free (hp_pmm h1)" by (simp add: pmm_free_def)
  have g: "same_globals (hp_pmm h) (put_bytes (hp_pmm h1) a bs) = same_globals (hp_pmm h) (hp_pmm h1)"
    by (simp add: same_globals_def)
  show ?thesis using assms by (simp add: kept_def f g get_put_byte)
qed

lemma heap_put:
  assumes "heap_ok X h" and "hp_slabs h p = Some sl" and "hp_caches h (sl_cache sl) = Some kc"
    and "p * 4096 \<le> a" and "a + length bs \<le> (p + 2 ^ kc_slab_order kc) * 4096"
  shows "heap_ok X (h\<lparr>hp_pmm := put_bytes (hp_pmm h) a bs\<rparr>)"
  using assms frames_put [OF _ slab_has_block [OF assms(1-3)] assms(4,5)] by (simp add: heap_ok_def)

lemma kmem_alloc_ok:
  assumes ok: "heap_ok {} h" and c: "hp_caches h c = Some kc"
  shows "kmem_cache_alloc h c fl fi = Some (h, None) \<or>
    (\<exists>h' p i. kmem_cache_alloc h c fl fi = Some (h', Some (obj_addr kc p i)) \<and> heap_ok {} h'
       \<and> took_slot h c kc h' p i \<and> kept h h' {obj_addr kc p i..<obj_addr kc p i + kc_object_size kc}
       \<and> (has fl KMEM_ZERO \<longrightarrow> (\<forall>x. obj_addr kc p i \<le> x \<and> x < obj_addr kc p i + kc_object_size kc
             \<longrightarrow> get_byte (hp_pmm h') x = 0)))"
proof (cases "fi \<or> pick_slab h c = Some (h, None)")
  case True
  then show ?thesis by (auto simp: kmem_cache_alloc_def)
next
  case False
  then obtain h1 p where P: "pick_slab h c = Some (h1, Some p)" "picked h c kc h1 p" using pick_ok [OF ok c] by blast
  obtain kc1 sl where Q: "heap_ok {p} h1" "kept h h1 {}" "hp_caches h1 c = Some kc1" "same_shape kc kc1"
      "p \<in> set (kc_partial kc1)" "hp_slabs h1 p = Some sl" "sl_cache sl = c"
      "\<forall>d kd. hp_caches h d = Some kd \<longrightarrow>
          live_slots (hp_slabs h1) d (kc_objects_per_slab kd) = live_slots (hp_slabs h) d (kc_objects_per_slab kd)"
    using P(2) by (auto simp: picked_def)
  obtain sl' i where T: "slab_take_slot kc1 sl = Some (sl', i)"
    and H: "heap_ok {} (h1\<lparr>hp_slabs := (hp_slabs h1)(p \<mapsto> sl'), hp_caches := (hp_caches h1)(c \<mapsto> after_take kc1 p sl')\<rparr>)"
    and L: "took_slot h1 c kc1 (h1\<lparr>hp_slabs := (hp_slabs h1)(p \<mapsto> sl'), hp_caches := (hp_caches h1)(c \<mapsto> after_take kc1 p sl')\<rparr>) p i"
    and sh: "same_shape kc1 (after_take kc1 p sl')" and so: "sl_objects sl' = p * 4096 + kc_header_size kc1"
    and sc: "sl_cache sl' = c"
    by (rule take_heap_ok [OF Q(1,3,5,6,7)])
  define h2 where "h2 = h1\<lparr>hp_slabs := (hp_slabs h1)(p \<mapsto> sl'), hp_caches := (hp_caches h1)(c \<mapsto> after_take kc1 p sl')\<rparr>"
  have K: "cache_wf kc" by (rule cache_okD(1) [OF heap_cacheD [OF ok c]])
  have shape: "kc_objects_per_slab kc1 = kc_objects_per_slab kc" "kc_slot_size kc1 = kc_slot_size kc"
      "kc_object_size kc1 = kc_object_size kc" "kc_header_size kc1 = kc_header_size kc"
      "kc_slab_order kc1 = kc_slab_order kc"
    using Q(4) by (simp_all add: same_shape_def)
  have old: "live_slots (hp_slabs h2) d (kc_objects_per_slab kd) = live_slots (hp_slabs h) d (kc_objects_per_slab kd)"
    if d: "d \<noteq> c" "hp_caches h d = Some kd" for d kd
  proof -
    have "rel_option same_shape (hp_caches h d) (hp_caches h1 d)" using Q(2) by (simp add: kept_def)
    then obtain kd1 where "hp_caches h1 d = Some kd1" "same_shape kd kd1" using d(2) by (auto simp: option_rel_Some1)
    then have "live_slots (hp_slabs h2) d (kc_objects_per_slab kd) = live_slots (hp_slabs h1) d (kc_objects_per_slab kd)"
      using L d(1) unfolding h2_def [symmetric] took_slot_def same_shape_def by metis
    then show ?thesis using Q(8) d(2) by simp
  qed
  have t: "took_slot h c kc h2 p i"
    using L Q(8) c old unfolding h2_def [symmetric] took_slot_def shape by simp
  have i: "i < kc_objects_per_slab kc" using t by (simp add: took_slot_def)
  note O = obj_bounds [OF K i, of p]
  have blk: "(p, kc_slab_order kc) \<in> slab_blocks (hp_slabs h1) (hp_caches h1)"
    using slab_has_block [OF Q(1,6)] Q(3,7) shape by simp
  have F1: "frames_ok (hp_pmm h1) (slab_blocks (hp_slabs h1) (hp_caches h1))" using Q(1) by (simp add: heap_ok_def)
  have "(p + 2 ^ kc_slab_order kc) * 4096 < W64" by (rule live_below(1) [OF frames_okD(1) [OF F1] frames_okD(2) [OF F1 blk]])
  then have addr: "u64 (sl_objects sl' + i * kc_slot_size kc1) = obj_addr kc p i"
    using O(2) by (simp add: so shape obj_addr_def [symmetric] u64_id)
  have kept2: "kept h h2 A" for A unfolding h2_def by (rule kept_slab_step [OF Q(2,3) sh])
  define h3 where "h3 = (if has fl KMEM_ZERO then h2\<lparr>hp_pmm := memset0 (hp_pmm h2) (obj_addr kc p i) (kc_object_size kc)\<rparr> else h2)"
  have step: "kmem_cache_alloc h c fl fi = Some (h3, Some (obj_addr kc p i))"
    using False P(1) Q(3,6) T addr
    by (simp add: kmem_cache_alloc_def h3_def h2_def after_take_def [symmetric] Let_def shape(3) [symmetric])
      (simp add: after_take_def Let_def)
  have f2: "hp_slabs h2 p = Some sl'" "hp_caches h2 (sl_cache sl') = Some (after_take kc1 p sl')"
    by (simp_all add: h2_def sc)
  have ord: "kc_slab_order (after_take kc1 p sl') = kc_slab_order kc" using sh shape(5) by (simp add: same_shape_def)
  show ?thesis
  proof (cases "has fl KMEM_ZERO")
    case True
    let ?z = "replicate (kc_object_size kc) (0::nat)"
    have h3: "h3 = h2\<lparr>hp_pmm := put_bytes (hp_pmm h2) (obj_addr kc p i) ?z\<rparr>" using True by (simp add: h3_def memset0_def)
    have "heap_ok {} h3"
      unfolding h3 using heap_put [OF H [folded h2_def] f2] O by (simp add: ord)
    moreover have "kept h h3 {obj_addr kc p i..<obj_addr kc p i + kc_object_size kc}"
      using kept_put [OF kept2, of "obj_addr kc p i" ?z] by (simp add: h3)
    moreover have "took_slot h c kc h3 p i" using t by (simp add: took_slot_def h3)
    moreover have "get_byte (hp_pmm h3) x = 0" if "obj_addr kc p i \<le> x" "x < obj_addr kc p i + kc_object_size kc" for x
      using that by (simp add: h3 get_put_byte)
    ultimately show ?thesis using step by blast
  next
    case False
    then show ?thesis using step t H kept2 by (auto simp: h3_def h2_def)
  qed
qed

end
