(* ===== verification/Slab_Free.thy ===== *)
theory Slab_Free
  imports Slab_Ops
begin

text \<open>
  Freeing objects and releasing slabs, and the contract of the object caches: what may be freed,
  what a free leaves, and that live objects never share a byte.
\<close>

section \<open>From an address to its slab\<close>

lemma slab_of_iff:
  assumes ok: "heap_ok X h"
  shows "slab_of h obj = Some p \<longleftrightarrow>
    (\<exists>sl kc. hp_slabs h p = Some sl \<and> hp_caches h (sl_cache sl) = Some kc \<and> obj div 4096 \<in> span p (kc_slab_order kc))"
proof -
  let ?m = "hp_pmm h" and ?q = "obj div 4096"
  have F: "frames_ok ?m (slab_blocks (hp_slabs h) (hp_caches h))" using ok by (simp add: heap_ok_def)
  note D = frames_okD [OF F]
  have pfn: "phys_to_pfn obj = ?q" by (simp add: phys_to_pfn_def PAGE_SHIFT_def drop_bit_eq_div)
  have so: "slab_of h obj = Some p \<longleftrightarrow> ?q < pmm_max_pfn ?m \<and> has (pg_flags (pages ?m ?q)) PG_SLAB \<and> pg_slab (pages ?m ?q) = Some p"
    by (auto simp: slab_of_def phys_to_page_def pfn_valid_def pfn Let_def split: if_splits)
  show ?thesis
  proof
    assume "slab_of h obj = Some p"
    then have s: "has (pg_flags (pages ?m ?q)) PG_SLAB" "pg_slab (pages ?m ?q) = Some p" using so by blast+
    obtain p' k where B: "(p', k) \<in> slab_blocks (hp_slabs h) (hp_caches h)" "?q \<in> span p' k" using D(4) [OF s(1)] by blast
    then have "p' = p" using D(3) s(2) by (auto simp: slab_frame_def)
    then show "\<exists>sl kc. hp_slabs h p = Some sl \<and> hp_caches h (sl_cache sl) = Some kc \<and> ?q \<in> span p (kc_slab_order kc)"
      using B by (auto simp: slab_blocks_def)
  next
    assume "\<exists>sl kc. hp_slabs h p = Some sl \<and> hp_caches h (sl_cache sl) = Some kc \<and> ?q \<in> span p (kc_slab_order kc)"
    then obtain sl kc where B: "hp_slabs h p = Some sl" "hp_caches h (sl_cache sl) = Some kc" "?q \<in> span p (kc_slab_order kc)"
      by blast
    note b = slab_has_block [OF ok B(1,2)]
    have "?q < pmm_max_pfn ?m" using live_below(2) [OF D(1) D(2) [OF b]] B(3) by (simp add: span_def)
    then show "slab_of h obj = Some p" using D(3) [OF b B(3)] so by (simp add: slab_frame_def)
  qed
qed

section \<open>Releasing a slab\<close>

lemma store_removed:
  assumes S: "store_ok {} slabs caches" and c: "caches c = Some kc" and p: "slabs p = Some sl" "sl_cache sl = c"
    and sh: "same_shape kc kc'" and l: "slab_lists kc' = slab_lists (unlink_slab p kc)"
      "kc_partial kc' = remove1 p (kc_partial kc)" "kc_full kc' = remove1 p (kc_full kc)"
      "kc_empty kc' = remove1 p (kc_empty kc)"
    and n: "kc_nr_slabs kc' = sub32 (kc_nr_slabs kc) 1" "kc_nr_empty kc' = length (kc_empty kc')"
      "kc_nr_allocated kc' = u64 (card (live_slots (slabs(p := None)) c (kc_objects_per_slab kc)))"
  shows "store_ok {} (slabs(p := None)) (caches(c \<mapsto> kc'))"
proof -
  note K = cache_okD [OF store_okD(2) [OF S c]]
  note U = unlink_lists [OF K(2), of p]
  have ps: "p \<in> set (slab_lists kc)" using K(3) p by (auto simp: slabs_of_def)
  have o: "slabs_of (slabs(p := None)) c = slabs_of slabs c - {p}" by (auto simp: slabs_of_def)
  have f: "free_of (slabs(p := None)) q = free_of slabs q" if "q \<noteq> p" for q using that by (simp add: free_of_def)
  have ob: "kc_objects_per_slab kc' = kc_objects_per_slab kc" using sh by (simp add: same_shape_def)
  have len: "kc_nr_slabs kc' = u32 (length (slab_lists kc'))"
    using sub32_u32 [of "length (slab_lists kc)"] by (simp add: n l(1) K(7) U(3) [OF ps, symmetric])
  have le: "length (kc_empty kc') \<le> SLAB_KEEP_EMPTY" using K(9) unfolding l(4) length_remove1 by (auto intro: le_trans [OF diff_le_self])
  have "cache_ok {} (slabs(p := None)) c kc'"
    unfolding cache_ok_def o ob l(1)
    using same_shape_wf [OF sh K(1)] U K(3,4,5,6) n(2,3) len [unfolded l(1)] le l(2-4) by (auto simp: f)
  moreover have "cache_ok {} (slabs(p := None)) d kd" if "caches d = Some kd" "d \<noteq> c" for d kd
    using store_okD(2) [OF S that(1)] that(2) p by (intro cache_ok_other [where c = c]) auto
  moreover have "\<exists>kd. (caches(c \<mapsto> kc')) (sl_cache t) = Some kd \<and> slab_ok kd q t" if "(slabs(p := None)) q = Some t" for q t
  proof -
    have "slabs q = Some t" using that by (auto split: if_splits)
    then obtain kd where "caches (sl_cache t) = Some kd" "slab_ok kd q t" using store_okD(1) [OF S] by blast
    then show ?thesis using c same_shape_slab [OF sh] by (cases "sl_cache t = c") auto
  qed
  ultimately show ?thesis unfolding store_ok_def by (auto split: if_splits)
qed

lemma slab_blocks_removed:
  assumes "slabs p = Some sl" and "sl_cache sl = c" and "caches c = Some kc" and "same_shape kc kc'"
  shows "slab_blocks (slabs(p := None)) (caches(c \<mapsto> kc')) = slab_blocks slabs caches - {(p, kc_slab_order kc)}"
  using assms unfolding slab_blocks_def same_shape_def by (auto split: if_splits)

text \<open>
  A slab of which all slots are free goes back to the frame allocator. The heap before has the slab
  unlinked already, so the invariant is that of the heap \<open>h\<close> before that.
\<close>

lemma release_ok:
  assumes ok: "heap_ok {} h" and c: "hp_caches h c = Some kc" and p: "hp_slabs h p = Some sl" "sl_cache sl = c"
    and sl: "sl_free_count sl' = kc_objects_per_slab kc" "sl_page sl' = p"
    and sh: "same_shape kc kc1" and l: "kc_partial kc1 = remove1 p (kc_partial kc)" "kc_full kc1 = remove1 p (kc_full kc)"
      "kc_empty kc1 = remove1 p (kc_empty kc)"
    and n: "kc_nr_slabs kc1 = kc_nr_slabs kc" "kc_nr_empty kc1 = length (kc_empty kc1)"
      "kc_nr_allocated kc1 = u64 (card (live_slots ((hp_slabs h)(p := None)) c (kc_objects_per_slab kc)))"
    and h1: "h1 = h\<lparr>hp_slabs := (hp_slabs h)(p \<mapsto> sl'), hp_caches := (hp_caches h)(c \<mapsto> kc1)\<rparr>"
  shows "\<exists>h'. slab_release h1 c p pc = Some h' \<and> heap_ok {} h' \<and> hp_slabs h' = (hp_slabs h)(p := None) \<and> kept h h' {}
    \<and> (\<exists>kc'. hp_caches h' = (hp_caches h)(c \<mapsto> kc') \<and> same_shape kc kc' \<and> kc_partial kc' = kc_partial kc1
         \<and> kc_full kc' = kc_full kc1 \<and> kc_empty kc' = kc_empty kc1 \<and> kc_nr_allocated kc' = kc_nr_allocated kc1)"
proof -
  let ?m = "hp_pmm h" and ?k = "kc_slab_order kc"
  have S: "store_ok {} (hp_slabs h) (hp_caches h)" and F: "frames_ok ?m (slab_blocks (hp_slabs h) (hp_caches h))"
    using ok by (auto simp: heap_ok_def)
  have blk: "(p, ?k) \<in> slab_blocks (hp_slabs h) (hp_caches h)" using slab_has_block [OF ok p(1)] p(2) c by simp
  obtain m' where R: "pmm_free_pages (?m\<lparr>pages := slab_unmark ?m p ?k\<rparr>) p ?k pc = Some m'"
      "frames_ok m' (slab_blocks (hp_slabs h) (hp_caches h) - {(p, ?k)})"
      "\<forall>q. q \<notin> span p ?k \<longrightarrow> frame_words m' q = frame_words ?m q" "pmm_free m' = pmm_free ?m \<union> span p ?k"
      "same_globals ?m m'" "\<forall>q. q \<notin> pmm_free ?m \<union> span p ?k \<longrightarrow> pages m' q = pages ?m q"
      "\<forall>q. has (pg_flags (pages m' q)) PG_KMALLOC_LARGE = has (pg_flags (pages ?m q)) PG_KMALLOC_LARGE"
    using frames_release [OF F blk, of pc] by blast
  define kc2 where "kc2 = kc1\<lparr>kc_nr_slabs := sub32 (kc_nr_slabs kc1) 1\<rparr>"
  have sh2: "same_shape kc kc2" and o1: "kc_slab_order kc1 = ?k" "kc_objects_per_slab kc1 = kc_objects_per_slab kc"
    using sh by (simp_all add: kc2_def same_shape_def)
  have "store_ok {} ((hp_slabs h)(p := None)) ((hp_caches h)(c \<mapsto> kc2))"
    by (rule store_removed [OF S c p sh2]) (simp_all add: kc2_def l n slab_lists_def)
  moreover have B: "slab_blocks ((hp_slabs h)(p := None)) ((hp_caches h)(c \<mapsto> kc2))
      = slab_blocks (hp_slabs h) (hp_caches h) - {(p, ?k)}"
    using p(1,2) c sh2 by (rule slab_blocks_removed)
  define h' where "h' = h\<lparr>hp_pmm := m', hp_slabs := (hp_slabs h)(p := None), hp_caches := (hp_caches h)(c \<mapsto> kc2)\<rparr>"
  ultimately have ok': "heap_ok {} h'" using R(2) by (simp add: heap_ok_def h'_def B)
  have step: "slab_release h1 c p pc = Some h'"
  proof -
    have f1: "hp_pmm h1 = ?m" "hp_slabs h1 p = Some sl'" "hp_caches h1 c = Some kc1" by (simp_all add: h1)
    show ?thesis
      using R(1) by (simp add: slab_release_def f1 sl o1 Let_def) (simp add: h1 h'_def kc2_def)
  qed
  have "get_byte m' x = get_byte ?m x" if "x div 4096 \<notin> span p ?k" for x
    by (rule frame_bytes_kept [OF R(3) that])
  moreover have "has (pg_flags (pages ?m q)) PG_SLAB" if "q \<in> span p ?k" for q
    using frames_okD(3) [OF F blk that] by (simp add: slab_frame_def)
  ultimately have "kept h h' {}" using c sh2 R(4-7) by (auto simp: kept_def h'_def)
  then show ?thesis using ok' step sh2 by (intro exI [of _ h']) (auto simp: h'_def kc2_def)
qed

section \<open>Freeing an object\<close>

lemma live_slots_full:
  "bits_of (sl_bitmap sl') = {..<n} \<Longrightarrow> live_slots (slabs(p \<mapsto> sl')) c n = live_slots (slabs(p := None)) c n"
  unfolding live_slots_def by (auto split: if_splits)

definition gave_slot :: "'a kheap_scheme \<Rightarrow> cref \<Rightarrow> kmem_cache \<Rightarrow> 'a kheap_scheme \<Rightarrow> pfn \<Rightarrow> nat \<Rightarrow> bool" where
  "gave_slot h c kc h' p i \<longleftrightarrow>
     live_slots (hp_slabs h') c (kc_objects_per_slab kc) = live_slots (hp_slabs h) c (kc_objects_per_slab kc) - {(p, i)}
     \<and> (\<forall>d kd. d \<noteq> c \<and> hp_caches h d = Some kd \<longrightarrow>
          live_slots (hp_slabs h') d (kc_objects_per_slab kd) = live_slots (hp_slabs h) d (kc_objects_per_slab kd))"

lemma obj_slot:
  assumes ok: "heap_ok X h" and c: "hp_caches h c = Some kc" and sl: "hp_slabs h p = Some sl" "sl_cache sl = c"
    and i: "i < kc_objects_per_slab kc"
  shows "slab_of h (obj_addr kc p i) = Some p" and "sub64 (obj_addr kc p i) (sl_objects sl) = i * kc_slot_size kc"
    and "0 < kc_slot_size kc"
proof -
  have K: "cache_wf kc" by (rule cache_okD(1) [OF heap_cacheD [OF ok c]])
  note O = obj_bounds [OF K i, of p]
  show s: "0 < kc_slot_size kc" using cache_wf_bounds(3) [OF K] by simp
  then have "obj_addr kc p i < (p + 2 ^ kc_slab_order kc) * 4096" using O(2) by linarith
  note A = addr_in_span [OF O(1) this]
  show "slab_of h (obj_addr kc p i) = Some p" using slab_of_iff [OF ok] sl c A by auto
  have F: "frames_ok (hp_pmm h) (slab_blocks (hp_slabs h) (hp_caches h))" using ok by (simp add: heap_ok_def)
  have "(p, kc_slab_order kc) \<in> slab_blocks (hp_slabs h) (hp_caches h)" using slab_has_block [OF ok sl(1)] sl(2) c by simp
  then have "(p + 2 ^ kc_slab_order kc) * 4096 < W64" by (intro live_below(1) [OF frames_okD(1) [OF F]] frames_okD(2) [OF F])
  then have "obj_addr kc p i < W64" using O(2) by linarith
  moreover have "sl_objects sl = p * 4096 + kc_header_size kc"
    using cache_of_slab [OF ok sl(1)] sl(2) c by (auto simp: slab_ok_def)
  ultimately show "sub64 (obj_addr kc p i) (sl_objects sl) = i * kc_slot_size kc"
    by (simp add: obj_addr_def sub64_id)
qed

text \<open>The slab and the cache after the slot has been given back, before any list is changed again.\<close>

definition given_slab :: "slab \<Rightarrow> nat \<Rightarrow> slab" where
  "given_slab sl idx = sl\<lparr>sl_bitmap := (sl_bitmap sl)[idx div 64 := sl_bitmap sl ! (idx div 64) OR push_bit (idx mod 64) 1],
     sl_free_count := u32 (sl_free_count sl + 1)\<rparr>"

definition given_cache :: "kmem_cache \<Rightarrow> pfn \<Rightarrow> slab \<Rightarrow> kmem_cache" where
  "given_cache kc p sl =
     (let kc = kc\<lparr>kc_nr_allocated := sub64 (kc_nr_allocated kc) 1, kc_nr_frees := u64 (kc_nr_frees kc + 1)\<rparr>
      in if sl_free_count sl = 1 then let kc = unlink_slab p kc in kc\<lparr>kc_partial := p # kc_partial kc\<rparr> else kc)"

lemma given_slab_ok:
  assumes "slab_ok kc p sl" and "cache_wf kc" and "i < kc_objects_per_slab kc" and "i \<notin> bits_of (sl_bitmap sl)"
  shows "slab_ok kc p (given_slab sl i)" and "bits_of (sl_bitmap (given_slab sl i)) = insert i (bits_of (sl_bitmap sl))"
    and "sl_free_count (given_slab sl i) = sl_free_count sl + 1" and "sl_cache (given_slab sl i) = sl_cache sl"
    and "i div 64 < length (sl_bitmap sl)" and "sl_bitmap sl ! (i div 64) AND push_bit (i mod 64) 1 = 0"
proof -
  have n: "kc_objects_per_slab kc \<le> 2048" by (rule cache_wf_bounds(1) [OF assms(2)])
  have "i div 64 * 64 \<le> i" by simp
  then have "Suc (i div 64) * 64 \<le> kc_objects_per_slab kc + 63" using assms(3) unfolding mult_Suc by linarith
  then have "Suc (i div 64) \<le> (kc_objects_per_slab kc + 63) div 64" by (subst less_eq_div_iff_mult_less_eq) simp_all
  then show w: "i div 64 < length (sl_bitmap sl)" using assms(1) n by (simp add: slab_ok_def bitmap_words_bound)
  show b: "bits_of (sl_bitmap (given_slab sl i)) = insert i (bits_of (sl_bitmap sl))"
    using bits_of_set [OF w, of "i mod 64"] by (simp add: given_slab_def)
  have "\<not> bit (sl_bitmap sl ! (i div 64)) (i mod 64)" using assms(4) w by (simp add: bits_of_def)
  then show "sl_bitmap sl ! (i div 64) AND push_bit (i mod 64) 1 = 0" by (simp only: bit_iff_and_push_bit_not_eq_0) simp
  have "sl_free_count sl \<le> 2048" using slab_free_bound [OF assms(1)] n by linarith
  then show f: "sl_free_count (given_slab sl i) = sl_free_count sl + 1" by (simp add: given_slab_def u32_id)
  show "sl_cache (given_slab sl i) = sl_cache sl" by (simp add: given_slab_def)
  have "sl_free_count (given_slab sl i) = card (insert i (bits_of (sl_bitmap sl)))"
    using assms(1,4) f by (simp add: slab_ok_def)
  then show "slab_ok kc p (given_slab sl i)"
    using assms(1,3) b by (auto simp: slab_ok_def given_slab_def)
qed

text \<open>The body of \<open>kmem_cache_free\<close> once the object has been found live.\<close>

lemma free_steps:
  assumes ok: "heap_ok {} h" and c: "hp_caches h c = Some kc" and sl: "hp_slabs h p = Some sl" "sl_cache sl = c"
    and i: "i < kc_objects_per_slab kc" "i \<notin> bits_of (sl_bitmap sl)"
    and defs: "sl' = given_slab sl i" "kc1 = given_cache kc p (given_slab sl i)"
      "h1 = h\<lparr>hp_slabs := (hp_slabs h)(p \<mapsto> given_slab sl i)\<rparr>"
  shows "kmem_cache_free h c (obj_addr kc p i) pc =
    (if sl_free_count sl' = kc_objects_per_slab kc
     then (let kc2 = unlink_slab p kc1 in
           if kc_nr_empty kc2 < SLAB_KEEP_EMPTY
           then Some (set_cache h1 c (kc2\<lparr>kc_empty := p # kc_empty kc2, kc_nr_empty := u32 (kc_nr_empty kc2 + 1)\<rparr>))
           else slab_release (set_cache h1 c kc2) c p pc)
     else Some (set_cache h1 c kc1))"
proof -
  note O = obj_slot [OF ok c sl i(1)]
  have K: "cache_wf kc" by (rule cache_okD(1) [OF heap_cacheD [OF ok c]])
  have so: "slab_ok kc p sl" using cache_of_slab [OF ok sl(1)] sl(2) c by auto
  note G = given_slab_ok [OF so K i]
  have "i < W32" using i(1) cache_wf_bounds(1) [OF K] by linarith
  then have u: "u32 i = i" by (rule u32_id)
  have e: "sub64 (obj_addr kc p i) (sl_objects sl) mod kc_slot_size kc = 0"
      "sub64 (obj_addr kc p i) (sl_objects sl) div kc_slot_size kc = i"
    using O(2,3) by simp_all
  have n: "(kc_objects_per_slab kc \<le> i) = False" using i(1) by simp
  show ?thesis
    unfolding kmem_cache_free_def Let_def defs
    by (simp add: O(1) sl c e u n G(6) [simplified] given_slab_def given_cache_def Let_def)
qed

lemma given_cache_fields:
  "kc_full (given_cache kc p t) = (if sl_free_count t = 1 then remove1 p (kc_full kc) else kc_full kc)"
  "kc_empty (given_cache kc p t) = (if sl_free_count t = 1 then remove1 p (kc_empty kc) else kc_empty kc)"
  "kc_partial (given_cache kc p t) = (if sl_free_count t = 1 then p # remove1 p (kc_partial kc) else kc_partial kc)"
  "kc_nr_allocated (given_cache kc p t) = sub64 (kc_nr_allocated kc) 1"
  "kc_nr_slabs (given_cache kc p t) = kc_nr_slabs kc" "kc_nr_empty (given_cache kc p t) = kc_nr_empty kc"
  "same_shape kc (given_cache kc p t)"
  by (simp_all add: given_cache_def Let_def same_shape_def)

lemma kmem_free_ok:
  assumes ok: "heap_ok {} h" and c: "hp_caches h c = Some kc"
    and live: "(p, i) \<in> live_slots (hp_slabs h) c (kc_objects_per_slab kc)"
  shows "\<exists>h'. kmem_cache_free h c (obj_addr kc p i) pc = Some h' \<and> heap_ok {} h' \<and> gave_slot h c kc h' p i \<and> kept h h' {}"
proof -
  obtain sl where sl: "hp_slabs h p = Some sl" "sl_cache sl = c" and i: "i < kc_objects_per_slab kc" "i \<notin> bits_of (sl_bitmap sl)"
    using live by (auto simp: live_slots_def)
  have S: "store_ok {} (hp_slabs h) (hp_caches h)" using ok by (simp add: heap_ok_def)
  note Kc = heap_cacheD [OF ok c]
  note K = cache_okD [OF Kc]
  note U = unlink_lists [OF K(2), of p]
  have so: "slab_ok kc p sl" using cache_of_slab [OF ok sl(1)] sl(2) c by auto
  define sl' where "sl' = given_slab sl i"
  define kc1 where "kc1 = given_cache kc p sl'"
  define h1 where "h1 = h\<lparr>hp_slabs := (hp_slabs h)(p \<mapsto> sl')\<rparr>"
  note G = given_slab_ok [OF so K(1) i, folded sl'_def]
  note C = given_cache_fields [of kc p sl', folded kc1_def]
  note step = free_steps [OF ok c sl i sl'_def kc1_def [unfolded sl'_def] h1_def [unfolded sl'_def], of pc]
  have sc: "sl_cache sl' = c" using G(4) sl(2) by simp
  have ps: "p \<in> slabs_of (hp_slabs h) c" using sl by (auto simp: slabs_of_def)
  have pl: "p \<in> set (slab_lists kc)" using K(3) ps by simp
  have fo: "free_of (hp_slabs h) p = sl_free_count sl" using sl(1) by (simp add: free_of_def)
  have lt: "sl_free_count sl < kc_objects_per_slab kc"
    using slab_free_bound [OF G(1)] G(3) by simp
  then have ne: "p \<notin> set (kc_empty kc)" using K(6) fo by auto
  have give: "live_slots ((hp_slabs h)(p \<mapsto> sl')) c (kc_objects_per_slab kc) = live_slots (hp_slabs h) c (kc_objects_per_slab kc) - {(p, i)}"
    using sl sc G(2) by (rule live_slots_give)
  have cnt: "sub64 (kc_nr_allocated kc) 1 = u64 (card (live_slots (hp_slabs h) c (kc_objects_per_slab kc) - {(p, i)}))"
  proof -
    have "0 < card (live_slots (hp_slabs h) c (kc_objects_per_slab kc))"
      using live finite_live_slots [OF Kc] card_gt_0_iff by blast
    from sub64_u64 [OF this] show ?thesis unfolding K(10) card_Diff_singleton [OF live] .
  qed
  have gave: "gave_slot h c kc (h\<lparr>hp_slabs := (hp_slabs h)(p \<mapsto> sl'), hp_caches := x\<rparr>) p i" for x
  proof -
    have "live_slots ((hp_slabs h)(p \<mapsto> sl')) d n = live_slots (hp_slabs h) d n" if "d \<noteq> c" for d n
      using that sl sc by (intro live_slots_other) auto
    then show ?thesis using give by (simp add: gave_slot_def)
  qed
  have finish: "\<exists>h'. Some (set_cache h1 c k) = Some h' \<and> heap_ok {} h' \<and> gave_slot h c kc h' p i \<and> kept h h' {}"
    if k: "same_shape kc k" "cache_ok {} ((hp_slabs h)(p \<mapsto> sl')) c k" for k
  proof -
    have "heap_ok {} (h\<lparr>hp_slabs := (hp_slabs h)(p \<mapsto> sl'), hp_caches := (hp_caches h)(c \<mapsto> k)\<rparr>)"
      by (intro heap_moved [OF ok sl(1) c sl(2) sc k(1) G(1) k(2)]) auto
    then show ?thesis using gave kept_caches [OF c k(1)] by (simp add: h1_def)
  qed
  show ?thesis
  proof (cases "sl_free_count sl' = kc_objects_per_slab kc")
    case False
    have lists: "slab_lists kc1 = (if sl_free_count sl' = 1 then p # slab_lists (unlink_slab p kc) else slab_lists kc)"
      by (simp add: slab_lists_def C)
    have "p \<notin> set (kc_full kc)" if "sl_free_count sl' \<noteq> 1" using that K(5) [of p] fo G(3) by auto
    then have nf: "p \<notin> set (kc_full kc1)" unfolding C(1) using U(5) by auto
    have ee: "kc_empty kc1 = kc_empty kc" unfolding C(2) using ne by (simp add: remove1_idem)
    have "cache_ok {} ((hp_slabs h)(p \<mapsto> sl')) c kc1"
    proof (rule cache_ok_moved [OF Kc ps sc C(7)])
      show "distinct (slab_lists kc1)" unfolding lists using U(1,2) K(2) by simp
      show "set (slab_lists kc1) = set (slab_lists kc)" unfolding lists using U(2) pl by auto
      show "set (kc_partial kc1) - {p} \<subseteq> set (kc_partial kc)" unfolding C(3) using U(4) by auto
      show "set (kc_full kc1) - {p} \<subseteq> set (kc_full kc)" unfolding C(1) using U(5) by auto
      show "0 < sl_free_count sl' \<and> (sl_free_count sl' < kc_objects_per_slab kc \<or> p \<in> {})"
        using G(3) lt False by simp
      show "kc_nr_allocated kc1 = u64 (card (live_slots ((hp_slabs h)(p \<mapsto> sl')) c (kc_objects_per_slab kc)))"
        unfolding C(4) cnt give ..
    qed (simp_all add: nf ne ee C(5,6) K(8,9))
    then show ?thesis using step False finish [OF C(7)] by (simp add: sl'_def)
  next
    case True
    define kc2 where "kc2 = unlink_slab p kc1"
    have f2: "kc_partial kc2 = remove1 p (kc_partial kc)" "kc_full kc2 = remove1 p (kc_full kc)" "kc_empty kc2 = kc_empty kc"
        "kc_nr_empty kc2 = kc_nr_empty kc" "kc_nr_slabs kc2 = kc_nr_slabs kc" "kc_nr_allocated kc2 = sub64 (kc_nr_allocated kc) 1"
    proof -
      have "p \<notin> set (remove1 p (kc_full kc))" "p \<notin> set (remove1 p (kc_empty kc))" using U(5,6) by simp_all
      then show "kc_partial kc2 = remove1 p (kc_partial kc)" "kc_full kc2 = remove1 p (kc_full kc)" "kc_empty kc2 = kc_empty kc"
        using ne by (simp_all add: kc2_def C remove1_idem)
    qed (simp_all add: kc2_def C)
    have sh2: "same_shape kc kc2" using C(7) by (simp add: kc2_def same_shape_def)
    have ul: "slab_lists (unlink_slab p kc) = remove1 p (kc_partial kc) @ remove1 p (kc_full kc) @ kc_empty kc"
      using ne by (simp add: slab_lists_def remove1_idem)
    show ?thesis
    proof (cases "kc_nr_empty kc2 < SLAB_KEEP_EMPTY")
      case keep: True
      define kc3 where "kc3 = kc2\<lparr>kc_empty := p # kc_empty kc2, kc_nr_empty := u32 (kc_nr_empty kc2 + 1)\<rparr>"
      have f3: "kc_partial kc3 = remove1 p (kc_partial kc)" "kc_full kc3 = remove1 p (kc_full kc)" "kc_empty kc3 = p # kc_empty kc"
          "kc_nr_slabs kc3 = kc_nr_slabs kc" "kc_nr_allocated kc3 = sub64 (kc_nr_allocated kc) 1"
        by (simp_all add: kc3_def f2)
      have le: "length (kc_empty kc) < SLAB_KEEP_EMPTY" using keep f2(4) K(8) by simp
      have l3: "slab_lists kc3 = remove1 p (kc_partial kc) @ remove1 p (kc_full kc) @ p # kc_empty kc"
        by (simp add: slab_lists_def f3)
      have e3: "kc_nr_empty kc3 = length (kc_empty kc3)"
        using le unfolding kc3_def by (simp add: f2 K(8) u32_id SLAB_KEEP_EMPTY_def)
      have sh3: "same_shape kc kc3" using sh2 by (simp add: kc3_def same_shape_def)
      have "cache_ok {} ((hp_slabs h)(p \<mapsto> sl')) c kc3"
      proof (rule cache_ok_moved [OF Kc ps sc sh3])
        show "distinct (slab_lists kc3)" using U(1,2) unfolding l3 ul by auto
        show "set (slab_lists kc3) = set (slab_lists kc)" using U(2) pl unfolding l3 ul by auto
        show "kc_nr_allocated kc3 = u64 (card (live_slots ((hp_slabs h)(p \<mapsto> sl')) c (kc_objects_per_slab kc)))"
          unfolding f3 cnt give ..
        show "length (kc_empty kc3) \<le> SLAB_KEEP_EMPTY" using le by (simp add: f3)
      qed (use U(4,5) True e3 in \<open>simp_all add: f3\<close>)
      then show ?thesis using step True keep finish [OF sh3] by (simp add: sl'_def kc2_def [symmetric] kc3_def Let_def)
    next
      case False
      have bits: "bits_of (sl_bitmap sl') = {..<kc_objects_per_slab kc}"
        using G(1) True by (intro card_subset_eq) (auto simp: slab_ok_def)
      then have none: "live_slots ((hp_slabs h)(p := None)) c (kc_objects_per_slab kc)
          = live_slots (hp_slabs h) c (kc_objects_per_slab kc) - {(p, i)}"
        unfolding give [symmetric] by (rule live_slots_full [symmetric])
      have pg: "sl_page sl' = p" using G(1) by (simp add: slab_ok_def)
      have e2: "kc_nr_empty kc2 = length (kc_empty kc2)" using K(8) by (simp add: f2)
      have em: "kc_empty kc2 = remove1 p (kc_empty kc)" using ne by (simp add: f2 remove1_idem)
      have "kc_nr_allocated kc2 = u64 (card (live_slots ((hp_slabs h)(p := None)) c (kc_objects_per_slab kc)))"
        unfolding none f2 cnt ..
      from release_ok [OF ok c sl True pg sh2 f2(1,2) em f2(5) e2 this refl, of pc]
      obtain h' where R: "slab_release (h\<lparr>hp_slabs := (hp_slabs h)(p \<mapsto> sl'), hp_caches := (hp_caches h)(c \<mapsto> kc2)\<rparr>) c p pc = Some h'"
          "heap_ok {} h'" "hp_slabs h' = (hp_slabs h)(p := None)" "kept h h' {}"
        by blast
      have "live_slots ((hp_slabs h)(p := None)) d n = live_slots (hp_slabs h) d n" if "d \<noteq> c" for d n
        using that sl by (intro live_slots_other) auto
      then have "gave_slot h c kc h' p i" using none by (simp add: gave_slot_def R(3))
      then show ?thesis using step True False R by (simp add: sl'_def kc2_def [symmetric] h1_def Let_def)
    qed
  qed
qed

lemma kmem_free_only:
  assumes ok: "heap_ok X h" and f: "kmem_cache_free h c obj pc = Some h'"
  shows "obj \<in> live_objs h c"
proof -
  obtain p sl kc where s: "slab_of h obj = Some p" "hp_slabs h p = Some sl" "sl_cache sl = c" "hp_caches h c = Some kc"
    and o: "sub64 obj (sl_objects sl) mod kc_slot_size kc = 0" "sub64 obj (sl_objects sl) div kc_slot_size kc < kc_objects_per_slab kc"
    and b: "sl_bitmap sl ! (u32 (sub64 obj (sl_objects sl) div kc_slot_size kc) div 64)
        AND push_bit (u32 (sub64 obj (sl_objects sl) div kc_slot_size kc) mod 64) 1 = 0"
    using f unfolding kmem_cache_free_def Let_def by (auto split: bind_splits simp: kassert_def split: if_splits)
  have K: "cache_wf kc" by (rule cache_okD(1) [OF heap_cacheD [OF ok s(4)]])
  have so: "slab_ok kc p sl" using cache_of_slab [OF ok s(2)] s(3,4) by auto
  define i where "i = sub64 obj (sl_objects sl) div kc_slot_size kc"
  have i: "i < kc_objects_per_slab kc" using o(2) by (simp add: i_def)
  have "i < W32" using i cache_wf_bounds(1) [OF K] by linarith
  then have "\<not> bit (sl_bitmap sl ! (i div 64)) (i mod 64)"
    using b unfolding i_def [symmetric] bit_iff_and_push_bit_not_eq_0 by (simp add: u32_id)
  then have live: "(p, i) \<in> live_slots (hp_slabs h) c (kc_objects_per_slab kc)"
    using s i by (simp add: live_slots_def bits_of_def)
  have off: "sub64 obj (sl_objects sl) = i * kc_slot_size kc" using o(1) by (auto simp: i_def)
  have A: "obj div 4096 \<in> span p (kc_slab_order kc)" using s(1) slab_of_iff [OF ok] s(2-4) by auto
  have base: "sl_objects sl = p * 4096 + kc_header_size kc" using so by (simp add: slab_ok_def)
  have F: "frames_ok (hp_pmm h) (slab_blocks (hp_slabs h) (hp_caches h))" using ok by (simp add: heap_ok_def)
  have blk: "(p, kc_slab_order kc) \<in> slab_blocks (hp_slabs h) (hp_caches h)" using slab_has_block [OF ok s(2)] s(3,4) by simp
  have top: "(p + 2 ^ kc_slab_order kc) * 4096 < W64" by (rule live_below(1) [OF frames_okD(1) [OF F] frames_okD(2) [OF F blk]])
  have "obj < (p + 2 ^ kc_slab_order kc) * 4096" "p * 4096 \<le> obj"
    using A by (auto simp: span_def div_less_iff_less_mult less_eq_div_iff_mult_less_eq)
  moreover note O = obj_bounds(2) [OF K i, of p]
  ultimately have "obj = obj_addr kc p i"
  proof (cases "sl_objects sl \<le> obj")
    case True
    have "obj < W64" using \<open>obj < (p + 2 ^ kc_slab_order kc) * 4096\<close> top by linarith
    from sub64_id [OF True this] show ?thesis using off True base by (simp add: obj_addr_def)
  next
    case False
    have lt: "sl_objects sl \<le> (p + 2 ^ kc_slab_order kc) * 4096" using O by (simp add: base obj_addr_def)
    then have sm: "sl_objects sl mod W64 = sl_objects sl" using top by simp
    have "sub64 obj (sl_objects sl) = obj + W64 - sl_objects sl"
      unfolding sub64_def sm using False lt top by (intro mod_less) linarith
    moreover have "i * kc_slot_size kc + kc_header_size kc \<le> 32768"
    proof -
      have "i * kc_slot_size kc \<le> kc_objects_per_slab kc * kc_slot_size kc" using i by (intro mult_right_mono) auto
      then show ?thesis using cache_wf_bounds(4) [OF K] by linarith
    qed
    ultimately have False using off base \<open>p * 4096 \<le> obj\<close> by linarith
    then show ?thesis ..
  qed
  then show ?thesis using live s(4) by (force simp: live_objs_def)
qed

lemma obj_addr_inj:
  assumes ok: "heap_ok X h" and c: "hp_caches h c = Some kc" "hp_caches h d = Some kd"
    and l: "(p, i) \<in> live_slots (hp_slabs h) c (kc_objects_per_slab kc)" "(q, j) \<in> live_slots (hp_slabs h) d (kc_objects_per_slab kd)"
    and ne: "c \<noteq> d \<or> (p, i) \<noteq> (q, j)"
  shows "{obj_addr kc p i..<obj_addr kc p i + kc_slot_size kc} \<inter> {obj_addr kd q j..<obj_addr kd q j + kc_slot_size kd} = {}"
proof -
  obtain sl sm where s: "hp_slabs h p = Some sl" "sl_cache sl = c" "i < kc_objects_per_slab kc"
      "hp_slabs h q = Some sm" "sl_cache sm = d" "j < kc_objects_per_slab kd"
    using l by (auto simp: live_slots_def)
  have F: "frames_ok (hp_pmm h) (slab_blocks (hp_slabs h) (hp_caches h))" using ok by (simp add: heap_ok_def)
  have K: "cache_wf kc" "cache_wf kd" using cache_okD(1) [OF heap_cacheD [OF ok]] c by blast+
  note O = obj_bounds [OF K(1) s(3), of p] obj_bounds [OF K(2) s(6), of q]
  show ?thesis
  proof (cases "p = q")
    case True
    then have "c = d" "kc = kd" "i \<noteq> j" using s c ne by auto
    then have "i * kc_slot_size kc + kc_slot_size kc \<le> j * kc_slot_size kc \<or> j * kc_slot_size kc + kc_slot_size kc \<le> i * kc_slot_size kc"
      using mult_le_mono1 [of "Suc i" j "kc_slot_size kc"] mult_le_mono1 [of "Suc j" i "kc_slot_size kc"] by (cases "i < j") auto
    then show ?thesis using True \<open>kc = kd\<close> by (auto simp: obj_addr_def)
  next
    case False
    have b: "(p, kc_slab_order kc) \<in> slab_blocks (hp_slabs h) (hp_caches h)" "(q, kc_slab_order kd) \<in> slab_blocks (hp_slabs h) (hp_caches h)"
      using slab_has_block [OF ok s(1)] slab_has_block [OF ok s(4)] s(2,5) c by auto
    have dis: "span p (kc_slab_order kc) \<inter> span q (kc_slab_order kd) = {}"
      using live_disjoint [OF frames_okD(2) [OF F b(1)] frames_okD(2) [OF F b(2)] False] .
    show ?thesis
    proof (rule equals0I)
      fix x
      assume "x \<in> {obj_addr kc p i..<obj_addr kc p i + kc_slot_size kc} \<inter> {obj_addr kd q j..<obj_addr kd q j + kc_slot_size kd}"
      then have "x div 4096 \<in> span p (kc_slab_order kc)" "x div 4096 \<in> span q (kc_slab_order kd)"
        using O by (auto intro!: addr_in_span)
      then show False using dis by blast
    qed
  qed
qed

end
