(* ===== verification/Slab_Contract.thy ===== *)
theory Slab_Contract
  imports Slab_Free
begin

text \<open>
  The contract of the object caches, on a heap that \<open>slab_bootstrap\<close> makes: allocation, freeing, the
  separation of objects, and the shape of a slab.
\<close>

section \<open>A heap with no slab yet\<close>

lemma fresh_cache_ok:
  assumes "cache_wf kc" and "kc_partial kc = []" and "kc_full kc = []" and "kc_empty kc = []"
    and "kc_nr_slabs kc = 0" and "kc_nr_empty kc = 0" and "kc_nr_allocated kc = 0" and "slabs_of slabs c = {}"
  shows "cache_ok X slabs c kc"
proof -
  have "live_slots slabs c n = {}" for n using assms(8) by (auto simp: live_slots_def slabs_of_def)
  then show ?thesis using assms by (simp add: cache_ok_def slab_lists_def u32_def u64_def)
qed

lemma fit_objects_rec:
  "fit_objects nbytes slot algn n =
     (if n = 0 then 0 else if u64 (header_bytes n algn + u64 (n * slot)) > nbytes then fit_objects nbytes slot algn (n - 1)
      else n)"
  by (cases n) simp_all

lemma cache_setup_cache: "\<exists>kc. cache_setup ''kmem_cache'' sizeof_kmem_cache 0 = Some kc \<and> cache_wf kc
    \<and> kc_slab_order kc = 0 \<and> kc_partial kc = [] \<and> kc_empty kc = [] \<and> cache_ok {} Map.empty Cache_Cache kc"
proof -
  have h: "header_bytes (Suc 0) 16 = 64" "header_bytes 22 16 = 64"
    by (simp_all add: header_bytes_def align_up_size_def align_down_def sizeof_slab_def u32_id u64_id)
  have "fit_objects 4096 176 16 22 = 22" by (subst fit_objects_rec) (simp add: h u64_id)
  then have "layout 176 16 = Some (0, 22, 64)"
    unfolding layout_def SLAB_MAX_ORDER_def
    by (simp add: upt_rec h u32_id sub64_id PAGE_SIZE_def PAGE_SHIFT_def SLAB_MIN_OBJECTS_def)
  moreover have "align_up_size sizeof_kmem_cache 16 = 176"
    by (simp add: align_up_size_def align_down_def sizeof_kmem_cache_def u64_id)
  moreover have "(16::nat) AND 15 = 0" by simp
  ultimately obtain kc where kc: "cache_setup ''kmem_cache'' sizeof_kmem_cache 0 = Some kc" "kc_slab_order kc = 0"
    by (simp add: cache_setup_def KMALLOC_MIN_ALIGN_def cache_init_def sizeof_kmem_cache_def Let_def)
  note S = cache_setup_ok [OF kc(1)]
  have "cache_ok {} Map.empty Cache_Cache kc"
    using S by (intro fresh_cache_ok) (auto simp: sizeof_kmem_cache_def slabs_of_def)
  then show ?thesis using kc S by (auto simp: sizeof_kmem_cache_def)
qed

definition empty_heap :: "pmm \<Rightarrow> kheap" where
  "empty_heap m = \<lparr>hp_pmm = m, hp_slabs = Map.empty, hp_caches = Map.empty, g_caches = []\<rparr>"

definition no_slab_frames :: "pmm \<Rightarrow> bool" where
  "no_slab_frames m \<longleftrightarrow> (\<forall>q. \<not> has (pg_flags (pages m q)) PG_SLAB)"

lemma bootstrap_ok:
  assumes "pmm_inv m" and "no_slab_frames m"
  obtains h kc where "slab_bootstrap (empty_heap m) = Some h" and "heap_ok {} h" and "hp_caches h Cache_Cache = Some kc"
    and "live_objs h Cache_Cache = {}" and "hp_pmm h = m" and "hp_caches h (Cache_At a) = None"
proof -
  obtain kc where kc: "cache_setup ''kmem_cache'' sizeof_kmem_cache 0 = Some kc" "cache_ok {} Map.empty Cache_Cache kc"
    using cache_setup_cache by blast
  let ?h = "(set_cache (empty_heap m) Cache_Cache kc)\<lparr>g_caches := g_caches (empty_heap m) @ [Cache_Cache]\<rparr>"
  have b: "slab_blocks Map.empty x = {}" for x by (simp add: slab_blocks_def)
  have "frames_ok m {}" using assms by (auto simp: frames_ok_def no_slab_frames_def)
  moreover have "store_ok {} Map.empty [Cache_Cache \<mapsto> kc]" using kc(2) by (simp add: store_ok_def)
  ultimately have "heap_ok {} ?h" by (simp add: heap_ok_def empty_heap_def b)
  moreover have "slab_bootstrap (empty_heap m) = Some ?h" using kc(1) by (simp add: slab_bootstrap_def)
  moreover have "live_objs ?h Cache_Cache = {}" by (simp add: live_objs_def live_slots_def empty_heap_def)
  ultimately show thesis using that by (simp add: empty_heap_def)
qed

definition demo_heap :: kheap where
  "demo_heap = the (slab_bootstrap (empty_heap demo_pmm))"

lemma demo_no_slab: "no_slab_frames demo_pmm"
proof -
  have "bit (pg_flags (pages demo_pmm q)) 2 = bit (pg_flags (boot_page q)) 2" for q
    using kept_otherD [OF releasedD(10) [OF demo_pmm_released], of 2] by (simp add: boot_pmm_fields)
  then show ?thesis by (simp add: no_slab_frames_def boot_page_def PG_defs flag_simps)
qed

lemma demo_heap_ok:
  shows "heap_ok {} demo_heap" and "\<exists>kc. hp_caches demo_heap Cache_Cache = Some kc" and "live_objs demo_heap Cache_Cache = {}"
    and "hp_pmm demo_heap = demo_pmm"
proof -
  obtain h kc where "slab_bootstrap (empty_heap demo_pmm) = Some h" "heap_ok {} h" "hp_caches h Cache_Cache = Some kc"
      "live_objs h Cache_Cache = {}" "hp_pmm h = demo_pmm"
    by (rule bootstrap_ok [OF demo_pmm_inv demo_no_slab])
  then show "heap_ok {} demo_heap" "\<exists>kc. hp_caches demo_heap Cache_Cache = Some kc" "live_objs demo_heap Cache_Cache = {}"
      "hp_pmm demo_heap = demo_pmm"
    by (simp_all add: demo_heap_def)
qed

section \<open>The contract\<close>

lemma kept_shape:
  assumes "kept h h' A" and "hp_caches h d = Some kd"
  obtains kd' where "hp_caches h' d = Some kd'" and "same_shape kd kd'"
proof -
  have "rel_option same_shape (hp_caches h d) (hp_caches h' d)" using assms(1) by (simp add: kept_def)
  then show thesis using that assms(2) by (auto simp: option_rel_Some1)
qed

lemma live_objs_shape:
  assumes "hp_caches h d = Some kd'" and "same_shape kd kd'"
  shows "live_objs h d = (\<lambda>(p, i). obj_addr kd p i) ` live_slots (hp_slabs h) d (kc_objects_per_slab kd)"
proof -
  have "obj_addr kd' = obj_addr kd" using same_shape_addr [OF assms(2)] by blast
  then show ?thesis using assms by (simp add: live_objs_def same_shape_def)
qed

lemma live_objs_kept:
  assumes "kept h h' A" and "hp_caches h d = Some kd"
    and "live_slots (hp_slabs h') d (kc_objects_per_slab kd) = live_slots (hp_slabs h) d (kc_objects_per_slab kd)"
  shows "live_objs h' d = live_objs h d"
proof -
  obtain kd' where "hp_caches h' d = Some kd'" "same_shape kd kd'" by (rule kept_shape [OF assms(1,2)])
  from live_objs_shape [OF this] show ?thesis using live_objs_shape [OF assms(2) same_shape_refl] assms(3) by simp
qed

lemma live_objs_none:
  assumes "kept h h' A" and "hp_caches h d = None"
  shows "live_objs h' d = live_objs h d"
proof -
  have "rel_option same_shape (hp_caches h d) (hp_caches h' d)" using assms(1) by (simp add: kept_def)
  then show ?thesis using assms(2) by (simp add: live_objs_def)
qed





lemma demo_alloc: "\<exists>h' obj. kmem_cache_alloc demo_heap Cache_Cache fl False = Some (h', Some obj)"
proof -
  obtain kc where kc: "cache_setup ''kmem_cache'' sizeof_kmem_cache 0 = Some kc" "kc_slab_order kc = 0" "kc_partial kc = []" "kc_empty kc = []"
    using cache_setup_cache by blast
  have c: "hp_caches demo_heap Cache_Cache = Some kc" by (simp add: demo_heap_def slab_bootstrap_def kc(1))
  have inv: "pmm_inv demo_pmm" by (rule demo_pmm_inv)
  then obtain m p where "pmm_alloc_pages demo_pmm 0 0 = Some (m, Some p)"
    using alloc_pages_total [of demo_pmm 0 0] demo_big_block by (auto simp: pmm_inv_def PMM_MAX_ORDER_def)
  then obtain h1 where "slab_grow demo_heap Cache_Cache = Some (h1, Some p)"
    by (simp add: slab_grow_def c kc(2) demo_heap_ok(4) Let_def)
  then have "pick_slab demo_heap Cache_Cache \<noteq> Some (demo_heap, None)"
    by (simp add: pick_slab_def c kc(3,4) split: bind_splits)
  then show ?thesis
    using pick_ok [OF demo_heap_ok(1) c] kmem_alloc_ok [OF demo_heap_ok(1) c, of fl False]
    by (auto simp: kmem_cache_alloc_def Let_def split: bind_splits)
qed

definition objs_separate :: "'a kheap_scheme \<Rightarrow> bool" where
  "objs_separate h \<longleftrightarrow> (\<forall>c d kc kd x y. hp_caches h c = Some kc \<and> hp_caches h d = Some kd
     \<and> x \<in> live_objs h c \<and> y \<in> live_objs h d \<and> (c \<noteq> d \<or> x \<noteq> y) \<longrightarrow>
       {x..<x + kc_slot_size kc} \<inter> {y..<y + kc_slot_size kd} = {})"





text \<open>
  C36. Without such a bound the arithmetic of \<open>layout\<close> wraps: for one-byte objects aligned to two to
  the 63, the header and the only slot add up to zero, and \<open>cache_setup\<close> accepts a cache whose
  header alone is far larger than its slabs.
\<close>

theorem cache_setup_wraps:
  "\<exists>kc. cache_setup nm 1 (2 ^ 63) = Some kc \<and> kc_header_size kc = 2 ^ 63 \<and> \<not> cache_wf kc"
proof -
  have "(2::nat) ^ 63 AND (2 ^ 63 - 1) = 0" by (simp only: and_mask_dvd_iff dvd_refl)
  moreover have up: "align_up_size x (2 ^ 63) = 2 ^ 63" if "0 < x" "x < 1000" for x
  proof -
    have "u64 (x + 2 ^ 63 - 1) = 2 ^ 63 + (x - 1)" using that by (subst u64_id) simp_all
    moreover have "x - 1 < 2 ^ 63" using that by simp
    then have "(2 ^ 63 + (x - 1)) mod 2 ^ 63 = x - 1" by (simp only: mod_add_self1 mod_less)
    ultimately show ?thesis unfolding align_up_size_def align_down_def by (simp only: diff_add_inverse2)
  qed
  have h: "header_bytes 1 (2 ^ 63) = 2 ^ 63"
    unfolding header_bytes_def by (rule up) (simp_all add: sizeof_slab_def u32_id)
  have q: "sub64 (PAGE_SIZE * 2 ^ k) (2 ^ 63) div 2 ^ 63 = 1" if "k \<le> 3" for k
  proof -
    have "(2::nat) ^ k \<le> 2 ^ 3" using that by (intro power_increasing) auto
    then have b: "4096 * (2::nat) ^ k \<le> 32768" by simp
    have "sub64 (4096 * 2 ^ k) (2 ^ 63) = 2 ^ 63 + 4096 * 2 ^ k"
      unfolding sub64_def using b by simp
    then show ?thesis using b by (simp add: PAGE_SIZE_def PAGE_SHIFT_def)
  qed
  have f: "fit_objects n (2 ^ 63) (2 ^ 63) 1 = 1" for n
    using h by (simp add: u64_def)
  have "layout (2 ^ 63) (2 ^ 63) = Some (3, 1, 2 ^ 63)"
    unfolding layout_def SLAB_MAX_ORDER_def
    using q [of 0] q [of 1] q [of 2] q [of 3] h f
    by (simp add: upt_rec u32_id SLAB_MIN_OBJECTS_def SLAB_MAX_ORDER_def)
  then show ?thesis
    using calculation up [of 1]
    by (simp add: cache_setup_def Let_def cache_init_def KMALLOC_MIN_ALIGN_def cache_wf_def)
qed

end
