(* ===== verification/Bytes.thy ===== *)
theory Bytes
  imports Prelude
begin

text \<open>Byte strings and the buffers the hash and cipher code copies them into.\<close>

type_synonym byte = "8 word"

text \<open>\<open>memcpy\<close> or \<open>memset\<close> into a buffer at an offset.\<close>

definition put_at :: "'a list \<Rightarrow> nat \<Rightarrow> 'a list \<Rightarrow> 'a list" where
  "put_at buf off xs = take off buf @ xs @ drop (off + length xs) buf"

lemma length_put_at [simp]: "off + length xs \<le> length buf \<Longrightarrow> length (put_at buf off xs) = length buf"
  by (simp add: put_at_def)

lemma take_put_at: "off \<le> length buf \<Longrightarrow> take (off + length xs) (put_at buf off xs) = take off buf @ xs"
  by (simp add: put_at_def)

lemma put_at_append: "length xs = off \<Longrightarrow> put_at (xs @ ys) off zs = xs @ zs @ drop (length zs) ys"
  by (simp add: put_at_def)

lemma put_at_put_at:
  assumes "off \<le> length buf"
  shows "put_at (put_at buf off xs) (off + length xs) ys = put_at buf off (xs @ ys)"
  using assms by (simp add: put_at_def ac_simps)

lemma unat_byte: "unat (b :: byte) < 256"
  by (rule less_le_trans [OF unsigned_less]) simp

lemma or_add: "x < 2 ^ n \<Longrightarrow> x OR push_bit n y = x + 2 ^ n * (y :: nat)"
proof -
  assume x: "x < 2 ^ n"
  have "x AND push_bit n y = 0"
  proof (rule bit_eqI)
    fix k
    have "bit x k \<Longrightarrow> k < n"
      using x by (metis bit_take_bit_iff take_bit_nat_eq_self)
    then show "bit (x AND push_bit n y) k = bit 0 k" by (auto simp: bit_simps)
  qed
  then show ?thesis using disjunctive_add_eq_or [of x "push_bit n y"] by (simp add: push_bit_eq_mult ac_simps)
qed

end
