(* ===== verification/Sha512.thy ===== *)
theory Sha512
  imports Bytes
begin

text \<open>
  SHA-512 (\<open>kernel/security/sha512.c\<close>): the compression function over 64-bit words, and the streaming
  interface with its 128-byte buffer. The main property is that any way of cutting a message into
  updates gives the hash of the whole message, padded as FIPS 180-4 says.
\<close>

section \<open>The compression function\<close>

definition K :: "64 word list" where
  "K = concat [
    [0x428a2f98d728ae22, 0x7137449123ef65cd, 0xb5c0fbcfec4d3b2f, 0xe9b5dba58189dbbc],
    [0x3956c25bf348b538, 0x59f111f1b605d019, 0x923f82a4af194f9b, 0xab1c5ed5da6d8118],
    [0xd807aa98a3030242, 0x12835b0145706fbe, 0x243185be4ee4b28c, 0x550c7dc3d5ffb4e2],
    [0x72be5d74f27b896f, 0x80deb1fe3b1696b1, 0x9bdc06a725c71235, 0xc19bf174cf692694],
    [0xe49b69c19ef14ad2, 0xefbe4786384f25e3, 0x0fc19dc68b8cd5b5, 0x240ca1cc77ac9c65],
    [0x2de92c6f592b0275, 0x4a7484aa6ea6e483, 0x5cb0a9dcbd41fbd4, 0x76f988da831153b5],
    [0x983e5152ee66dfab, 0xa831c66d2db43210, 0xb00327c898fb213f, 0xbf597fc7beef0ee4],
    [0xc6e00bf33da88fc2, 0xd5a79147930aa725, 0x06ca6351e003826f, 0x142929670a0e6e70],
    [0x27b70a8546d22ffc, 0x2e1b21385c26c926, 0x4d2c6dfc5ac42aed, 0x53380d139d95b3df],
    [0x650a73548baf63de, 0x766a0abb3c77b2a8, 0x81c2c92e47edaee6, 0x92722c851482353b],
    [0xa2bfe8a14cf10364, 0xa81a664bbc423001, 0xc24b8b70d0f89791, 0xc76c51a30654be30],
    [0xd192e819d6ef5218, 0xd69906245565a910, 0xf40e35855771202a, 0x106aa07032bbd1b8],
    [0x19a4c116b8d2d0c8, 0x1e376c085141ab53, 0x2748774cdf8eeb99, 0x34b0bcb5e19b48a8],
    [0x391c0cb3c5c95a63, 0x4ed8aa4ae3418acb, 0x5b9cca4f7763e373, 0x682e6ff3d6b2b8a3],
    [0x748f82ee5defb2fc, 0x78a5636f43172f60, 0x84c87814a1f0ab72, 0x8cc702081a6439ec],
    [0x90befffa23631e28, 0xa4506cebde82bde9, 0xbef9a3f7b2c67915, 0xc67178f2e372532b],
    [0xca273eceea26619c, 0xd186b8c721c0c207, 0xeada7dd6cde0eb1e, 0xf57d4f7fee6ed178],
    [0x06f067aa72176fba, 0x0a637dc5a2c898a6, 0x113f9804bef90dae, 0x1b710b35131c471b],
    [0x28db77f523047d84, 0x32caab7b40c72493, 0x3c9ebe0a15c9bebc, 0x431d67c49c100d4c],
    [0x4cc5d4becb3e42b6, 0x597f299cfc657e2a, 0x5fcb6fab3ad6faec, 0x6c44198c4a475817]]"

definition rotr :: "64 word \<Rightarrow> nat \<Rightarrow> 64 word" where
  "rotr x n = drop_bit n x OR push_bit (64 - n) x"

definition load_be64 :: "byte list \<Rightarrow> 64 word" where
  "load_be64 p = foldl (\<lambda>v b. push_bit 8 v OR ucast b) 0 (take 8 p)"

definition store_be64 :: "64 word \<Rightarrow> byte list" where
  "store_be64 v = map (\<lambda>i. ucast (drop_bit (56 - 8 * i) v)) [0..<8]"

definition SHA512_BLOCK_SIZE :: nat where "SHA512_BLOCK_SIZE = 128"

text \<open>The message schedule, the 80 rounds and the final addition of \<open>sha512_block\<close>.\<close>

definition sha512_schedule :: "byte list \<Rightarrow> 64 word list" where
  "sha512_schedule block =
     fold (\<lambda>i w.
        let s0 = rotr (w ! (i - 15)) 1 XOR rotr (w ! (i - 15)) 8 XOR drop_bit 7 (w ! (i - 15));
            s1 = rotr (w ! (i - 2)) 19 XOR rotr (w ! (i - 2)) 61 XOR drop_bit 6 (w ! (i - 2))
        in w @ [w ! (i - 16) + s0 + w ! (i - 7) + s1])
       [16..<80] (map (\<lambda>i. load_be64 (drop (8 * i) block)) [0..<16])"

definition sha512_round :: "64 word list \<Rightarrow> nat \<Rightarrow> 64 word list \<Rightarrow> 64 word list" where
  "sha512_round w i st = (case st of
     [a, b, c, d, e, f, g, h] \<Rightarrow>
       let S1 = rotr e 14 XOR rotr e 18 XOR rotr e 41;
           ch = (e AND f) XOR (NOT e AND g);
           t1 = h + S1 + ch + K ! i + w ! i;
           S0 = rotr a 28 XOR rotr a 34 XOR rotr a 39;
           maj = (a AND b) XOR (a AND c) XOR (b AND c);
           t2 = S0 + maj
       in [t1 + t2, a, b, c, d + t1, e, f, g]
   | _ \<Rightarrow> st)"

definition sha512_block :: "64 word list \<Rightarrow> byte list \<Rightarrow> 64 word list" where
  "sha512_block st block = map2 (+) st (fold (sha512_round (sha512_schedule block)) [0..<80] st)"

section \<open>The streaming interface\<close>

record sha512_ctx =
  sc_state :: "64 word list"
  sc_count :: "64 word"
  sc_buf :: "byte list"
  sc_buflen :: nat

definition sha512_iv :: "64 word list" where
  "sha512_iv =
    [0x6a09e667f3bcc908, 0xbb67ae8584caa73b, 0x3c6ef372fe94f82b, 0xa54ff53a5f1d36f1,
     0x510e527fade682d1, 0x9b05688c2b3e6c1f, 0x1f83d9abfb41bd6b, 0x5be0cd19137e2179]"

text \<open>The buffer of a context that has just been initialised holds whatever it held.\<close>

definition sha512_init :: "sha512_ctx \<Rightarrow> sha512_ctx" where
  "sha512_init ctx = ctx\<lparr>sc_state := sha512_iv, sc_count := 0, sc_buflen := 0\<rparr>"

text \<open>The loop over whole blocks: the state after them, and the bytes left.\<close>

function (sequential) sha512_blocks :: "64 word list \<Rightarrow> byte list \<Rightarrow> 64 word list \<times> byte list" where
  "sha512_blocks st p =
     (if length p \<ge> SHA512_BLOCK_SIZE
      then sha512_blocks (sha512_block st (take SHA512_BLOCK_SIZE p)) (drop SHA512_BLOCK_SIZE p)
      else (st, p))"
  by pat_completeness auto
termination by (relation "measure (length \<circ> snd)") (auto simp: SHA512_BLOCK_SIZE_def)

declare sha512_blocks.simps [simp del]

text \<open>The first part of \<open>sha512_update\<close> fills a buffer that is in use.\<close>

definition sha512_fill :: "sha512_ctx \<Rightarrow> byte list \<Rightarrow> sha512_ctx \<times> byte list" where
  "sha512_fill ctx p =
     (if sc_buflen ctx > 0
      then let tk = min (SHA512_BLOCK_SIZE - sc_buflen ctx) (length p);
               ctx = ctx\<lparr>sc_buf := put_at (sc_buf ctx) (sc_buflen ctx) (take tk p), sc_buflen := sc_buflen ctx + tk\<rparr>;
               ctx = (if sc_buflen ctx = SHA512_BLOCK_SIZE
                      then ctx\<lparr>sc_state := sha512_block (sc_state ctx) (sc_buf ctx), sc_buflen := 0\<rparr> else ctx)
           in (ctx, drop tk p)
      else (ctx, p))"

definition sha512_update :: "sha512_ctx \<Rightarrow> byte list \<Rightarrow> sha512_ctx" where
  "sha512_update ctx data =
     (let ctx = ctx\<lparr>sc_count := sc_count ctx + of_nat (length data)\<rparr>;
          (ctx, p) = sha512_fill ctx data;
          (st, p) = sha512_blocks (sc_state ctx) p;
          ctx = ctx\<lparr>sc_state := st\<rparr>
      in if length p > 0 then ctx\<lparr>sc_buf := put_at (sc_buf ctx) 0 p, sc_buflen := length p\<rparr> else ctx)"

text \<open>The digest and the cleared context.\<close>

definition sha512_final :: "sha512_ctx \<Rightarrow> sha512_ctx \<times> byte list" where
  "sha512_final ctx =
     (let bits_lo = push_bit 3 (sc_count ctx);
          bits_hi = drop_bit 61 (sc_count ctx);
          ctx = ctx\<lparr>sc_buf := put_at (sc_buf ctx) (sc_buflen ctx) [0x80], sc_buflen := sc_buflen ctx + 1\<rparr>;
          ctx = (if sc_buflen ctx > SHA512_BLOCK_SIZE - 16
                 then let buf = put_at (sc_buf ctx) (sc_buflen ctx) (replicate (SHA512_BLOCK_SIZE - sc_buflen ctx) 0)
                      in ctx\<lparr>sc_buf := buf, sc_state := sha512_block (sc_state ctx) buf, sc_buflen := 0\<rparr>
                 else ctx);
          buf = put_at (sc_buf ctx) (sc_buflen ctx) (replicate (SHA512_BLOCK_SIZE - 16 - sc_buflen ctx) 0);
          buf = put_at buf (SHA512_BLOCK_SIZE - 16) (store_be64 bits_hi);
          buf = put_at buf (SHA512_BLOCK_SIZE - 8) (store_be64 bits_lo);
          st = sha512_block (sc_state ctx) buf
      in (\<lparr>sc_state = replicate 8 0, sc_count = 0, sc_buf = replicate SHA512_BLOCK_SIZE 0, sc_buflen = 0\<rparr>,
          concat (map store_be64 st)))"

definition blank_sha512 :: sha512_ctx where
  "blank_sha512 = \<lparr>sc_state = replicate 8 0, sc_count = 0, sc_buf = replicate SHA512_BLOCK_SIZE 0, sc_buflen = 0\<rparr>"

definition sha512 :: "byte list \<Rightarrow> byte list" where
  "sha512 data = snd (sha512_final (sha512_update (sha512_init blank_sha512) data))"

section \<open>The hash of a message\<close>

text \<open>The padding of FIPS 180-4, section 5.1.2, and the hash of the padded message.\<close>

definition sha512_pad :: "nat \<Rightarrow> byte list" where
  "sha512_pad n = 0x80 # replicate ((239 - n mod 128) mod 128) 0
     @ store_be64 (of_nat (n div 2 ^ 61)) @ store_be64 (of_nat (n * 8))"

definition sha512_spec :: "byte list \<Rightarrow> byte list" where
  "sha512_spec msg = concat (map store_be64 (fst (sha512_blocks sha512_iv (msg @ sha512_pad (length msg)))))"

lemma length_store_be64 [simp]: "length (store_be64 v) = 8"
  by (simp add: store_be64_def)

lemma blocks_short: "length p < 128 \<Longrightarrow> sha512_blocks st p = (st, p)"
  by (subst sha512_blocks.simps) (simp add: SHA512_BLOCK_SIZE_def)

lemma blocks_one: "length p = 128 \<Longrightarrow> sha512_blocks st (p @ q) = sha512_blocks (sha512_block st p) q"
  by (subst sha512_blocks.simps) (simp add: SHA512_BLOCK_SIZE_def)

lemma blocks_append:
  "sha512_blocks st (a @ b) = (case sha512_blocks st a of (st', r) \<Rightarrow> sha512_blocks st' (r @ b))"
proof (induction st a rule: sha512_blocks.induct)
  case (1 st a)
  show ?case
  proof (cases "length a \<ge> SHA512_BLOCK_SIZE")
    case True
    have "sha512_blocks st (a @ b) = sha512_blocks (sha512_block st (take SHA512_BLOCK_SIZE a)) (drop SHA512_BLOCK_SIZE a @ b)"
      using True by (subst sha512_blocks.simps) simp
    then show ?thesis using 1 [OF True] True by (simp add: sha512_blocks.simps [of st a])
  next
    case False
    then show ?thesis by (simp add: sha512_blocks.simps [of st a])
  qed
qed

lemma blocks_rest_short: "length (snd (sha512_blocks st p)) < 128"
proof (induction st p rule: sha512_blocks.induct)
  case (1 st p)
  then show ?case by (subst sha512_blocks.simps) (auto simp: SHA512_BLOCK_SIZE_def)
qed

lemma blocks_rest_length: "length (snd (sha512_blocks st p)) = length p mod 128"
proof (induction st p rule: sha512_blocks.induct)
  case (1 st p)
  show ?case
  proof (cases "length p \<ge> SHA512_BLOCK_SIZE")
    case True
    then have "(length p - 128) mod 128 = length p mod 128" by (simp add: SHA512_BLOCK_SIZE_def le_mod_geq)
    then show ?thesis using 1 [OF True] True by (subst sha512_blocks.simps) (simp add: SHA512_BLOCK_SIZE_def)
  next
    case False
    then show ?thesis by (subst sha512_blocks.simps) (simp add: SHA512_BLOCK_SIZE_def)
  qed
qed

text \<open>A context that has absorbed \<open>msg\<close>.\<close>

definition absorbed :: "sha512_ctx \<Rightarrow> byte list \<Rightarrow> bool" where
  "absorbed ctx msg \<longleftrightarrow>
     sc_buflen ctx < 128 \<and> length (sc_buf ctx) = 128 \<and> sc_count ctx = of_nat (length msg)
     \<and> sha512_blocks sha512_iv msg = (sc_state ctx, take (sc_buflen ctx) (sc_buf ctx))"

lemma absorbed_init: "length (sc_buf ctx) = 128 \<Longrightarrow> absorbed (sha512_init ctx) []"
  by (simp add: absorbed_def sha512_init_def blocks_short)

lemma fill_ok:
  assumes "sc_buflen ctx < 128" and "length (sc_buf ctx) = 128" and f: "sha512_fill ctx p = (ctx', p')"
  shows "sha512_blocks (sc_state ctx) (take (sc_buflen ctx) (sc_buf ctx) @ p)
        = sha512_blocks (sc_state ctx') (take (sc_buflen ctx') (sc_buf ctx') @ p')
      \<and> length (sc_buf ctx') = 128 \<and> sc_count ctx' = sc_count ctx \<and> sc_buflen ctx' < 128
      \<and> (p' \<noteq> [] \<longrightarrow> sc_buflen ctx' = 0)"
proof (cases "0 < sc_buflen ctx")
  case False
  then show ?thesis using assms by (auto simp: sha512_fill_def)
next
  case pos: True
  let ?n = "sc_buflen ctx" and ?b = "sc_buf ctx"
  define tk where "tk = min (128 - ?n) (length p)"
  define buf where "buf = put_at ?b ?n (take tk p)"
  have len: "length (take tk p) = tk" by (simp add: tk_def)
  have lb: "length buf = 128" using assms(1,2) by (simp add: buf_def tk_def)
  have tb: "take (?n + tk) buf = take ?n ?b @ take tk p"
    using take_put_at [of ?n ?b "take tk p", unfolded len] assms(1,2) by (simp add: buf_def)
  show ?thesis
  proof (cases "?n + tk = 128")
    case True
    have r: "ctx' = ctx\<lparr>sc_buf := buf, sc_buflen := 0, sc_state := sha512_block (sc_state ctx) buf\<rparr>" "p' = drop tk p"
      using f pos True
      by (auto simp: sha512_fill_def SHA512_BLOCK_SIZE_def tk_def [symmetric] buf_def [symmetric] Let_def)
    have "take ?n ?b @ p = buf @ drop tk p"
      using tb lb True append_take_drop_id [of tk p] by (metis append.assoc take_all order_refl)
    then show ?thesis using blocks_one [OF lb] lb by (simp add: r)
  next
    case False
    then have tk: "tk = length p" "?n + tk < 128" using assms(1) by (auto simp: tk_def)
    have r: "ctx' = ctx\<lparr>sc_buf := buf, sc_buflen := ?n + tk\<rparr>" "p' = drop tk p"
      using f pos False
      by (auto simp: sha512_fill_def SHA512_BLOCK_SIZE_def tk_def [symmetric] buf_def [symmetric] Let_def)
    show ?thesis using tb tk lb by (simp add: r)
  qed
qed

lemma absorbed_update:
  assumes "absorbed ctx msg"
  shows "absorbed (sha512_update ctx data) (msg @ data)"
proof -
  define ctx0 where "ctx0 = ctx\<lparr>sc_count := sc_count ctx + of_nat (length data)\<rparr>"
  have A: "sc_buflen ctx0 < 128" "length (sc_buf ctx0) = 128" "sc_count ctx0 = of_nat (length (msg @ data))"
    using assms by (simp_all add: absorbed_def ctx0_def)
  obtain ctx1 p1 where f: "sha512_fill ctx0 data = (ctx1, p1)" by fastforce
  note F = fill_ok [OF A(1,2) f]
  obtain st p2 where b: "sha512_blocks (sc_state ctx1) p1 = (st, p2)" by fastforce
  have "sha512_blocks sha512_iv (msg @ data) = sha512_blocks (sc_state ctx0) (take (sc_buflen ctx0) (sc_buf ctx0) @ data)"
    using assms blocks_append [of sha512_iv msg data] by (simp add: absorbed_def ctx0_def)
  also have "\<dots> = sha512_blocks (sc_state ctx1) (take (sc_buflen ctx1) (sc_buf ctx1) @ p1)" using F by blast
  finally have H: "sha512_blocks sha512_iv (msg @ data) = sha512_blocks (sc_state ctx1) (take (sc_buflen ctx1) (sc_buf ctx1) @ p1)" .
  have l2: "length p2 < 128" using blocks_rest_short [of "sc_state ctx1" p1] b by simp
  have u: "sha512_update ctx data = (if length p2 > 0
      then ctx1\<lparr>sc_state := st, sc_buf := put_at (sc_buf ctx1) 0 p2, sc_buflen := length p2\<rparr> else ctx1\<lparr>sc_state := st\<rparr>)"
    using f b by (simp add: sha512_update_def ctx0_def Let_def)
  show ?thesis
  proof (cases "p1 = []")
    case True
    then have "st = sc_state ctx1" "p2 = []" using b by (simp_all add: blocks_short)
    moreover have "sha512_blocks sha512_iv (msg @ data) = (sc_state ctx1, take (sc_buflen ctx1) (sc_buf ctx1))"
      unfolding H True using F by (simp add: blocks_short)
    ultimately show ?thesis using u F A(3) by (simp add: absorbed_def)
  next
    case False
    then have z: "sc_buflen ctx1 = 0" using F by blast
    then have "sha512_blocks sha512_iv (msg @ data) = (st, p2)" using H b by simp
    moreover have "take (length p2) (put_at (sc_buf ctx1) 0 p2) = p2" by (simp add: put_at_def)
    ultimately show ?thesis using u F A(3) l2 z by (simp add: absorbed_def)
  qed
qed

lemma pad_split:
  assumes "(n::nat) mod 128 < 112"
  shows "(239 - n mod 128) mod 128 = 111 - n mod 128"
proof -
  have "239 - n mod 128 = (111 - n mod 128) + 128" using assms by simp
  then have "(239 - n mod 128) mod 128 = (111 - n mod 128) mod 128" by (simp only: mod_add_self2)
  then show ?thesis using assms by simp
qed

lemma count_bits:
  assumes "n < 2 ^ 64"
  shows "drop_bit 61 (of_nat n :: 64 word) = of_nat (n div 2 ^ 61)" and "push_bit 3 (of_nat n :: 64 word) = of_nat (n * 8)"
proof -
  have "unat (drop_bit 61 (of_nat n :: 64 word)) = n div 2 ^ 61"
    using assms by (simp add: unat_drop_bit_eq unat_of_nat) (simp add: drop_bit_eq_div)
  moreover have "n div 2 ^ 61 < 2 ^ 64" using assms by (meson div_le_dividend le_less_trans)
  then have "unat (of_nat (n div 2 ^ 61) :: 64 word) = n div 2 ^ 61" by (simp add: unat_of_nat)
  ultimately show "drop_bit 61 (of_nat n :: 64 word) = of_nat (n div 2 ^ 61)" by (metis word_unat_eq_iff)
  show "push_bit 3 (of_nat n :: 64 word) = of_nat (n * 8)" by (simp add: push_bit_eq_mult mult.commute)
qed

text \<open>What \<open>sha512_final\<close> hands to the compression function: one block, or two.\<close>

lemma final_state:
  assumes t: "length t = sc_buflen ctx" "sc_buf ctx = t @ u" "length u = 128 - sc_buflen ctx" "sc_buflen ctx < 128"
    and z: "z = store_be64 (drop_bit 61 (sc_count ctx)) @ store_be64 (push_bit 3 (sc_count ctx))"
  shows "sc_buflen ctx < 112 \<Longrightarrow>
      snd (sha512_final ctx) = concat (map store_be64 (sha512_block (sc_state ctx) (t @ 0x80 # replicate (111 - sc_buflen ctx) 0 @ z)))"
    and "112 \<le> sc_buflen ctx \<Longrightarrow>
      snd (sha512_final ctx) = concat (map store_be64 (sha512_block
         (sha512_block (sc_state ctx) (t @ 0x80 # replicate (127 - sc_buflen ctx) 0)) (replicate 112 0 @ z)))"
proof -
  let ?k = "sc_buflen ctx" and ?lo = "push_bit 3 (sc_count ctx)" and ?hi = "drop_bit 61 (sc_count ctx)"
  obtain u0 v where u: "u = u0 # v" using t(3,4) by (cases u) auto
  have v: "length v = 127 - ?k" using t(3) u by simp
  have b1: "put_at (sc_buf ctx) ?k [0x80] = (t @ [0x80]) @ v" using put_at_append [OF t(1)] by (simp add: t(2) u)
  show "snd (sha512_final ctx) = concat (map store_be64 (sha512_block (sc_state ctx) (t @ 0x80 # replicate (111 - ?k) 0 @ z)))" if k: "?k < 112"
  proof -
    define w where "w = drop (111 - ?k) v"
    have w: "length w = 16" using v k by (simp add: w_def)
    have b2: "put_at ((t @ [0x80]) @ v) (?k + 1) (replicate (111 - ?k) 0) = (t @ 0x80 # replicate (111 - ?k) 0) @ w"
      using put_at_append [of "t @ [0x80]" "?k + 1" v "replicate (111 - ?k) 0"] t(1) by (simp add: w_def)
    have b3: "put_at ((t @ 0x80 # replicate (111 - ?k) 0) @ w) 112 (store_be64 ?hi) = (t @ 0x80 # replicate (111 - ?k) 0 @ store_be64 ?hi) @ drop 8 w"
      using put_at_append [of "t @ 0x80 # replicate (111 - ?k) 0" 112 w "store_be64 ?hi"] t(1) k by simp
    have b4: "put_at ((t @ 0x80 # replicate (111 - ?k) 0 @ store_be64 ?hi) @ drop 8 w) 120 (store_be64 ?lo) = t @ 0x80 # replicate (111 - ?k) 0 @ z"
      using put_at_append [of "t @ 0x80 # replicate (111 - ?k) 0 @ store_be64 ?hi" 120 "drop 8 w" "store_be64 ?lo"] t(1) k w z by simp
    show ?thesis
      using k b1 b2 b3 b4 by (simp only: sha512_final_def Let_def SHA512_BLOCK_SIZE_def) simp
  qed
  show "snd (sha512_final ctx) = concat (map store_be64 (sha512_block
         (sha512_block (sc_state ctx) (t @ 0x80 # replicate (127 - ?k) 0)) (replicate 112 0 @ z)))" if k: "112 \<le> ?k"
  proof -
    define b where "b = t @ 0x80 # replicate (127 - ?k) (0 :: byte)"
    have b: "length b = 128" using t(1,4) by (simp add: b_def)
    have b2: "put_at ((t @ [0x80]) @ v) (?k + 1) (replicate (127 - ?k) 0) = b"
      using put_at_append [of "t @ [0x80]" "?k + 1" v "replicate (127 - ?k) 0"] t(1) v by (simp add: b_def)
    have b3: "put_at b 0 (replicate 112 0) = replicate 112 0 @ drop 112 b" by (simp add: put_at_def)
    have b4: "put_at (replicate 112 0 @ drop 112 b) 112 (store_be64 ?hi) = (replicate 112 0 @ store_be64 ?hi) @ drop 120 b"
      using put_at_append [of "replicate 112 0" 112 "drop 112 b" "store_be64 ?hi"] by simp
    have b5: "put_at ((replicate 112 0 @ store_be64 ?hi) @ drop 120 b) 120 (store_be64 ?lo) = replicate 112 0 @ z"
      using put_at_append [of "replicate 112 0 @ store_be64 ?hi" 120 "drop 120 b" "store_be64 ?lo"] b z by simp
    show ?thesis
      unfolding b_def [symmetric]
      using k b1 b2 b3 b4 b5 by (simp only: sha512_final_def Let_def SHA512_BLOCK_SIZE_def) simp
  qed
qed

lemma absorbed_final:
  assumes a: "absorbed ctx msg" and n: "length msg < 2 ^ 64"
  shows "snd (sha512_final ctx) = sha512_spec msg"
proof -
  let ?k = "sc_buflen ctx" and ?b = "sc_buf ctx" and ?m = "length msg"
  have k: "?k = ?m mod 128" "?k < 128" "length ?b = 128"
    using a blocks_rest_length [of sha512_iv msg] by (auto simp: absorbed_def min_def)
  define t where "t = take ?k ?b"
  have t: "length t = ?k" "?b = t @ drop ?k ?b" "length (drop ?k ?b) = 128 - ?k" using k by (simp_all add: t_def)
  define z where "z = store_be64 (drop_bit 61 (sc_count ctx)) @ store_be64 (push_bit 3 (sc_count ctx))"
  have lz: "length z = 16" by (simp add: z_def)
  have z': "z = store_be64 (of_nat (?m div 2 ^ 61)) @ store_be64 (of_nat (?m * 8))"
    using a count_bits [OF n] by (simp add: z_def absorbed_def)
  note F = final_state [OF t k(2) z_def]
  have S: "fst (sha512_blocks sha512_iv (msg @ sha512_pad ?m)) = fst (sha512_blocks (sc_state ctx) (t @ sha512_pad ?m))"
    using a blocks_append [of sha512_iv msg "sha512_pad ?m"] by (simp add: absorbed_def t_def)
  show ?thesis
  proof (cases "?k < 112")
    case True
    let ?c = "t @ 0x80 # replicate (111 - ?k) 0 @ z"
    have "t @ sha512_pad ?m = ?c @ []" using pad_split [of ?m] True k(1) by (simp add: sha512_pad_def z')
    moreover have "length ?c = 128" using t(1) lz True by simp
    ultimately show ?thesis using F(1) [OF True] S blocks_one [of ?c "sc_state ctx" "[]"] by (simp add: sha512_spec_def blocks_short)
  next
    case False
    let ?c = "t @ 0x80 # replicate (127 - ?k) 0" and ?d = "replicate 112 0 @ z"
    have "(239 - ?m mod 128) mod 128 = (127 - ?k) + 112" using False k(1,2) by simp
    then have "t @ sha512_pad ?m = ?c @ ?d @ []" by (simp add: sha512_pad_def z' replicate_add)
    moreover have "length ?c = 128" "length ?d = 128" using t(1) k(2) lz by simp_all
    ultimately show ?thesis
      using F(2) False S blocks_one [of ?c "sc_state ctx" "?d @ []"] blocks_one [of ?d _ "[]"]
      by (simp add: sha512_spec_def blocks_short)
  qed
qed



end
