(* ===== verification/Blake2b.thy ===== *)
theory Blake2b
  imports Bytes
begin

text \<open>
  BLAKE2b (\<open>kernel/security/blake2b.c\<close>): the compression function, the streaming interface that keeps
  a full buffer until more input comes, and the keyed hash. The main properties are that updates
  compose and that the result is the hash RFC 7693 defines.
\<close>

section \<open>The compression function\<close>

definition b2_iv :: "64 word list" where
  "b2_iv =
    [0x6a09e667f3bcc908, 0xbb67ae8584caa73b, 0x3c6ef372fe94f82b, 0xa54ff53a5f1d36f1,
     0x510e527fade682d1, 0x9b05688c2b3e6c1f, 0x1f83d9abfb41bd6b, 0x5be0cd19137e2179]"

definition b2_sigma :: "nat list list" where
  "b2_sigma =
    [[0, 1, 2, 3, 4, 5, 6, 7, 8, 9, 10, 11, 12, 13, 14, 15],
     [14, 10, 4, 8, 9, 15, 13, 6, 1, 12, 0, 2, 11, 7, 5, 3],
     [11, 8, 12, 0, 5, 2, 15, 13, 10, 14, 3, 6, 7, 1, 9, 4],
     [7, 9, 3, 1, 13, 12, 11, 14, 2, 6, 5, 10, 4, 0, 15, 8],
     [9, 0, 5, 7, 2, 4, 10, 15, 14, 1, 11, 12, 6, 8, 3, 13],
     [2, 12, 6, 10, 0, 11, 8, 3, 4, 13, 7, 5, 15, 14, 1, 9],
     [12, 5, 1, 15, 14, 13, 4, 10, 0, 7, 6, 3, 9, 2, 8, 11],
     [13, 11, 7, 14, 12, 1, 3, 9, 5, 0, 15, 4, 8, 6, 2, 10],
     [6, 15, 14, 9, 11, 3, 0, 8, 12, 2, 13, 7, 1, 4, 10, 5],
     [10, 2, 8, 4, 7, 6, 1, 5, 15, 11, 9, 14, 3, 12, 13, 0],
     [0, 1, 2, 3, 4, 5, 6, 7, 8, 9, 10, 11, 12, 13, 14, 15],
     [14, 10, 4, 8, 9, 15, 13, 6, 1, 12, 0, 2, 11, 7, 5, 3]]"

definition rotr64 :: "64 word \<Rightarrow> nat \<Rightarrow> 64 word" where
  "rotr64 x n = drop_bit n x OR push_bit (64 - n) x"

definition load64 :: "byte list \<Rightarrow> 64 word" where
  "load64 p = foldr (\<lambda>b v. push_bit 8 v OR ucast b) (take 8 p) 0"

definition store64 :: "64 word \<Rightarrow> byte list" where
  "store64 v = map (\<lambda>i. ucast (drop_bit (8 * i) v)) [0..<8]"

definition B2G :: "nat \<Rightarrow> nat \<Rightarrow> nat \<Rightarrow> nat \<Rightarrow> 64 word \<Rightarrow> 64 word \<Rightarrow> 64 word list \<Rightarrow> 64 word list" where
  "B2G a b c d x y v =
     (let v = v[a := v ! a + v ! b + x];
          v = v[d := rotr64 (v ! d XOR v ! a) 32];
          v = v[c := v ! c + v ! d];
          v = v[b := rotr64 (v ! b XOR v ! c) 24];
          v = v[a := v ! a + v ! b + y];
          v = v[d := rotr64 (v ! d XOR v ! a) 16];
          v = v[c := v ! c + v ! d]
      in v[b := rotr64 (v ! b XOR v ! c) 63])"

definition b2_round :: "64 word list \<Rightarrow> nat \<Rightarrow> 64 word list \<Rightarrow> 64 word list" where
  "b2_round m r v =
     (let z = b2_sigma ! r;
          v = B2G 0 4 8 12 (m ! (z ! 0)) (m ! (z ! 1)) v;
          v = B2G 1 5 9 13 (m ! (z ! 2)) (m ! (z ! 3)) v;
          v = B2G 2 6 10 14 (m ! (z ! 4)) (m ! (z ! 5)) v;
          v = B2G 3 7 11 15 (m ! (z ! 6)) (m ! (z ! 7)) v;
          v = B2G 0 5 10 15 (m ! (z ! 8)) (m ! (z ! 9)) v;
          v = B2G 1 6 11 12 (m ! (z ! 10)) (m ! (z ! 11)) v;
          v = B2G 2 7 8 13 (m ! (z ! 12)) (m ! (z ! 13)) v
      in B2G 3 4 9 14 (m ! (z ! 14)) (m ! (z ! 15)) v)"

record blake2b_state =
  b_h :: "64 word list"
  b_t0 :: "64 word"
  b_t1 :: "64 word"
  b_buf :: "byte list"
  b_buflen :: nat
  b_outlen :: nat

text \<open>The words the rounds start from, and the new chaining value.\<close>

definition b2_mix :: "64 word list \<Rightarrow> 64 word \<Rightarrow> 64 word \<Rightarrow> byte list \<Rightarrow> bool \<Rightarrow> 64 word list" where
  "b2_mix h t0 t1 block lst =
     (let m = map (\<lambda>i. load64 (drop (8 * i) block)) [0..<16];
          v = h @ b2_iv;
          v = v[12 := v ! 12 XOR t0];
          v = v[13 := v ! 13 XOR t1];
          v = (if lst then v[14 := NOT (v ! 14)] else v);
          v = fold (b2_round m) [0..<12] v
      in map (\<lambda>i. h ! i XOR (v ! i XOR v ! (i + 8))) [0..<8])"

definition b2_compress :: "blake2b_state \<Rightarrow> byte list \<Rightarrow> bool \<Rightarrow> blake2b_state" where
  "b2_compress s block lst = s\<lparr>b_h := b2_mix (b_h s) (b_t0 s) (b_t1 s) block lst\<rparr>"

section \<open>The streaming interface\<close>

text \<open>The counter of bytes hashed, in two words.\<close>

definition b2_count :: "blake2b_state \<Rightarrow> nat \<Rightarrow> blake2b_state" where
  "b2_count s n =
     (let t0 = b_t0 s + of_nat n in s\<lparr>b_t0 := t0, b_t1 := (if t0 < of_nat n then b_t1 s + 1 else b_t1 s)\<rparr>)"

text \<open>A full buffer, before more input: the start of the loop of \<open>blake2b_update\<close>.\<close>

definition b2_flush :: "blake2b_state \<Rightarrow> blake2b_state" where
  "b2_flush s =
     (if b_buflen s = 128 then (b2_compress (b2_count s 128) (b_buf s) False)\<lparr>b_buflen := 0\<rparr> else s)"

text \<open>How much fits; the subtraction wraps for a length the code never has.\<close>

definition b2_take :: "blake2b_state \<Rightarrow> nat \<Rightarrow> nat" where
  "b2_take s n = (if b_buflen s < 128 then min (128 - b_buflen s) n else n)"

definition b2_store :: "blake2b_state \<Rightarrow> byte list \<Rightarrow> blake2b_state" where
  "b2_store s p = s\<lparr>b_buf := put_at (b_buf s) (b_buflen s) p, b_buflen := b_buflen s + length p\<rparr>"

function (sequential) blake2b_update :: "blake2b_state \<Rightarrow> byte list \<Rightarrow> blake2b_state" where
  "blake2b_update s p =
     (if p = [] then s
      else let s = b2_flush s; n = b2_take s (length p)
           in blake2b_update (b2_store s (take n p)) (drop n p))"
  by pat_completeness auto
termination
  by (relation "measure (length \<circ> snd)") (auto simp: b2_take_def b2_flush_def)

declare blake2b_update.simps [simp del]

definition blake2b_init_key :: "nat \<Rightarrow> byte list \<Rightarrow> blake2b_state" where
  "blake2b_init_key outlen key =
     (let s = \<lparr>b_h = b2_iv[0 := b2_iv ! 0 XOR (0x01010000 XOR push_bit 8 (of_nat (length key)) XOR of_nat outlen)],
               b_t0 = 0, b_t1 = 0, b_buf = replicate 128 0, b_buflen = 0, b_outlen = outlen\<rparr>
      in if length key > 0 then blake2b_update s (put_at (replicate 128 0) 0 key) else s)"

definition blake2b_init :: "nat \<Rightarrow> blake2b_state" where
  "blake2b_init outlen = blake2b_init_key outlen []"

definition blake2b_zero :: blake2b_state where
  "blake2b_zero =
     \<lparr>b_h = replicate 8 0, b_t0 = 0, b_t1 = 0, b_buf = replicate 128 0, b_buflen = 0, b_outlen = 0\<rparr>"

definition blake2b_final :: "blake2b_state \<Rightarrow> blake2b_state \<times> byte list" where
  "blake2b_final s =
     (let s = b2_count s (b_buflen s);
          buf = put_at (b_buf s) (b_buflen s) (replicate (128 - b_buflen s) 0);
          s = b2_compress s buf True;
          full = concat (map store64 (b_h s))
      in (blake2b_zero, take (b_outlen s) full))"

definition blake2b :: "nat \<Rightarrow> byte list \<Rightarrow> byte list" where
  "blake2b outlen data = snd (blake2b_final (blake2b_update (blake2b_init outlen) data))"

section \<open>Updates compose\<close>

definition b2_ok :: "blake2b_state \<Rightarrow> bool" where
  "b2_ok s \<longleftrightarrow> b_buflen s \<le> 128 \<and> length (b_buf s) = 128"

lemma update_Nil [simp]: "blake2b_update s [] = s"
  by (subst blake2b_update.simps) simp

lemma flush_fields:
  "b2_ok s \<Longrightarrow> b2_ok (b2_flush s)" "b2_ok s \<Longrightarrow> b_buflen (b2_flush s) < 128" "b_buf (b2_flush s) = b_buf s"
  "b_outlen (b2_flush s) = b_outlen s"
  by (auto simp: b2_ok_def b2_flush_def b2_compress_def b2_count_def Let_def)

lemma flush_idem: "b_buflen s < 128 \<Longrightarrow> b2_flush s = s"
  by (simp add: b2_flush_def)

lemma store_ok: "b2_ok s \<Longrightarrow> b_buflen s + length p \<le> 128 \<Longrightarrow> b2_ok (b2_store s p)"
  by (simp add: b2_ok_def b2_store_def)

lemma update_step:
  assumes "b2_ok s" and "p \<noteq> []"
  shows "blake2b_update s p = blake2b_update (b2_store (b2_flush s) (take (128 - b_buflen (b2_flush s)) p))
           (drop (128 - b_buflen (b2_flush s)) p)"
proof -
  have "b2_take (b2_flush s) (length p) = min (128 - b_buflen (b2_flush s)) (length p)"
    using flush_fields(2) [OF assms(1)] by (simp add: b2_take_def)
  then show ?thesis using assms(2) by (subst blake2b_update.simps) (simp add: Let_def min_def)
qed

lemma store_store: "b2_ok s \<Longrightarrow> b2_store (b2_store s p) q = b2_store s (p @ q)"
  using put_at_put_at [of "b_buflen s" "b_buf s" p q] by (simp add: b2_store_def b2_ok_def add.assoc)

lemma length_drop_less: "p \<noteq> [] \<Longrightarrow> 0 < n \<Longrightarrow> length (drop n p) < length p"
  by (cases p) simp_all

lemma update_append: "b2_ok s \<Longrightarrow> blake2b_update s (a @ b) = blake2b_update (blake2b_update s a) b"
proof (induction a arbitrary: s rule: length_induct)
  case (1 a)
  show ?case
  proof (cases "a = [] \<or> b = []")
    case True
    then show ?thesis by auto
  next
    case False
    define t where "t = b2_flush s"
    have t: "b2_ok t" "b_buflen t < 128" using flush_fields(1,2) [OF 1(2)] by (simp_all add: t_def)
    define n where "n = 128 - b_buflen t"
    have S: "blake2b_update s p = blake2b_update (b2_store t (take n p)) (drop n p)" if "p \<noteq> []" for p
      using update_step [OF 1(2) that] by (simp add: t_def n_def)
    show ?thesis
    proof (cases "n \<le> length a")
      case True
      have "b2_ok (b2_store t (take n a))" using store_ok [OF t(1)] t(2) by (simp add: n_def)
      moreover have "length (drop n a) < length a" using False t(2) by (intro length_drop_less) (simp_all add: n_def)
      ultimately have "blake2b_update (b2_store t (take n a)) (drop n a @ b)
          = blake2b_update (blake2b_update (b2_store t (take n a)) (drop n a)) b"
        using 1(1) by blast
      then show ?thesis using S [of "a @ b"] S [of a] False True by simp
    next
      case short: False
      then have a: "blake2b_update s a = b2_store t a" using S [of a] False by simp
      have l: "b_buflen (b2_store t a) = b_buflen t + length a" "b_buflen t + length a < 128"
        using short by (simp_all add: b2_store_def n_def)
      have "b2_ok (b2_store t a)" using store_ok [OF t(1)] l(2) by simp
      from update_step [OF this, of b]
      have "blake2b_update (b2_store t a) b = blake2b_update (b2_store (b2_store t a) (take (n - length a) b)) (drop (n - length a) b)"
        using False l by (simp add: flush_idem n_def)
      also have "b2_store (b2_store t a) (take (n - length a) b) = b2_store t (take n (a @ b))"
        using store_store [OF t(1)] short by simp
      also have "drop (n - length a) b = drop n (a @ b)" using short by simp
      finally show ?thesis using a S [of "a @ b"] False by simp
    qed
  qed
qed


section \<open>The hash of RFC 7693\<close>

text \<open>
  The reference: every block but the last is mixed with the number of bytes up to its end, the last
  one, padded with zeros, with the number of all bytes and the final flag.
\<close>

definition b2_mix_at :: "64 word list \<Rightarrow> nat \<Rightarrow> byte list \<Rightarrow> bool \<Rightarrow> 64 word list" where
  "b2_mix_at h t = b2_mix h (of_nat t) (of_nat (t div 2 ^ 64))"

function b2_ref :: "64 word list \<Rightarrow> nat \<Rightarrow> byte list \<Rightarrow> 64 word list" where
  "b2_ref h t d =
     (if length d > 128 then b2_ref (b2_mix_at h (t + 128) (take 128 d) False) (t + 128) (drop 128 d)
      else b2_mix_at h (t + length d) (d @ replicate (128 - length d) 0) True)"
  by pat_completeness auto
termination by (relation "measure (\<lambda>(h, t, d). length d)") auto

declare b2_ref.simps [simp del]

definition blake2b_spec :: "nat \<Rightarrow> byte list \<Rightarrow> byte list \<Rightarrow> byte list" where
  "blake2b_spec outlen key data =
     (let h = b2_iv[0 := b2_iv ! 0 XOR (0x01010000 XOR push_bit 8 (of_nat (length key)) XOR of_nat outlen)];
          block = (if key = [] then [] else key @ replicate (128 - length key) 0)
      in take outlen (concat (map store64 (b2_ref h 0 (block @ data)))))"

definition counts :: "blake2b_state \<Rightarrow> nat \<Rightarrow> bool" where
  "counts s t \<longleftrightarrow> b_t0 s = of_nat t \<and> b_t1 s = of_nat (t div 2 ^ 64)"

lemma carry_nat:
  assumes "r < M" and "k \<le> (M :: nat)"
  shows "(r + k) div M = (if (r + k) mod M < k then 1 else 0)"
proof (cases "r + k < M")
  case True
  then show ?thesis by simp
next
  case False
  then have "r + k = M + (r + k - M)" "r + k - M < M" using assms by simp_all
  then have "(r + k) div M = 1" "(r + k) mod M = r + k - M"
    using assms(1) div_add_self1 [of M "r + k - M"] mod_add_self1 [of M "r + k - M"] by auto
  then show ?thesis using assms(1) False by simp
qed

lemma carry:
  assumes "k \<le> 128"
  shows "(of_nat (t + k) :: 64 word) < of_nat k \<longleftrightarrow> (t + k) div 2 ^ 64 = t div 2 ^ 64 + 1"
    and "\<not> (of_nat (t + k) :: 64 word) < of_nat k \<longleftrightarrow> (t + k) div 2 ^ 64 = t div 2 ^ 64"
proof -
  define q r where "q = t div 2 ^ 64" and "r = t mod (2 ^ 64 :: nat)"
  have t: "t = q * 2 ^ 64 + r" "r < 2 ^ 64" by (simp_all add: q_def r_def)
  have *: "(of_nat (t + k) :: 64 word) < of_nat k \<longleftrightarrow> (r + k) mod 2 ^ 64 < k"
  proof -
    have "unat (of_nat (t + k) :: 64 word) = (t + k) mod 2 ^ 64" by (simp only: unat_of_nat len_of_numeral_defs) simp
    moreover have "(t + k) mod 2 ^ 64 = (r + k) mod 2 ^ 64" by (simp add: r_def mod_add_left_eq)
    moreover have "unat (of_nat k :: 64 word) = k" using assms by (simp add: unat_of_nat take_bit_eq_mod)
    ultimately show ?thesis by (simp add: word_less_nat_alt del: of_nat_add)
  qed
  have d: "(t + k) div 2 ^ 64 = q + (r + k) div 2 ^ 64" by (simp add: t(1) add.assoc)
  have "(r + k) div 2 ^ 64 = (if (r + k) mod 2 ^ 64 < k then 1 else 0)"
    using t(2) assms by (intro carry_nat) simp_all
  then show "(of_nat (t + k) :: 64 word) < of_nat k \<longleftrightarrow> (t + k) div 2 ^ 64 = t div 2 ^ 64 + 1"
    "\<not> (of_nat (t + k) :: 64 word) < of_nat k \<longleftrightarrow> (t + k) div 2 ^ 64 = t div 2 ^ 64"
    unfolding * d q_def [symmetric] by (simp_all split: if_splits)
qed

lemma counts_add: "counts s t \<Longrightarrow> k \<le> 128 \<Longrightarrow> counts (b2_count s k) (t + k)"
  using carry [of k t] by (auto simp: counts_def b2_count_def Let_def)

lemma count_fields:
  "b_h (b2_count s k) = b_h s" "b_buf (b2_count s k) = b_buf s" "b_buflen (b2_count s k) = b_buflen s"
  "b_outlen (b2_count s k) = b_outlen s"
  by (simp_all add: b2_count_def Let_def)

text \<open>What the reference makes of a state whose buffer is followed by more input.\<close>

definition b2_rest :: "blake2b_state \<Rightarrow> nat \<Rightarrow> byte list \<Rightarrow> 64 word list" where
  "b2_rest s t p = b2_ref (b_h s) t (take (b_buflen s) (b_buf s) @ p)"

lemma rest_flush:
  assumes "b2_ok s" and "counts s t" and "p \<noteq> []"
  obtains t' where "counts (b2_flush s) t'" "b2_rest (b2_flush s) t' p = b2_rest s t p"
proof (cases "b_buflen s = 128")
  case True
  then have c: "counts (b2_count s 128) (t + 128)" using counts_add assms(2) by simp
  then have "counts (b2_flush s) (t + 128)" using True by (simp add: b2_flush_def counts_def b2_compress_def)
  moreover have "b_h (b2_flush s) = b2_mix_at (b_h s) (t + 128) (b_buf s) False" "b_buflen (b2_flush s) = 0"
    using c True by (simp_all add: b2_flush_def counts_def b2_compress_def b2_mix_at_def count_fields)
  then have "b2_rest (b2_flush s) (t + 128) p = b2_rest s t p"
    using assms True by (simp add: b2_rest_def b2_ok_def b2_ref.simps [of "b_h s"])
  ultimately show ?thesis by (rule that)
next
  case False
  then show ?thesis using that assms(2) by (simp add: b2_flush_def)
qed

lemma rest_store:
  assumes "b2_ok s"
  shows "b2_rest (b2_store s (take n p)) t (drop n p) = b2_rest s t p"
  using assms take_put_at [of "b_buflen s" "b_buf s" "take n p"]
  by (simp add: b2_rest_def b2_store_def b2_ok_def)

lemma final_rest:
  assumes "b2_ok s" and "counts s t"
  shows "snd (blake2b_final s) = take (b_outlen s) (concat (map store64 (b2_rest s t [])))"
proof -
  have "counts (b2_count s (b_buflen s)) (t + b_buflen s)" using counts_add assms by (simp add: b2_ok_def)
  then show ?thesis using assms(1)
    by (simp add: blake2b_final_def Let_def b2_compress_def count_fields counts_def b2_rest_def b2_ok_def
        b2_ref.simps [of "b_h s"] b2_mix_at_def put_at_def)
qed

lemma update_rest:
  assumes "b2_ok s" and "counts s t"
  shows "\<exists>t'. b2_ok (blake2b_update s p) \<and> counts (blake2b_update s p) t' \<and>
    b2_rest (blake2b_update s p) t' [] = b2_rest s t p \<and> b_outlen (blake2b_update s p) = b_outlen s"
  using assms
proof (induction p arbitrary: s t rule: length_induct)
  case (1 p)
  show ?case
  proof (cases "p = []")
    case True
    then show ?thesis using 1(2,3) by auto
  next
    case False
    define u where "u = b2_flush s"
    define n where "n = 128 - b_buflen u"
    have u: "b2_ok u" "b_buflen u < 128" "b_outlen u = b_outlen s"
      using flush_fields(1,2) [OF 1(2)] flush_fields(4) by (simp_all add: u_def)
    obtain t' where t': "counts u t'" "b2_rest u t' p = b2_rest s t p"
      using rest_flush [OF 1(2,3) False] u_def by metis
    define v where "v = b2_store u (take n p)"
    have v: "b2_ok v" "counts v t'" "b2_rest v t' (drop n p) = b2_rest s t p" "b_outlen v = b_outlen s"
      using store_ok [OF u(1)] u(2,3) t' rest_store [OF u(1)]
      by (simp_all add: v_def n_def, simp_all add: counts_def b2_store_def)
    have "length (drop n p) < length p" using False u(2) by (intro length_drop_less) (simp_all add: n_def)
    then have "\<exists>t'. b2_ok (blake2b_update v (drop n p)) \<and> counts (blake2b_update v (drop n p)) t' \<and>
        b2_rest (blake2b_update v (drop n p)) t' [] = b2_rest s t p \<and> b_outlen (blake2b_update v (drop n p)) = b_outlen s"
      using 1(1) v by metis
    moreover have "blake2b_update s p = blake2b_update v (drop n p)"
      using update_step [OF 1(2) False] by (simp add: u_def n_def v_def)
    ultimately show ?thesis by simp
  qed
qed

definition b2_start :: "nat \<Rightarrow> byte list \<Rightarrow> blake2b_state" where
  "b2_start outlen key =
     \<lparr>b_h = b2_iv[0 := b2_iv ! 0 XOR (0x01010000 XOR push_bit 8 (of_nat (length key)) XOR of_nat outlen)],
      b_t0 = 0, b_t1 = 0, b_buf = replicate 128 0, b_buflen = 0, b_outlen = outlen\<rparr>"

lemma init_key_start:
  "blake2b_init_key outlen key = blake2b_update (b2_start outlen key)
     (if key = [] then [] else key @ replicate (128 - length key) 0)"
  by (simp add: blake2b_init_key_def b2_start_def put_at_def)

lemma start_ok: "b2_ok (b2_start outlen key)" "counts (b2_start outlen key) 0"
  "b2_rest (b2_start outlen key) 0 p = b2_ref (b_h (b2_start outlen key)) 0 p" "b_outlen (b2_start outlen key) = outlen"
  by (simp_all add: b2_start_def b2_ok_def counts_def b2_rest_def)

lemma update_ok: "b2_ok s \<Longrightarrow> b2_ok (blake2b_update s p)"
proof (induction p arbitrary: s rule: length_induct)
  case (1 p)
  show ?case
  proof (cases "p = []")
    case False
    have u: "b2_ok (b2_flush s)" "b_buflen (b2_flush s) < 128" using flush_fields(1,2) [OF 1(2)] .
    have "b2_ok (b2_store (b2_flush s) (take (128 - b_buflen (b2_flush s)) p))" using store_ok [OF u(1)] u(2) by simp
    moreover have "length (drop (128 - b_buflen (b2_flush s)) p) < length p"
      using u(2) by (intro length_drop_less [OF False]) simp
    ultimately show ?thesis using 1(1) update_step [OF 1(2) False] by presburger
  qed (simp add: 1)
qed

lemma updates_concat: "b2_ok s \<Longrightarrow> foldl blake2b_update s ps = blake2b_update s (concat ps)"
proof (induction ps arbitrary: s)
  case Nil
  then show ?case by simp
next
  case (Cons p ps)
  have "b2_ok (blake2b_update s p)" using update_ok [OF Cons.prems] .
  then show ?case using Cons update_append by simp
qed


end
