(* ===== verification/Poly1305.thy ===== *)
theory Poly1305
  imports Bytes
begin

text \<open>
  Poly1305 (\<open>kernel/security/chacha20.c\<close>): the authenticator in 26-bit limbs on 32-bit words with
  64-bit products. It is proved equal to the arithmetic modulo \<open>2 ^ 130 - 5\<close> of RFC 8439, which needs
  that no product, carry or limb leaves its width. A \<open>uint32_t\<close> and a \<open>uint64_t\<close> are \<open>nat\<close>s with
  \<open>u32\<close> and \<open>u64\<close> written out at every operation that could wrap.
\<close>

section \<open>The code\<close>

definition load32le :: "byte list \<Rightarrow> nat" where
  "load32le p = unat (p ! 0) OR push_bit 8 (unat (p ! 1)) OR push_bit 16 (unat (p ! 2)) OR push_bit 24 (unat (p ! 3))"

definition store32le :: "nat \<Rightarrow> byte list" where
  "store32le v = [of_nat v, of_nat (drop_bit 8 v), of_nat (drop_bit 16 v), of_nat (drop_bit 24 v)]"

type_synonym limbs = "nat \<times> nat \<times> nat \<times> nat \<times> nat"

record poly1305_state =
  p_r :: limbs
  p_h :: limbs
  p_pad :: "nat \<times> nat \<times> nat \<times> nat"

text \<open>Sixteen bytes as five limbs, the top bits of the middle ones not yet masked off.\<close>

definition split26 :: "byte list \<Rightarrow> limbs" where
  "split26 m =
     (let t0 = load32le m; t1 = load32le (drop 4 m); t2 = load32le (drop 8 m); t3 = load32le (drop 12 m)
      in (t0, drop_bit 26 t0 OR u32 (push_bit 6 t1), drop_bit 20 t1 OR u32 (push_bit 12 t2),
          drop_bit 14 t2 OR u32 (push_bit 18 t3), drop_bit 8 t3))"

definition poly1305_init :: "byte list \<Rightarrow> poly1305_state" where
  "poly1305_init key =
     (let (t0, t1, t2, t3, t4) = split26 key
      in \<lparr>p_r = (t0 AND 0x3ffffff, t1 AND 0x3ffff03, t2 AND 0x3ffc0ff, t3 AND 0x3f03fff, t4 AND 0x00fffff),
          p_h = (0, 0, 0, 0, 0),
          p_pad = (load32le (drop 16 key), load32le (drop 20 key), load32le (drop 24 key), load32le (drop 28 key))\<rparr>)"

fun poly_add :: "limbs \<Rightarrow> limbs \<Rightarrow> nat \<Rightarrow> limbs" where
  "poly_add (h0, h1, h2, h3, h4) (t0, t1, t2, t3, t4) hibit =
     (u32 (h0 + (t0 AND 0x3ffffff)), u32 (h1 + (t1 AND 0x3ffffff)), u32 (h2 + (t2 AND 0x3ffffff)),
      u32 (h3 + (t3 AND 0x3ffffff)), u32 (h4 + (t4 OR hibit)))"

fun poly_mul :: "limbs \<Rightarrow> limbs \<Rightarrow> limbs" where
  "poly_mul (h0, h1, h2, h3, h4) (r0, r1, r2, r3, r4) =
     (u64 (h0 * r0 + h1 * u32 (5 * r4) + h2 * u32 (5 * r3) + h3 * u32 (5 * r2) + h4 * u32 (5 * r1)),
      u64 (h0 * r1 + h1 * r0 + h2 * u32 (5 * r4) + h3 * u32 (5 * r3) + h4 * u32 (5 * r2)),
      u64 (h0 * r2 + h1 * r1 + h2 * r0 + h3 * u32 (5 * r4) + h4 * u32 (5 * r3)),
      u64 (h0 * r3 + h1 * r2 + h2 * r1 + h3 * r0 + h4 * u32 (5 * r4)),
      u64 (h0 * r4 + h1 * r3 + h2 * r2 + h3 * r1 + h4 * r0))"

fun poly_carry :: "limbs \<Rightarrow> limbs" where
  "poly_carry (d0, d1, d2, d3, d4) =
     (let c = u32 (drop_bit 26 d0); h0 = u32 d0 AND 0x3ffffff;
          d1 = u64 (d1 + c); c = u32 (drop_bit 26 d1); h1 = u32 d1 AND 0x3ffffff;
          d2 = u64 (d2 + c); c = u32 (drop_bit 26 d2); h2 = u32 d2 AND 0x3ffffff;
          d3 = u64 (d3 + c); c = u32 (drop_bit 26 d3); h3 = u32 d3 AND 0x3ffffff;
          d4 = u64 (d4 + c); c = u32 (drop_bit 26 d4); h4 = u32 d4 AND 0x3ffffff;
          h0 = u32 (h0 + u32 (c * 5)); c = drop_bit 26 h0; h0 = h0 AND 0x3ffffff;
          h1 = u32 (h1 + c)
      in (h0, h1, h2, h3, h4))"

definition poly1305_block :: "poly1305_state \<Rightarrow> byte list \<Rightarrow> nat \<Rightarrow> poly1305_state" where
  "poly1305_block st m hibit = st\<lparr>p_h := poly_carry (poly_mul (poly_add (p_h st) (split26 m) hibit) (p_r st))\<rparr>"

function poly1305_blocks :: "poly1305_state \<Rightarrow> byte list \<Rightarrow> nat \<Rightarrow> poly1305_state" where
  "poly1305_blocks st m hibit =
     (if length m \<ge> 16 then poly1305_blocks (poly1305_block st m hibit) (drop 16 m) hibit else st)"
  by pat_completeness auto
termination by (relation "measure (\<lambda>(st, m, b). length m)") auto

declare poly1305_blocks.simps [simp del]

text \<open>The carries of \<open>poly1305_finish\<close>, and the choice between \<open>h\<close> and \<open>h - p\<close> without a branch.\<close>

fun poly_carry_full :: "limbs \<Rightarrow> limbs" where
  "poly_carry_full (h0, h1, h2, h3, h4) =
     (let c = drop_bit 26 h1; h1 = h1 AND 0x3ffffff;
          h2 = u32 (h2 + c); c = drop_bit 26 h2; h2 = h2 AND 0x3ffffff;
          h3 = u32 (h3 + c); c = drop_bit 26 h3; h3 = h3 AND 0x3ffffff;
          h4 = u32 (h4 + c); c = drop_bit 26 h4; h4 = h4 AND 0x3ffffff;
          h0 = u32 (h0 + u32 (c * 5)); c = drop_bit 26 h0; h0 = h0 AND 0x3ffffff;
          h1 = u32 (h1 + c)
      in (h0, h1, h2, h3, h4))"

definition poly_choose :: "nat \<Rightarrow> nat \<Rightarrow> nat \<Rightarrow> nat" where
  "poly_choose msk h g = (h AND (0xffffffff - msk)) OR (g AND msk)"

fun poly_reduce :: "limbs \<Rightarrow> limbs" where
  "poly_reduce (h0, h1, h2, h3, h4) =
     (let gc = u32 (5 + h0); g0 = gc AND 0x3ffffff; gc = drop_bit 26 gc;
          gc = u32 (gc + h1); g1 = gc AND 0x3ffffff; gc = drop_bit 26 gc;
          gc = u32 (gc + h2); g2 = gc AND 0x3ffffff; gc = drop_bit 26 gc;
          gc = u32 (gc + h3); g3 = gc AND 0x3ffffff; gc = drop_bit 26 gc;
          gc = u32 (gc + h4); g4 = gc AND 0x3ffffff; gc = drop_bit 26 gc;
          msk = sub32 0 gc
      in (poly_choose msk h0 g0, poly_choose msk h1 g1, poly_choose msk h2 g2, poly_choose msk h3 g3,
          poly_choose msk h4 g4))"

fun poly_tag :: "limbs \<Rightarrow> nat \<times> nat \<times> nat \<times> nat \<Rightarrow> byte list" where
  "poly_tag (h0, h1, h2, h3, h4) (pad0, pad1, pad2, pad3) =
     (let f0 = h0 OR u32 (push_bit 26 h1);
          f1 = drop_bit 6 h1 OR u32 (push_bit 20 h2);
          f2 = drop_bit 12 h2 OR u32 (push_bit 14 h3);
          f3 = drop_bit 18 h3 OR u32 (push_bit 8 h4);
          t0 = u64 (f0 + pad0);
          t1 = u64 (f1 + pad1 + drop_bit 32 t0);
          t2 = u64 (f2 + pad2 + drop_bit 32 t1);
          t3 = u64 (f3 + pad3 + drop_bit 32 t2)
      in store32le (u32 t0) @ store32le (u32 t1) @ store32le (u32 t2) @ store32le (u32 t3))"

definition poly1305_finish :: "poly1305_state \<Rightarrow> byte list" where
  "poly1305_finish st = poly_tag (poly_reduce (poly_carry_full (p_h st))) (p_pad st)"

text \<open>The largest multiple of sixteen not above \<open>len\<close>, \<open>len & ~15\<close>.\<close>

definition whole16 :: "nat \<Rightarrow> nat" where
  "whole16 len = len AND (0xffffffffffffffff - 15)"

definition poly1305 :: "byte list \<Rightarrow> byte list \<Rightarrow> byte list" where
  "poly1305 key m =
     (let st = poly1305_init key; whole = whole16 (length m);
          st = poly1305_blocks st (take whole m) (push_bit 24 1);
          st = (if length m > whole
                then poly1305_blocks st
                  (put_at (put_at (replicate 16 0) 0 (drop whole m)) (length m - whole) [1]) 0
                else st)
      in poly1305_finish st)"

definition poly1305_verify :: "byte list \<Rightarrow> byte list \<Rightarrow> bool" where
  "poly1305_verify a b \<longleftrightarrow> foldl (\<lambda>diff i. diff OR (a ! i XOR b ! i)) 0 [0..<16] = 0"

text \<open>One of the two halves of \<open>poly1305_aead\<close>: the whole blocks, then the last one padded with zeros.\<close>

definition poly1305_padded :: "poly1305_state \<Rightarrow> byte list \<Rightarrow> poly1305_state" where
  "poly1305_padded st m =
     (let whole = whole16 (length m); st = poly1305_blocks st (take whole m) (push_bit 24 1)
      in if length m > whole
         then poly1305_blocks st (put_at (replicate 16 0) 0 (drop whole m)) (push_bit 24 1) else st)"

definition aead_lens :: "nat \<Rightarrow> nat \<Rightarrow> byte list" where
  "aead_lens aad_len len =
     map (\<lambda>i. of_nat (drop_bit (8 * i) aad_len)) [0..<8] @ map (\<lambda>i. of_nat (drop_bit (8 * i) len)) [0..<8]"

definition poly1305_aead :: "byte list \<Rightarrow> byte list \<Rightarrow> byte list \<Rightarrow> byte list" where
  "poly1305_aead key aad data =
     poly1305_finish (poly1305_blocks (poly1305_padded (poly1305_padded (poly1305_init key) aad) data)
       (aead_lens (length aad) (length data)) (push_bit 24 1))"

section \<open>Bytes as numbers\<close>

fun le_num :: "byte list \<Rightarrow> nat" where
  "le_num [] = 0"
| "le_num (b # bs) = unat b + 256 * le_num bs"

lemma le_num_append: "le_num (xs @ ys) = le_num xs + 2 ^ (8 * length xs) * le_num ys"
  by (induction xs) (simp_all add: algebra_simps power_add)

lemma le_num_less: "le_num xs < 2 ^ (8 * length xs)"
proof (induction xs)
  case (Cons b bs)
  have "unat b < 256" by (rule unat_byte)
  moreover have "256 * (le_num bs + 1) \<le> 256 * 2 ^ (8 * length bs)" using Cons by (intro mult_le_mono) simp_all
  ultimately show ?case by (simp add: power_add)
qed simp

lemma and26: "x AND 0x3ffffff = x mod (2 ^ 26 :: nat)"
  using take_bit_eq_mask [of 26 x] by (simp add: mask_eq_exp_minus_1 take_bit_eq_mod)

lemma load32le_num: "length p \<ge> 4 \<Longrightarrow> load32le p = le_num (take 4 p)"
proof -
  assume "length p \<ge> 4"
  then obtain a b c d q where p: "p = a # b # c # d # q"
    by (cases p; cases "tl p"; cases "tl (tl p)"; cases "tl (tl (tl p))") auto
  have l: "unat x < 2 ^ 8" for x :: byte using unat_byte [of x] by simp
  have "load32le p = unat a OR push_bit 8 (unat b OR push_bit 8 (unat c OR push_bit 8 (unat d)))"
    by (simp add: p load32le_def push_bit_or or.assoc)
  also have "\<dots> = le_num (take 4 p)" using l by (simp add: or_add p)
  finally show ?thesis .
qed


text \<open>Sixteen bytes are the number their five limbs of 26 bits make.\<close>

abbreviation B26 :: nat where "B26 \<equiv> 2 ^ 26"

definition limb :: "nat \<Rightarrow> nat \<Rightarrow> nat" where
  "limb i x = x div B26 ^ i mod B26"

fun num :: "limbs \<Rightarrow> nat" where
  "num (h0, h1, h2, h3, h4) = h0 + B26 * (h1 + B26 * (h2 + B26 * (h3 + B26 * h4)))"

lemma div_join:
  assumes "D dvd P * Q" and "0 < (P :: nat)"
  shows "(a div P + (Q * b) mod (P * Q)) mod D = (a + P * Q * b) div P mod D"
proof -
  have "(a div P + (Q * b) mod (P * Q)) mod D = (a div P + (Q * b) mod (P * Q) mod D) mod D"
    by (rule mod_add_right_eq [symmetric])
  also have "(Q * b) mod (P * Q) mod D = (Q * b) mod D" using assms(1) by (rule mod_mod_cancel)
  also have "(a div P + (Q * b) mod D) mod D = (a div P + Q * b) mod D" by (rule mod_add_right_eq)
  also have "a div P + Q * b = (a + P * (Q * b)) div P" using assms(2) by simp
  finally show ?thesis by (simp only: mult.assoc)
qed

lemma u32_push:
  assumes "W32 = P * 2 ^ k"
  shows "u32 (push_bit k b) = push_bit k (b mod P)"
proof -
  have "u32 (push_bit k b) = (2 ^ k * b) mod (2 ^ k * P)"
    unfolding u32_def push_bit_eq_mult assms mult.commute [of b] mult.commute [of P] by (rule refl)
  also have "\<dots> = 2 ^ k * (b mod P)" by (rule mult_mod_right [symmetric])
  finally show ?thesis unfolding push_bit_eq_mult mult.commute [of "b mod P"] .
qed

lemma join_or:
  assumes "W32 = P * 2 ^ k" and "x < 2 ^ k"
  shows "x OR u32 (push_bit k b) = x + 2 ^ k * (b mod P)"
  unfolding u32_push [OF assms(1)] using assms(2) by (rule or_add)

lemma drop_high:
  assumes "(D :: nat) dvd Q" and "0 < P"
  shows "(x + P * Q * y) div P mod D = x div P mod D"
proof -
  have "(x + P * Q * y) div P = x div P + Q * y" using assms(2) by (simp add: mult.assoc)
  moreover have "D dvd Q * y" using assms(1) by simp
  ultimately show ?thesis by (metis dvd_eq_mod_eq_0 mod_add_right_eq add.right_neutral)
qed

lemma words_limbs:
  assumes "a < W32" and "b < W32" and "c < W32" and "d < W32" and "x = a + W32 * (b + W32 * (c + W32 * d))"
  shows "a mod B26 = limb 0 x" "(drop_bit 26 a OR u32 (push_bit 6 b)) mod B26 = limb 1 x"
    "(drop_bit 20 b OR u32 (push_bit 12 c)) mod B26 = limb 2 x"
    "(drop_bit 14 c OR u32 (push_bit 18 d)) mod B26 = limb 3 x" "drop_bit 8 d = limb 4 x"
proof -
  have J: "(drop_bit j u OR u32 (push_bit k v)) mod B26 = (u + W32 * v) div 2 ^ j mod B26"
    if "u < W32" "W32 = 2 ^ j * 2 ^ k" "0 < (2 :: nat) ^ j" for j k u v :: nat
  proof -
    have "u < 2 ^ k * 2 ^ j" using that(1,2) by (simp only: mult.commute)
    then have "drop_bit j u < 2 ^ k" unfolding drop_bit_eq_div by (rule less_mult_imp_div_less)
    then have "drop_bit j u OR u32 (push_bit k v) = u div 2 ^ j + 2 ^ k * (v mod 2 ^ j)"
      using join_or [OF that(2)] by (simp only: drop_bit_eq_div)
    then have "drop_bit j u OR u32 (push_bit k v) = u div 2 ^ j + (2 ^ k * v) mod (2 ^ j * 2 ^ k)"
      by (simp only: mult_mod_right mult.commute [of "2 ^ j"])
    moreover have "B26 dvd 2 ^ j * 2 ^ k" unfolding that(2) [symmetric] by (simp add: dvd_eq_mod_eq_0)
    ultimately show ?thesis using div_join [of B26 "2 ^ j" "2 ^ k" u v] that(2,3) by metis
  qed
  have dv: "B26 dvd 2 ^ 38" "B26 dvd 2 ^ 44" by (rule le_imp_power_dvd, simp)+
  have x: "x div W32 = b + W32 * (c + W32 * d)" using assms(1,5) by simp
  have e: "x = (a + W32 * b) + 2 ^ 26 * 2 ^ 38 * (c + W32 * d)" "b + W32 * (c + W32 * d) = (b + W32 * c) + 2 ^ 20 * 2 ^ 44 * d"
    by (simp_all add: assms(5))
  have x2: "x div (W32 * W32) = c + W32 * d" using assms(2) x by (simp add: div_mult2_eq)
  have x3: "x div (W32 * W32 * W32) = d" using assms(3) x2 by (simp only: div_mult2_eq)
  show "a mod B26 = limb 0 x" 
    using drop_high [of B26 W32 1 a "b + W32 * (c + W32 * d)"] assms(5) by (simp add: limb_def dvd_eq_mod_eq_0)
  have "(a + W32 * b) div 2 ^ 26 mod B26 = x div 2 ^ 26 mod B26"
    unfolding e(1) by (rule drop_high [OF dv(1), symmetric]) simp
  then show "(drop_bit 26 a OR u32 (push_bit 6 b)) mod B26 = limb 1 x"
    unfolding limb_def power_one_right by (rule trans [OF J [OF assms(1)], rotated 2]) simp_all
  have "(b + W32 * c) div 2 ^ 20 mod B26 = x div W32 div 2 ^ 20 mod B26"
    unfolding x e(2) by (rule drop_high [OF dv(2), symmetric]) simp
  also have "x div W32 div 2 ^ 20 = x div B26 ^ 2" unfolding div_mult2_eq [symmetric] by simp
  finally show "(drop_bit 20 b OR u32 (push_bit 12 c)) mod B26 = limb 2 x"
    unfolding limb_def by (rule trans [OF J [OF assms(2)], rotated 2]) simp_all
  have "(c + W32 * d) div 2 ^ 14 = x div B26 ^ 3" unfolding x2 [symmetric] div_mult2_eq [symmetric] by simp
  then show "(drop_bit 14 c OR u32 (push_bit 18 d)) mod B26 = limb 3 x"
    unfolding limb_def using J [OF assms(3), of 14 18 d] by simp
  have "d div 2 ^ 8 = x div B26 ^ 4" unfolding x3 [symmetric] div_mult2_eq [symmetric] by simp
  moreover have "d div 2 ^ 8 < B26" using assms(4) by simp
  ultimately show "drop_bit 8 d = limb 4 x" unfolding limb_def drop_bit_eq_div by simp
qed

lemma load_num: "length m \<ge> 4 \<Longrightarrow> le_num m = load32le m + W32 * le_num (drop 4 m)"
  using le_num_append [of "take 4 m" "drop 4 m"] by (simp add: load32le_num)

lemma load_less: "length m \<ge> 4 \<Longrightarrow> load32le m < W32"
  using le_num_less [of "take 4 m"] by (simp add: load32le_num)

lemma num16:
  assumes "length m \<ge> 16"
  shows "le_num (take 16 m) = load32le m + W32 * (load32le (drop 4 m) + W32 * (load32le (drop 8 m) + W32 * load32le (drop 12 m)))"
proof -
  have "load32le (take n p) = load32le p" if "4 \<le> n" for n p using that by (simp add: load32le_def)
  then have t: "load32le (drop k (take 16 m)) = load32le (drop k m)" if "k \<le> 12" for k
    using that by (simp add: drop_take)
  have d: "drop 4 (drop k (take 16 m)) = drop (k + 4) (take 16 m)" for k by (simp add: add.commute)
  show ?thesis using assms load_num [of "drop 0 (take 16 m)"] load_num [of "drop 4 (take 16 m)"]
      load_num [of "drop 8 (take 16 m)"] load_num [of "drop 12 (take 16 m)"] t [of 0] t [of 4] t [of 8] t [of 12]
    by (simp only: d) simp
qed

lemma split26_limbs:
  assumes "length m \<ge> 16"
  obtains t0 t1 t2 t3 t4 where "split26 m = (t0, t1, t2, t3, t4)" "t0 mod B26 = limb 0 (le_num (take 16 m))"
    "t1 mod B26 = limb 1 (le_num (take 16 m))" "t2 mod B26 = limb 2 (le_num (take 16 m))"
    "t3 mod B26 = limb 3 (le_num (take 16 m))" "t4 = limb 4 (le_num (take 16 m))"
proof -
  have "load32le m < W32" "load32le (drop 4 m) < W32" "load32le (drop 8 m) < W32" "load32le (drop 12 m) < W32"
    using assms by (simp_all add: load_less)
  note L = words_limbs [OF this num16 [OF assms]]
  show ?thesis by (rule that [OF _ L]) (simp add: split26_def Let_def)
qed

lemma limb_less: "limb i x < B26"
  unfolding limb_def by (rule mod_less_divisor) simp

lemma num_limbs: "x < B26 ^ 5 \<Longrightarrow> num (limb 0 x, limb 1 x, limb 2 x, limb 3 x, limb 4 x) = x"
proof -
  assume x: "x < B26 ^ 5"
  have d: "limb i x + B26 * (x div B26 ^ j) = x div B26 ^ i" if "j = Suc i" for i j
    unfolding that limb_def power_Suc mult.commute [of B26] div_mult2_eq by (metis mod_mult_div_eq mult.commute)
  have e: "x div B26 ^ 5 = 0" using x by (rule div_less)
  have "limb 4 x = x div B26 ^ 4" using d [of 5 4] e by simp
  then have "num (limb 0 x, limb 1 x, limb 2 x, limb 3 x, limb 4 x) = x div B26 ^ 0"
    using d [of 4 3] d [of 3 2] d [of 2 1] d [of 1 0] by simp
  then show ?thesis by simp
qed


section \<open>The arithmetic modulo \<open>2 ^ 130 - 5\<close>\<close>

definition P1305 :: nat where "P1305 = 2 ^ 130 - 5"

text \<open>The bounds the limbs keep between two blocks, and those they have after a block was added.\<close>

fun limbs_ok :: "limbs \<Rightarrow> bool" where
  "limbs_ok (h0, h1, h2, h3, h4) \<longleftrightarrow> h0 < B26 \<and> h1 < B26 + 64 \<and> h2 < B26 \<and> h3 < B26 \<and> h4 < B26"

fun limbs_under :: "nat \<Rightarrow> limbs \<Rightarrow> bool" where
  "limbs_under b (h0, h1, h2, h3, h4) \<longleftrightarrow> h0 < b \<and> h1 < b \<and> h2 < b \<and> h3 < b \<and> h4 < b"

abbreviation sum_bound :: nat where "sum_bound \<equiv> 2 ^ 27 + 64"

lemma poly_add_ok:
  assumes "limbs_ok h" and m: "length m \<ge> 16" and "hibit = 0 \<or> hibit = push_bit 24 1"
  shows "limbs_under sum_bound (poly_add h (split26 m) hibit)"
    and "num (poly_add h (split26 m) hibit) = num h + (le_num (take 16 m) + hibit * B26 ^ 4)"
proof -
  obtain h0 h1 h2 h3 h4 where h: "h = (h0, h1, h2, h3, h4)" by (cases h)
  define x where "x = le_num (take 16 m)"
  have x: "x < 2 ^ 128" using le_num_less [of "take 16 m"] m by (simp add: x_def)
  obtain t0 t1 t2 t3 t4 where t: "split26 m = (t0, t1, t2, t3, t4)" "t0 mod B26 = limb 0 x" "t1 mod B26 = limb 1 x"
    "t2 mod B26 = limb 2 x" "t3 mod B26 = limb 3 x" "t4 = limb 4 x"
    unfolding x_def using m by (rule split26_limbs)
  have "x div B26 ^ 4 < 2 ^ 24" using x by (simp add: div_less_iff_less_mult)
  then have t4: "t4 < 2 ^ 24" unfolding t(6) limb_def by (rule le_less_trans [OF mod_less_eq_dividend])
  have hi: "t4 OR hibit = t4 + hibit" "hibit \<le> 2 ^ 24" using assms(3) or_add [OF t4, of 1] by (auto simp del: push_bit_of_1)
  have X: "num (limb 0 x, limb 1 x, limb 2 x, limb 3 x, limb 4 x) = x" using x by (intro num_limbs) simp
  have l: "limb 0 x < 2 ^ 26" "limb 1 x < 2 ^ 26" "limb 2 x < 2 ^ 26" "limb 3 x < 2 ^ 26" by (rule limb_less)+
  have b: "h0 < 2 ^ 26" "h1 < 2 ^ 26 + 64" "h2 < 2 ^ 26" "h3 < 2 ^ 26" "h4 < 2 ^ 26" using assms(1) h by simp_all
  have A: "poly_add h (split26 m) hibit = (h0 + limb 0 x, h1 + limb 1 x, h2 + limb 2 x, h3 + limb 3 x, h4 + (t4 + hibit))"
    unfolding h t(1) poly_add.simps and26 t(2-5) hi(1) using l b t4 hi(2) by (simp add: u32_id)
  show "limbs_under sum_bound (poly_add h (split26 m) hibit)" unfolding A using l b t4 hi(2) by simp
  show "num (poly_add h (split26 m) hibit) = num h + (le_num (take 16 m) + hibit * B26 ^ 4)"
  proof -
    have "num (h0 + limb 0 x, h1 + limb 1 x, h2 + limb 2 x, h3 + limb 3 x, h4 + (limb 4 x + hibit)) =
        num (h0, h1, h2, h3, h4) + (num (limb 0 x, limb 1 x, limb 2 x, limb 3 x, limb 4 x) + hibit * B26 ^ 4)"
      by (simp add: algebra_simps)
    then show ?thesis unfolding A unfolding X h t(6) x_def [symmetric] .
  qed
qed

text \<open>The products without their widths, and the multiple of \<open>2 ^ 130 - 5\<close> they leave out.\<close>

fun poly_prod :: "limbs \<Rightarrow> limbs \<Rightarrow> limbs" where
  "poly_prod (h0, h1, h2, h3, h4) (r0, r1, r2, r3, r4) =
     (h0 * r0 + 5 * (h1 * r4 + h2 * r3 + h3 * r2 + h4 * r1),
      h0 * r1 + h1 * r0 + 5 * (h2 * r4 + h3 * r3 + h4 * r2),
      h0 * r2 + h1 * r1 + h2 * r0 + 5 * (h3 * r4 + h4 * r3),
      h0 * r3 + h1 * r2 + h2 * r1 + h3 * r0 + 5 * (h4 * r4),
      h0 * r4 + h1 * r3 + h2 * r2 + h3 * r1 + h4 * r0)"

lemma prod_identity:
  fixes b :: int
  shows "(h0 + b * (h1 + b * (h2 + b * (h3 + b * h4)))) * (r0 + b * (r1 + b * (r2 + b * (r3 + b * r4)))) =
    (h0 * r0 + 5 * (h1 * r4 + h2 * r3 + h3 * r2 + h4 * r1)) +
    b * ((h0 * r1 + h1 * r0 + 5 * (h2 * r4 + h3 * r3 + h4 * r2)) +
    b * ((h0 * r2 + h1 * r1 + h2 * r0 + 5 * (h3 * r4 + h4 * r3)) +
    b * ((h0 * r3 + h1 * r2 + h2 * r1 + h3 * r0 + 5 * (h4 * r4)) +
    b * (h0 * r4 + h1 * r3 + h2 * r2 + h3 * r1 + h4 * r0)))) +
    (b ^ 5 - 5) * ((h1 * r4 + h2 * r3 + h3 * r2 + h4 * r1) + b * ((h2 * r4 + h3 * r3 + h4 * r2) +
      b * ((h3 * r4 + h4 * r3) + b * (h4 * r4))))"
  by algebra

lemma num_prod: "num (poly_prod k r) mod P1305 = num k * num r mod P1305"
proof -
  obtain k0 k1 k2 k3 k4 where k: "k = (k0, k1, k2, k3, k4)" by (cases k)
  obtain r0 r1 r2 r3 r4 where r: "r = (r0, r1, r2, r3, r4)" by (cases r)
  have p: "int P1305 = int B26 ^ 5 - 5" by (simp add: P1305_def)
  have "\<exists>q. int (num k * num r) = int (num (poly_prod k r)) + int P1305 * q"
    unfolding p k r num.simps poly_prod.simps of_nat_add of_nat_mult of_nat_numeral
    using prod_identity [of "int k0" "int B26" "int k1" "int k2" "int k3" "int k4" "int r0" "int r1" "int r2" "int r3" "int r4"]
    by blast
  then have "int (num k * num r) mod int P1305 = int (num (poly_prod k r)) mod int P1305" by auto
  then show ?thesis by (metis of_nat_eq_iff zmod_int)
qed

fun prods_under :: "limbs \<Rightarrow> bool" where
  "prods_under (d0, d1, d2, d3, d4) \<longleftrightarrow>
     d0 < 2 ^ 58 - 2 ^ 32 \<and> d1 < 2 ^ 58 - 2 ^ 32 \<and> d2 < 2 ^ 58 - 2 ^ 32 \<and> d3 < 2 ^ 58 - 2 ^ 32 \<and> d4 < 5 * 2 ^ 53 + 2 ^ 35"

lemma poly_mul_exact:
  assumes "limbs_under sum_bound k" and "limbs_under B26 r"
  shows "poly_mul k r = poly_prod k r \<and> prods_under (poly_prod k r)"
proof -
  obtain k0 k1 k2 k3 k4 where K: "k = (k0, k1, k2, k3, k4)" by (cases k)
  obtain r0 r1 r2 r3 r4 where R: "r = (r0, r1, r2, r3, r4)" by (cases r)
  have k: "k0 < sum_bound" "k1 < sum_bound" "k2 < sum_bound" "k3 < sum_bound" "k4 < sum_bound"
    using assms(1) K by simp_all
  have r: "r0 < B26" "r1 < B26" "r2 < B26" "r3 < B26" "r4 < B26" using assms(2) R by simp_all
  have M: "x * y \<le> 9007203348381633" if "x < sum_bound" "y < B26" for x y :: nat
    using that mult_le_mono [of x "2 ^ 27 + 63" y "2 ^ 26 - 1"] by simp
  note m = M [OF k(1) r(1)] M [OF k(1) r(2)] M [OF k(1) r(3)] M [OF k(1) r(4)] M [OF k(1) r(5)] M [OF k(2)
      r(1)] M [OF k(2) r(2)] M [OF k(2) r(3)] M [OF k(2) r(4)] M [OF k(2) r(5)] M [OF k(3) r(1)] M [OF
      k(3) r(2)] M [OF k(3) r(3)] M [OF k(3) r(4)] M [OF k(3) r(5)] M [OF k(4) r(1)] M [OF k(4) r(2)] M
      [OF k(4) r(3)] M [OF k(4) r(4)] M [OF k(4) r(5)] M [OF k(5) r(1)] M [OF k(5) r(2)] M [OF k(5) r(3)]
      M [OF k(5) r(4)] M [OF k(5) r(5)]
  have p: "prods_under (poly_prod k r)" unfolding K R using m by simp
  have u: "u32 (5 * x) = 5 * x" if "x < B26" for x using that by (simp add: u32_id)
  have "poly_mul k r = poly_prod k r"
    using p unfolding K R poly_mul.simps poly_prod.simps prods_under.simps r [THEN u]
    by (simp add: u64_id algebra_simps)
  then show ?thesis using p by blast
qed

lemma low26: "u32 d AND 0x3ffffff = d mod B26"
  unfolding and26 u32_def by (rule mod_mod_cancel) (simp add: dvd_eq_mod_eq_0)

lemma high26: "d < 2 ^ 58 \<Longrightarrow> u32 (drop_bit 26 d) = d div B26"
  unfolding drop_bit_eq_div by (rule u32_id) (simp add: div_less_iff_less_mult)

lemma divide_pow: obtains q r :: nat where "d div 2 ^ k = q" "d mod 2 ^ k = r" "d = 2 ^ k * q + r" "r < 2 ^ k"
  by (rule that [OF refl refl]) (simp_all only: mult_div_mod_eq mod_less_divisor zero_less_power zero_less_numeral)

lemmas divide26 = divide_pow [where k = 26]

lemma fold_top: "(x + 5 * c + B26 * y) mod P1305 = (x + B26 * (y + B26 ^ 4 * c)) mod P1305"
proof -
  have "B26 * (B26 ^ 4 * c) = P1305 * c + 5 * c" by (simp add: P1305_def algebra_simps)
  then have "x + B26 * (y + B26 ^ 4 * c) = (x + 5 * c + B26 * y) + P1305 * c" by (simp only: distrib_left)
  then show ?thesis by (simp only: mod_mult_self2)
qed

lemma poly_carry_ok:
  assumes "prods_under d"
  shows "limbs_ok (poly_carry d)" and "num (poly_carry d) mod P1305 = num d mod P1305"
proof -
  obtain d0 d1 d2 d3 d4 where D: "d = (d0, d1, d2, d3, d4)" by (cases d)
  have b: "d0 < 2 ^ 58 - 2 ^ 32" "d1 < 2 ^ 58 - 2 ^ 32" "d2 < 2 ^ 58 - 2 ^ 32" "d3 < 2 ^ 58 - 2 ^ 32"
    "d4 < 5 * 2 ^ 53 + 2 ^ 35" using assms D by simp_all
  obtain c0 h0 where 0: "d0 div B26 = c0" "d0 mod B26 = h0" "d0 = B26 * c0 + h0" "h0 < B26" by (rule divide26)
  obtain c1 h1 where 1: "(d1 + c0) div B26 = c1" "(d1 + c0) mod B26 = h1" "d1 + c0 = B26 * c1 + h1" "h1 < B26" by (rule divide26)
  obtain c2 h2 where 2: "(d2 + c1) div B26 = c2" "(d2 + c1) mod B26 = h2" "d2 + c1 = B26 * c2 + h2" "h2 < B26" by (rule divide26)
  obtain c3 h3 where 3: "(d3 + c2) div B26 = c3" "(d3 + c2) mod B26 = h3" "d3 + c2 = B26 * c3 + h3" "h3 < B26" by (rule divide26)
  obtain c4 h4 where 4: "(d4 + c3) div B26 = c4" "(d4 + c3) mod B26 = h4" "d4 + c3 = B26 * c4 + h4" "h4 < B26" by (rule divide26)
  obtain c5 h5 where 5: "(h0 + 5 * c4) div B26 = c5" "(h0 + 5 * c4) mod B26 = h5" "h0 + 5 * c4 = B26 * c5 + h5" "h5 < B26" by (rule divide26)
  have c: "c0 < 2 ^ 32" "c1 < 2 ^ 32" "c2 < 2 ^ 32" "c3 < 2 ^ 32" "c4 \<le> 5 * 2 ^ 27 + 2 ^ 10" "c5 < 64"
    using b 0(3,4) 1(3,4) 2(3,4) 3(3,4) 4(3,4) 5(3,4) by simp_all
  have u: "u64 (d1 + c0) = d1 + c0" "u64 (d2 + c1) = d2 + c1" "u64 (d3 + c2) = d3 + c2" "u64 (d4 + c3) = d4 + c3"
    "u32 (c4 * 5) = 5 * c4" "u32 (h0 + 5 * c4) = h0 + 5 * c4" "u32 (h1 + c5) = h1 + c5"
    using b c 0(4) 1(4) by (simp_all add: u64_id u32_id)
  have w: "d0 < 2 ^ 58" "d1 + c0 < 2 ^ 58" "d2 + c1 < 2 ^ 58" "d3 + c2 < 2 ^ 58" "d4 + c3 < 2 ^ 58" using b c by simp_all
  have e: "poly_carry d = (h5, h1 + c5, h2, h3, h4)"
    unfolding D poly_carry.simps Let_def low26 u w [THEN high26] 0(1,2) 1(1,2) 2(1,2) 3(1,2) 4(1,2)
    unfolding u and26 drop_bit_eq_div 5(1,2) u by (rule refl)
  show "limbs_ok (poly_carry d)" unfolding e using c(6) 5(4) 1(4) 2(4) 3(4) 4(4) by simp
  have "num (poly_carry d) = h0 + 5 * c4 + B26 * (h1 + B26 * (h2 + B26 * (h3 + B26 * h4)))"
    unfolding e num.simps using 5(3) by simp
  moreover have "num d = h0 + B26 * ((h1 + B26 * (h2 + B26 * (h3 + B26 * h4))) + B26 ^ 4 * c4)"
    unfolding D num.simps using 0(3) 1(3) 2(3) 3(3) 4(3) by simp
  ultimately show "num (poly_carry d) mod P1305 = num d mod P1305" by (simp only: fold_top)
qed


section \<open>The final reduction\<close>

lemma poly_carry_full_ok:
  assumes "limbs_ok h"
  shows "limbs_under B26 (poly_carry_full h)" and "num (poly_carry_full h) mod P1305 = num h mod P1305"
proof -
  obtain h0 h1 h2 h3 h4 where H: "h = (h0, h1, h2, h3, h4)" by (cases h)
  have b: "h0 < B26" "h1 < B26 + 64" "h2 < B26" "h3 < B26" "h4 < B26" using assms H by simp_all
  obtain c1 g1 where 1: "h1 div B26 = c1" "h1 mod B26 = g1" "h1 = B26 * c1 + g1" "g1 < B26" by (rule divide26)
  obtain c2 g2 where 2: "(h2 + c1) div B26 = c2" "(h2 + c1) mod B26 = g2" "h2 + c1 = B26 * c2 + g2" "g2 < B26" by (rule divide26)
  obtain c3 g3 where 3: "(h3 + c2) div B26 = c3" "(h3 + c2) mod B26 = g3" "h3 + c2 = B26 * c3 + g3" "g3 < B26" by (rule divide26)
  obtain c4 g4 where 4: "(h4 + c3) div B26 = c4" "(h4 + c3) mod B26 = g4" "h4 + c3 = B26 * c4 + g4" "g4 < B26" by (rule divide26)
  obtain c5 g5 where 5: "(h0 + 5 * c4) div B26 = c5" "(h0 + 5 * c4) mod B26 = g5" "h0 + 5 * c4 = B26 * c5 + g5" "g5 < B26" by (rule divide26)
  have c: "c1 \<le> 1" "c2 \<le> 1" "c3 \<le> 1" "c4 \<le> 1" "c5 \<le> 1"
    using b 1(3,4) 2(3,4) 3(3,4) 4(3,4) 5(3,4) by simp_all
  have top: "g1 + c5 < B26"
  proof (cases "c4 = 0")
    case True
    then show ?thesis using 5(3,4) b(1) 1(4) c(5) by (cases "c5 = 0") simp_all
  next
    case False
    then have "c3 = 1" using 4(3) b(5) c(3) by (cases "c3 = 0") simp_all
    then have "c2 = 1" using 3(3) b(4) c(2) by (cases "c2 = 0") simp_all
    then have "c1 = 1" using 2(3) b(3) c(1) by (cases "c1 = 0") simp_all
    then show ?thesis using 1(3) b(2) c(5) by simp
  qed
  have u: "u32 (h2 + c1) = h2 + c1" "u32 (h3 + c2) = h3 + c2" "u32 (h4 + c3) = h4 + c3"
    "u32 (c4 * 5) = 5 * c4" "u32 (h0 + 5 * c4) = h0 + 5 * c4" "u32 (g1 + c5) = g1 + c5"
    using b c 1(4) by (simp_all add: u32_id)
  have e: "poly_carry_full h = (g5, g1 + c5, g2, g3, g4)"
    unfolding H poly_carry_full.simps Let_def and26 drop_bit_eq_div u 1(1,2) 2(1,2) 3(1,2) 4(1,2)
    unfolding u 5(1,2) 1(2) by (rule refl)
  show "limbs_under B26 (poly_carry_full h)" unfolding e using top 5(4) 2(4) 3(4) 4(4) by simp
  have "num (poly_carry_full h) = h0 + 5 * c4 + B26 * (g1 + B26 * (g2 + B26 * (g3 + B26 * g4)))"
    unfolding e num.simps using 5(3) by simp
  moreover have "num h = h0 + B26 * ((g1 + B26 * (g2 + B26 * (g3 + B26 * g4))) + B26 ^ 4 * c4)"
    unfolding H num.simps using 1(3) 2(3) 3(3) 4(3) by simp
  ultimately show "num (poly_carry_full h) mod P1305 = num h mod P1305" by (simp only: fold_top)
qed

lemma choose_h: "h < W32 \<Longrightarrow> poly_choose 0 h g = h"
  using take_bit_eq_mask [of 32 h] by (simp add: poly_choose_def mask_eq_exp_minus_1 take_bit_nat_eq_self)

lemma choose_g: "g < W32 \<Longrightarrow> poly_choose 0xffffffff h g = g"
  using take_bit_eq_mask [of 32 g] by (simp add: poly_choose_def mask_eq_exp_minus_1 take_bit_nat_eq_self)

lemma poly_reduce_ok:
  assumes "limbs_under B26 h"
  shows "limbs_under B26 (poly_reduce h)" and "num (poly_reduce h) = num h mod P1305"
proof -
  obtain h0 h1 h2 h3 h4 where H: "h = (h0, h1, h2, h3, h4)" by (cases h)
  have b: "h0 < B26" "h1 < B26" "h2 < B26" "h3 < B26" "h4 < B26" using assms H by simp_all
  obtain c0 g0 where 0: "(5 + h0) div B26 = c0" "(5 + h0) mod B26 = g0" "5 + h0 = B26 * c0 + g0" "g0 < B26" by (rule divide26)
  obtain c1 g1 where 1: "(c0 + h1) div B26 = c1" "(c0 + h1) mod B26 = g1" "c0 + h1 = B26 * c1 + g1" "g1 < B26" by (rule divide26)
  obtain c2 g2 where 2: "(c1 + h2) div B26 = c2" "(c1 + h2) mod B26 = g2" "c1 + h2 = B26 * c2 + g2" "g2 < B26" by (rule divide26)
  obtain c3 g3 where 3: "(c2 + h3) div B26 = c3" "(c2 + h3) mod B26 = g3" "c2 + h3 = B26 * c3 + g3" "g3 < B26" by (rule divide26)
  obtain c4 g4 where 4: "(c3 + h4) div B26 = c4" "(c3 + h4) mod B26 = g4" "c3 + h4 = B26 * c4 + g4" "g4 < B26" by (rule divide26)
  have c: "c0 \<le> 1" "c1 \<le> 1" "c2 \<le> 1" "c3 \<le> 1" "c4 \<le> 1"
    using b 0(3,4) 1(3,4) 2(3,4) 3(3,4) 4(3,4) by simp_all
  have u: "u32 (5 + h0) = 5 + h0" "u32 (c0 + h1) = c0 + h1" "u32 (c1 + h2) = c1 + h2" "u32 (c2 + h3) = c2 + h3"
    "u32 (c3 + h4) = c3 + h4"
    using b c by (simp_all add: u32_id)
  define msk where "msk = sub32 0 c4"
  have e: "poly_reduce h = (poly_choose msk h0 g0, poly_choose msk h1 g1, poly_choose msk h2 g2,
      poly_choose msk h3 g3, poly_choose msk h4 g4)"
    unfolding H poly_reduce.simps Let_def and26 drop_bit_eq_div u 0(1,2) 1(1,2) 2(1,2) 3(1,2) 4(1,2) msk_def by (rule refl)
  have V: "num h + 5 = num (g0, g1, g2, g3, g4) + B26 ^ 5 * c4"
    unfolding H num.simps using 0(3) 1(3) 2(3) 3(3) 4(3) by simp
  have top: "num (g0, g1, g2, g3, g4) < B26 ^ 5" using 0(4) 1(4) 2(4) 3(4) 4(4) by simp
  have w: "h0 < W32" "h1 < W32" "h2 < W32" "h3 < W32" "h4 < W32" "g0 < W32" "g1 < W32" "g2 < W32" "g3 < W32" "g4 < W32"
    using b 0(4) 1(4) 2(4) 3(4) 4(4) by simp_all
  have "limbs_under B26 (poly_reduce h) \<and> num (poly_reduce h) = num h mod P1305"
  proof (cases "c4 = 0")
    case True
    then have "poly_reduce h = h" unfolding e msk_def unfolding H using w(1-5) by (simp add: sub32_def choose_h)
    moreover have "num h < P1305" using V True top by (simp add: P1305_def)
    ultimately show ?thesis using assms by simp
  next
    case False
    then have one: "c4 = 1" using c(5) by simp
    then have r: "poly_reduce h = (g0, g1, g2, g3, g4)" unfolding e msk_def using w(6-10) by (simp add: sub32_def choose_g)
    have "num h = num (g0, g1, g2, g3, g4) + P1305" using V one by (simp add: P1305_def)
    moreover have "num (g0, g1, g2, g3, g4) < P1305"
      using \<open>num h = num (g0, g1, g2, g3, g4) + P1305\<close> b unfolding H by (simp add: P1305_def)
    ultimately show ?thesis unfolding r using 0(4) 1(4) 2(4) 3(4) 4(4) by simp
  qed
  then show "limbs_under B26 (poly_reduce h)" "num (poly_reduce h) = num h mod P1305" by simp_all
qed


section \<open>The tag\<close>

fun le_bytes :: "nat \<Rightarrow> nat \<Rightarrow> byte list" where
  "le_bytes 0 x = []"
| "le_bytes (Suc n) x = of_nat x # le_bytes n (x div 256)"

lemma of_nat_byte_add: "(of_nat (x + 256 * y) :: byte) = of_nat x"
proof -
  have "(256 :: byte) = 0" by simp
  then show ?thesis by (simp only: of_nat_add of_nat_mult of_nat_numeral mult_zero_left add_0_right)
qed

lemma le_bytes_high: "le_bytes n (x + 256 ^ n * y) = le_bytes n x"
proof (induction n arbitrary: x)
  case (Suc n)
  have "x + 256 ^ Suc n * y = x + 256 * (256 ^ n * y)" by simp
  moreover have "(x + 256 * (256 ^ n * y)) div 256 = x div 256 + 256 ^ n * y" by simp
  ultimately show ?case using Suc of_nat_byte_add by (simp only: le_bytes.simps)
qed simp

lemma le_bytes_add: "le_bytes (j + k) x = le_bytes j x @ le_bytes k (x div 256 ^ j)"
  by (induction j arbitrary: x) (simp_all add: div_mult2_eq)

lemma le_bytes_numeral: "le_bytes (numeral k) x = of_nat x # le_bytes (pred_numeral k) (x div 256)"
  by (simp only: numeral_eq_Suc le_bytes.simps)

lemma store_bytes: "store32le v = le_bytes 4 v"
  by (simp add: store32le_def drop_bit_eq_div le_bytes_numeral flip: div_mult2_eq)

lemma store_append:
  assumes "v < W32"
  shows "store32le v @ le_bytes k y = le_bytes (4 + k) (v + W32 * y)"
proof -
  have "le_bytes 4 (v + W32 * y) = le_bytes 4 v" using le_bytes_high [of 4 v y] by simp
  moreover have "(v + W32 * y) div 256 ^ 4 = y" using assms by simp
  ultimately show ?thesis by (simp only: le_bytes_add store_bytes)
qed

lemma store4:
  assumes "a < W32" "b < W32" "c < W32" "d < W32"
  shows "store32le a @ store32le b @ store32le c @ store32le d = le_bytes 16 (a + W32 * (b + W32 * (c + W32 * d)))"
  using store_append [OF assms(3), of 4 d] store_append [OF assms(2), of 8 "c + W32 * d"]
    store_append [OF assms(1), of 12 "b + W32 * (c + W32 * d)"] by (simp add: store_bytes)

lemma pack32:
  assumes "limbs_under B26 (h0, h1, h2, h3, h4)"
  obtains f0 f1 f2 f3 q where "h0 OR u32 (push_bit 26 h1) = f0" "drop_bit 6 h1 OR u32 (push_bit 20 h2) = f1"
    "drop_bit 12 h2 OR u32 (push_bit 14 h3) = f2" "drop_bit 18 h3 OR u32 (push_bit 8 h4) = f3"
    "num (h0, h1, h2, h3, h4) = f0 + W32 * (f1 + W32 * (f2 + W32 * (f3 + W32 * q)))"
    "f0 < W32" "f1 < W32" "f2 < W32" "f3 < W32"
proof -
  have b: "h0 < 2 ^ 26" "h1 < 2 ^ 26" "h2 < 2 ^ 26" "h3 < 2 ^ 26" "h4 < 2 ^ 26" using assms by simp_all
  have s: "h div 2 ^ k < 2 ^ j" if "h < 2 ^ 26" "(2 :: nat) ^ 26 = 2 ^ j * 2 ^ k" for h j k :: nat
    by (rule less_mult_imp_div_less) (rule that(1) [unfolded that(2)])
  have f0: "h0 OR u32 (push_bit 26 h1) = h0 + 2 ^ 26 * (h1 mod 2 ^ 6)" using b(1) by (intro join_or) simp_all
  have f1: "drop_bit 6 h1 OR u32 (push_bit 20 h2) = h1 div 2 ^ 6 + 2 ^ 20 * (h2 mod 2 ^ 12)"
    unfolding drop_bit_eq_div by (rule join_or [OF _ s [OF b(2)]]) simp_all
  have f2: "drop_bit 12 h2 OR u32 (push_bit 14 h3) = h2 div 2 ^ 12 + 2 ^ 14 * (h3 mod 2 ^ 18)"
    unfolding drop_bit_eq_div by (rule join_or [OF _ s [OF b(3)]]) simp_all
  have f3: "drop_bit 18 h3 OR u32 (push_bit 8 h4) = h3 div 2 ^ 18 + 2 ^ 8 * (h4 mod 2 ^ 24)"
    unfolding drop_bit_eq_div by (rule join_or [OF _ s [OF b(4)]]) simp_all
  obtain q1 r1 where 1: "h1 div 2 ^ 6 = q1" "h1 mod 2 ^ 6 = r1" "h1 = 2 ^ 6 * q1 + r1" "r1 < 2 ^ 6" by (rule divide_pow)
  obtain q2 r2 where 2: "h2 div 2 ^ 12 = q2" "h2 mod 2 ^ 12 = r2" "h2 = 2 ^ 12 * q2 + r2" "r2 < 2 ^ 12" by (rule divide_pow)
  obtain q3 r3 where 3: "h3 div 2 ^ 18 = q3" "h3 mod 2 ^ 18 = r3" "h3 = 2 ^ 18 * q3 + r3" "r3 < 2 ^ 18" by (rule divide_pow)
  obtain q4 r4 where 4: "h4 div 2 ^ 24 = q4" "h4 mod 2 ^ 24 = r4" "h4 = 2 ^ 24 * q4 + r4" "r4 < 2 ^ 24" by (rule divide_pow)
  have n: "num (h0, h1, h2, h3, h4) = (h0 + 2 ^ 26 * r1) + W32 * ((q1 + 2 ^ 20 * r2) +
      W32 * ((q2 + 2 ^ 14 * r3) + W32 * ((q3 + 2 ^ 8 * r4) + W32 * q4)))"
    unfolding num.simps using 1(3) 2(3) 3(3) 4(3) by simp
  have w: "h0 + 2 ^ 26 * r1 < W32" "q1 + 2 ^ 20 * r2 < W32" "q2 + 2 ^ 14 * r3 < W32" "q3 + 2 ^ 8 * r4 < W32"
    using b 1(3,4) 2(3,4) 3(3,4) 4(3,4) by simp_all
  show ?thesis
    by (rule that [OF f0 [unfolded 1(2)] f1 [unfolded 1(1) 2(2)] f2 [unfolded 2(1) 3(2)] f3 [unfolded 3(1) 4(2)] n w])
qed

lemma poly_tag_ok:
  assumes "limbs_under B26 h" and "pad = (p0, p1, p2, p3)" and "p0 < W32" "p1 < W32" "p2 < W32" "p3 < W32"
  shows "poly_tag h pad = le_bytes 16 (num h + (p0 + W32 * (p1 + W32 * (p2 + W32 * p3))))"
proof -
  obtain h0 h1 h2 h3 h4 where H: "h = (h0, h1, h2, h3, h4)" by (cases h)
  obtain f0 f1 f2 f3 q where f: "h0 OR u32 (push_bit 26 h1) = f0" "drop_bit 6 h1 OR u32 (push_bit 20 h2) = f1"
    "drop_bit 12 h2 OR u32 (push_bit 14 h3) = f2" "drop_bit 18 h3 OR u32 (push_bit 8 h4) = f3"
    "num (h0, h1, h2, h3, h4) = f0 + W32 * (f1 + W32 * (f2 + W32 * (f3 + W32 * q)))"
    "f0 < W32" "f1 < W32" "f2 < W32" "f3 < W32"
    by (rule pack32 [OF assms(1) [unfolded H]])
  obtain c0 t0 where 0: "(f0 + p0) div 2 ^ 32 = c0" "(f0 + p0) mod 2 ^ 32 = t0" "f0 + p0 = 2 ^ 32 * c0 + t0" "t0 < 2 ^ 32"
    by (rule divide_pow)
  obtain c1 t1 where 1: "(f1 + p1 + c0) div 2 ^ 32 = c1" "(f1 + p1 + c0) mod 2 ^ 32 = t1" "f1 + p1 + c0 = 2 ^ 32 * c1 + t1" "t1 < 2 ^ 32"
    by (rule divide_pow)
  obtain c2 t2 where 2: "(f2 + p2 + c1) div 2 ^ 32 = c2" "(f2 + p2 + c1) mod 2 ^ 32 = t2" "f2 + p2 + c1 = 2 ^ 32 * c2 + t2" "t2 < 2 ^ 32"
    by (rule divide_pow)
  obtain c3 t3 where 3: "(f3 + p3 + c2) div 2 ^ 32 = c3" "(f3 + p3 + c2) mod 2 ^ 32 = t3" "f3 + p3 + c2 = 2 ^ 32 * c3 + t3" "t3 < 2 ^ 32"
    by (rule divide_pow)
  have c: "c0 \<le> 1" "c1 \<le> 1" "c2 \<le> 1" using 0(3,4) 1(3,4) 2(3,4) f(6-9) assms(3-6) by simp_all
  have u: "u64 (f0 + p0) = f0 + p0" "u64 (f1 + p1 + c0) = f1 + p1 + c0" "u64 (f2 + p2 + c1) = f2 + p2 + c1"
    "u64 (f3 + p3 + c2) = f3 + p3 + c2" using c f(6-9) assms(3-6) by (simp_all add: u64_id)
  have m: "u32 x = x mod 2 ^ 32" for x by (simp add: u32_def)
  have w: "t0 < W32" "t1 < W32" "t2 < W32" "t3 < W32" using 0(4) 1(4) 2(4) 3(4) by simp_all
  have "poly_tag h pad = store32le t0 @ store32le t1 @ store32le t2 @ store32le t3"
    unfolding H assms(2) poly_tag.simps Let_def f(1-4) unfolding u drop_bit_eq_div 0(1) 1(1) 2(1) unfolding m 0(2) 1(2) 2(2) 3(2) ..
  also have "\<dots> = le_bytes 16 (t0 + W32 * (t1 + W32 * (t2 + W32 * t3)))" by (rule store4 [OF w])
  also have "\<dots> = le_bytes 16 ((t0 + W32 * (t1 + W32 * (t2 + W32 * t3))) + 256 ^ 16 * (c3 + q))"
    by (rule le_bytes_high [symmetric])
  also have "(t0 + W32 * (t1 + W32 * (t2 + W32 * t3))) + 256 ^ 16 * (c3 + q) =
      num h + (p0 + W32 * (p1 + W32 * (p2 + W32 * p3)))"
    unfolding H f(5) using 0(3) 1(3) 2(3) 3(3) by simp
  finally show ?thesis .
qed


section \<open>The authenticator of RFC 8439\<close>

text \<open>
  The reference: each block of up to sixteen bytes with a one byte after it is a little-endian number,
  added to the accumulator, which is then multiplied by the clamped key modulo \<open>2 ^ 130 - 5\<close>.
\<close>

definition poly_clamp :: "nat \<Rightarrow> nat" where
  "poly_clamp x = x AND 0x0ffffffc0ffffffc0ffffffc0fffffff"

function poly_acc :: "nat \<Rightarrow> nat \<Rightarrow> byte list \<Rightarrow> nat" where
  "poly_acc r a m =
     (if m = [] then a else poly_acc r ((a + le_num (take 16 m @ [1])) * r mod P1305) (drop 16 m))"
  by pat_completeness auto
termination by (relation "measure (\<lambda>(r, a, m). length m)") auto

declare poly_acc.simps [simp del]

definition poly1305_spec :: "byte list \<Rightarrow> byte list \<Rightarrow> byte list" where
  "poly1305_spec key m = le_bytes 16 (poly_acc (poly_clamp (le_num (take 16 key))) 0 m + le_num (take 16 (drop 16 key)))"

lemma limb_bits: "limb i x = take_bit 26 (drop_bit (26 * i) x)"
  by (simp only: limb_def take_bit_eq_mod drop_bit_eq_div power_mult)

lemma limb_and: "limb i (x AND y) = limb i x AND limb i y"
  by (simp add: limb_bits)

lemma and_le: "x AND y \<le> (x :: nat)"
  using AND_upper1 [of "int x" "int y"] by (simp flip: of_nat_and_eq)

lemma and_low: "k AND 0x3ffffff = (k :: nat) \<Longrightarrow> t AND k = (t mod B26) AND k"
  unfolding and26 [symmetric] by (metis and.assoc and.commute)

lemma init_ok:
  assumes "length key = 32"
  shows "limbs_under B26 (p_r (poly1305_init key))"
    and "num (p_r (poly1305_init key)) = poly_clamp (le_num (take 16 key))"
proof -
  define x where "x = le_num (take 16 key)"
  have x: "x < 2 ^ 128" using le_num_less [of "take 16 key"] assms by (simp add: x_def)
  have l: "length key \<ge> 16" using assms by simp
  obtain t0 t1 t2 t3 t4 where t: "split26 key = (t0, t1, t2, t3, t4)" "t0 mod B26 = limb 0 x" "t1 mod B26 = limb 1 x"
    "t2 mod B26 = limb 2 x" "t3 mod B26 = limb 3 x" "t4 = limb 4 x"
    unfolding x_def using l by (rule split26_limbs)
  have a: "t0 AND 0x3ffffff = limb 0 x AND 0x3ffffff" "t1 AND 0x3ffff03 = limb 1 x AND 0x3ffff03"
    "t2 AND 0x3ffc0ff = limb 2 x AND 0x3ffc0ff" "t3 AND 0x3f03fff = limb 3 x AND 0x3f03fff"
    unfolding t(2-5) [symmetric] by (rule and_low, simp)+
  have M: "limb 0 0x0ffffffc0ffffffc0ffffffc0fffffff = 0x3ffffff" "limb 1 0x0ffffffc0ffffffc0ffffffc0fffffff = 0x3ffff03"
    "limb 2 0x0ffffffc0ffffffc0ffffffc0fffffff = 0x3ffc0ff" "limb 3 0x0ffffffc0ffffffc0ffffffc0fffffff = 0x3f03fff"
    "limb 4 0x0ffffffc0ffffffc0ffffffc0fffffff = 0x00fffff"
    by (simp_all add: limb_def)
  have r: "p_r (poly1305_init key) = (limb 0 (poly_clamp x), limb 1 (poly_clamp x), limb 2 (poly_clamp x),
      limb 3 (poly_clamp x), limb 4 (poly_clamp x))"
    unfolding poly_clamp_def limb_and M by (simp only: poly1305_init_def t(1) Let_def case_prod_conv a t(6) poly1305_state.simps)
  show "limbs_under B26 (p_r (poly1305_init key))" unfolding r by (simp only: limbs_under.simps limb_less simp_thms)
  have "poly_clamp x \<le> x" unfolding poly_clamp_def by (rule and_le)
  then show "num (p_r (poly1305_init key)) = poly_clamp (le_num (take 16 key))"
    unfolding r x_def [symmetric] using x by (intro num_limbs) simp
qed

lemma block_ok:
  assumes "limbs_under B26 (p_r st)" and "limbs_ok (p_h st)" and "length m \<ge> 16" and "hibit = 0 \<or> hibit = push_bit 24 1"
  shows "limbs_ok (p_h (poly1305_block st m hibit))"
    and "num (p_h (poly1305_block st m hibit)) mod P1305 =
      (num (p_h st) + (le_num (take 16 m) + hibit * B26 ^ 4)) * num (p_r st) mod P1305"
proof -
  define k where "k = poly_add (p_h st) (split26 m) hibit"
  have k: "limbs_under sum_bound k" "num k = num (p_h st) + (le_num (take 16 m) + hibit * B26 ^ 4)"
    unfolding k_def using assms(2-4) by (rule poly_add_ok)+
  have p: "poly_mul k (p_r st) = poly_prod k (p_r st)" "prods_under (poly_prod k (p_r st))"
    using poly_mul_exact [OF k(1) assms(1)] by simp_all
  have e: "p_h (poly1305_block st m hibit) = poly_carry (poly_prod k (p_r st))"
    by (simp add: poly1305_block_def k_def [symmetric] p(1))
  show "limbs_ok (p_h (poly1305_block st m hibit))" unfolding e by (rule poly_carry_ok [OF p(2)])
  show "num (p_h (poly1305_block st m hibit)) mod P1305 =
      (num (p_h st) + (le_num (take 16 m) + hibit * B26 ^ 4)) * num (p_r st) mod P1305"
    unfolding e poly_carry_ok(2) [OF p(2)] num_prod k(2) ..
qed

lemma acc_Nil [simp]: "poly_acc r a [] = a"
  by (simp add: poly_acc.simps)

lemma acc_mod: "poly_acc r a m mod P1305 = poly_acc r (a mod P1305) m mod P1305"
proof (cases "m = []")
  case False
  have "(a + x) * r mod P1305 = (a mod P1305 + x) * r mod P1305" for x
    by (metis mod_add_left_eq mod_mult_left_eq)
  then show ?thesis using False by (simp add: poly_acc.simps [of _ _ m])
qed (simp add: poly_acc.simps)

lemma acc_append: "16 dvd length m \<Longrightarrow> poly_acc r a (m @ n) = poly_acc r (poly_acc r a m) n"
proof (induction r a m rule: poly_acc.induct)
  case (1 r a m)
  show ?case
  proof (cases "m = []")
    case False
    then have "length m \<ge> 16" using 1(2) by (simp add: dvd_imp_le)
    then show ?thesis using 1 False by (simp add: poly_acc.simps [of r a "m @ n"] poly_acc.simps [of r a m])
  qed (simp add: poly_acc.simps [of r a "[]"])
qed

lemma num_one: "length m \<ge> 16 \<Longrightarrow> le_num (take 16 m @ [1]) = le_num (take 16 m) + push_bit 24 1 * B26 ^ 4"
  by (simp add: le_num_append push_bit_eq_mult)

definition holds :: "poly1305_state \<Rightarrow> poly1305_state \<Rightarrow> nat \<Rightarrow> bool" where
  "holds st st' a \<longleftrightarrow> limbs_ok (p_h st') \<and> num (p_h st') mod P1305 = a mod P1305 \<and> p_r st' = p_r st \<and> p_pad st' = p_pad st"

lemma blocks_ok:
  assumes "limbs_under B26 (p_r st)" and "limbs_ok (p_h st)" and "16 dvd length m"
  shows "holds st (poly1305_blocks st m (push_bit 24 1)) (poly_acc (num (p_r st)) (num (p_h st)) m)"
  using assms
proof (induction m arbitrary: st rule: length_induct)
  case (1 m)
  show ?case
  proof (cases "m = []")
    case True
    then show ?thesis using 1(3) by (simp add: holds_def poly1305_blocks.simps poly_acc.simps)
  next
    case False
    then have l: "length m \<ge> 16" using 1(4) by (simp add: dvd_imp_le)
    define s where "s = poly1305_block st m (push_bit 24 1)"
    have s: "limbs_ok (p_h s)" "num (p_h s) mod P1305 = (num (p_h st) + le_num (take 16 m @ [1])) * num (p_r st) mod P1305"
      unfolding s_def num_one [OF l] using block_ok [OF 1(2,3) l] by blast+
    have f: "p_r s = p_r st" "p_pad s = p_pad st" by (simp_all add: s_def poly1305_block_def)
    have "length (drop 16 m) < length m" "16 dvd length (drop 16 m)" using False l 1(4) by simp_all
    then have "holds s (poly1305_blocks s (drop 16 m) (push_bit 24 1)) (poly_acc (num (p_r s)) (num (p_h s)) (drop 16 m))"
      using 1(1,2) s(1) f(1) by metis
    moreover have "poly1305_blocks st m (push_bit 24 1) = poly1305_blocks s (drop 16 m) (push_bit 24 1)"
      using l by (simp only: poly1305_blocks.simps [of st m] s_def if_True)
    moreover have "poly_acc (num (p_r st)) (num (p_h s)) (drop 16 m) mod P1305 = poly_acc (num (p_r st)) (num (p_h st)) m mod P1305"
      unfolding acc_mod [of _ "num (p_h s)"] s(2) using False by (simp only: poly_acc.simps [of _ _ m] if_False)
    ultimately show ?thesis unfolding holds_def f by simp
  qed
qed

lemma acc_less: "a < P1305 \<Longrightarrow> poly_acc r a m < P1305"
proof (induction r a m rule: poly_acc.induct)
  case (1 r a m)
  have "x mod P1305 < P1305" for x by (simp add: P1305_def)
  then show ?case using 1 by (cases "m = []") (simp_all add: poly_acc.simps [of r a m])
qed

lemma init_fields: "p_h (poly1305_init key) = (0, 0, 0, 0, 0)"
  "p_pad (poly1305_init key) = (load32le (drop 16 key), load32le (drop 20 key), load32le (drop 24 key), load32le (drop 28 key))"
  by (simp_all add: poly1305_init_def split_beta Let_def)

text \<open>The tag of a state that holds the accumulator of a message.\<close>

lemma finish_ok:
  assumes "length key = 32" and "holds (poly1305_init key) st (poly_acc (poly_clamp (le_num (take 16 key))) 0 m)"
  shows "poly1305_finish st = poly1305_spec key m"
proof -
  define a where "a = poly_acc (poly_clamp (le_num (take 16 key))) 0 m"
  have "a < P1305" unfolding a_def by (rule acc_less) (simp add: P1305_def)
  then have h: "limbs_ok (p_h st)" "num (p_h st) mod P1305 = a" and p: "p_pad st = p_pad (poly1305_init key)"
    using assms(2) by (simp_all add: holds_def a_def [symmetric])
  note f = poly_carry_full_ok [OF h(1)]
  note r = poly_reduce_ok [OF f(1)]
  have b: "load32le (drop 16 key) < W32" "load32le (drop 20 key) < W32" "load32le (drop 24 key) < W32" "load32le (drop 28 key) < W32"
    using assms(1) by (simp_all add: load_less)
  have s: "le_num (take 16 (drop 16 key)) = load32le (drop 16 key) + W32 * (load32le (drop 20 key) + W32 * (load32le (drop 24 key) + W32 * load32le (drop 28 key)))"
    using num16 [of "drop 16 key"] assms(1) by simp
  show ?thesis
    unfolding poly1305_finish_def poly1305_spec_def s
      poly_tag_ok [OF r(1) p [unfolded init_fields] b] r(2) f(2) h(2) a_def ..
qed

lemma whole16_mult: "n < W64 \<Longrightarrow> whole16 n = 16 * (n div 16)"
proof -
  assume n: "n < W64"
  have "whole16 n = n AND push_bit 4 (mask 60)" by (simp add: whole16_def mask_eq_exp_minus_1 push_bit_eq_mult)
  also have "\<dots> = push_bit 4 (take_bit 60 (drop_bit 4 n))"
    by (rule bit_eqI) (auto simp: bit_simps)
  also have "\<dots> = 16 * (n div 16)"
    using n by (simp add: push_bit_eq_mult take_bit_nat_eq_self drop_bit_eq_div)
  finally show ?thesis .
qed

lemma whole16_part:
  assumes "length m < W64"
  shows "whole16 (length m) \<le> length m" "length m - whole16 (length m) < 16" "16 dvd length (take (whole16 (length m)) m)"
    "length m mod 16 = length m - whole16 (length m)"
proof -
  have w: "whole16 (length m) = 16 * (length m div 16)" using assms by (rule whole16_mult)
  then have "length m = whole16 (length m) + length m mod 16" using mult_div_mod_eq [of 16 "length m"] by simp
  moreover have "length m mod 16 < 16" by simp
  ultimately show "whole16 (length m) \<le> length m" "length m - whole16 (length m) < 16"
    "length m mod 16 = length m - whole16 (length m)" by linarith+
  then show "16 dvd length (take (whole16 (length m)) m)" using w by simp
qed

lemma le_num_zeros: "le_num (xs @ replicate n 0) = le_num xs"
proof -
  have "le_num (replicate n 0) = 0" by (induction n) simp_all
  then show ?thesis by (simp add: le_num_append)
qed

lemma start_holds:
  assumes "length key = 32" and "16 dvd length m"
  shows "holds (poly1305_init key) (poly1305_blocks (poly1305_init key) m (push_bit 24 1))
    (poly_acc (poly_clamp (le_num (take 16 key))) 0 m)"
  using blocks_ok [OF init_ok(1) [OF assms(1)] _ assms(2)] init_ok(2) [OF assms(1)] by (simp add: init_fields)

text \<open>The short last block, with its one byte already in the buffer.\<close>

lemma last_block:
  assumes "length key = 32" and "holds (poly1305_init key) st a" and "0 < length m" and "length m < 16"
  shows "holds (poly1305_init key)
    (poly1305_blocks st (put_at (put_at (replicate 16 0) 0 m) (length m) [1]) 0)
    (poly_acc (poly_clamp (le_num (take 16 key))) a m)"
proof -
  define r where "r = poly_clamp (le_num (take 16 key))"
  define q :: "byte list" where "q = put_at (put_at (replicate 16 0) 0 m) (length m) [1]"
  have q: "q = (m @ [1]) @ replicate (15 - length m) 0" using assms(4) by (simp add: q_def put_at_def)
  then have l: "length q = 16" using assms(4) by simp
  have s: "p_r st = p_r (poly1305_init key)" "limbs_ok (p_h st)" "num (p_h st) mod P1305 = a mod P1305"
    "p_pad st = p_pad (poly1305_init key)" using assms(2) by (simp_all add: holds_def)
  have R: "limbs_under B26 (p_r st)" "num (p_r st) = r" unfolding s(1) r_def using init_ok [OF assms(1)] by simp_all
  have "poly1305_blocks st q 0 = poly1305_block st q 0"
    using l by (simp add: poly1305_blocks.simps [of st q] poly1305_blocks.simps [of _ "[]"])
  moreover have "limbs_ok (p_h (poly1305_block st q 0))"
    "num (p_h (poly1305_block st q 0)) mod P1305 = (num (p_h st) + le_num q) * r mod P1305"
    using block_ok [OF R(1) s(2), of q 0] l R(2) by simp_all
  moreover have "le_num q = le_num (m @ [1])" unfolding q by (rule le_num_zeros)
  moreover have "(num (p_h st) + x) * r mod P1305 = (a + x) * r mod P1305" for x
    using s(3) by (metis mod_add_left_eq mod_mult_left_eq)
  moreover have "poly_acc r a m mod P1305 = (a + le_num (m @ [1])) * r mod P1305"
    using assms(3,4) by (simp add: poly_acc.simps [of r a m] poly_acc.simps [of _ _ "[]"])
  ultimately show ?thesis unfolding holds_def r_def [symmetric] q_def [symmetric]
    using s(1,4) by (simp add: poly1305_block_def)
qed

text \<open>
  C8. Poly1305 is the authenticator of RFC 8439. For a 32-byte key and a message of any length, the
  limb arithmetic on 32-bit and 64-bit integers gives the tag that the arithmetic modulo
  \<open>2 ^ 130 - 5\<close> defines: the key is clamped as the RFC says, no product or carry wraps, and the
  branch-free final subtraction reduces fully.
\<close>

theorem poly1305_correct:
  assumes "length key = 32" and "length m < W64"
  shows "poly1305 key m = poly1305_spec key m"
proof -
  define w where "w = whole16 (length m)"
  note wl = whole16_part [OF assms(2), folded w_def]
  define r where "r = poly_clamp (le_num (take 16 key))"
  define st where "st = poly1305_blocks (poly1305_init key) (take w m) (push_bit 24 1)"
  have st: "holds (poly1305_init key) st (poly_acc r 0 (take w m))"
    unfolding st_def r_def by (rule start_holds [OF assms(1) wl(3)])
  show ?thesis
  proof (cases "length m > w")
    case True
    have "holds (poly1305_init key) (poly1305_blocks st (put_at (put_at (replicate 16 0) 0 (drop w m)) (length (drop w m)) [1]) 0)
        (poly_acc r (poly_acc r 0 (take w m)) (drop w m))"
      unfolding r_def by (rule last_block [OF assms(1) st [unfolded r_def]]) (use True wl(2) in simp_all)
    then have "poly1305_finish (poly1305_blocks st (put_at (put_at (replicate 16 0) 0 (drop w m)) (length m - w) [1]) 0) = poly1305_spec key m"
      using finish_ok [OF assms(1)] acc_append [OF wl(3), of r 0 "drop w m"] by (simp add: r_def)
    then show ?thesis using True by (simp add: poly1305_def Let_def w_def st_def)
  next
    case False
    then have "take w m = m" by simp
    then show ?thesis using False finish_ok [OF assms(1)] st by (simp add: poly1305_def Let_def w_def st_def r_def)
  qed
qed

theorem poly1305_correct_witness:
  "poly1305 (replicate 32 7) (map of_nat [0..<21]) = poly1305_spec (replicate 32 7) (map of_nat [0..<21])"
  by (rule poly1305_correct) simp_all

end
