(* ===== verification/Chacha20.thy ===== *)
theory Chacha20
  imports Poly1305
begin

text \<open>
  ChaCha20 and the authenticated encryption built from it and Poly1305
  (\<open>kernel/security/chacha20.c\<close>): a filesystem block is encrypted in place, with a tag over the
  ciphertext and the position it belongs to. Opening undoes sealing, and opens exactly what carries
  the tag RFC 8439 defines, leaving everything else untouched.
\<close>

section \<open>The cipher\<close>

definition rotl32 :: "32 word \<Rightarrow> nat \<Rightarrow> 32 word" where
  "rotl32 v n = push_bit n v OR drop_bit (32 - n) v"

definition QR :: "nat \<Rightarrow> nat \<Rightarrow> nat \<Rightarrow> nat \<Rightarrow> 32 word list \<Rightarrow> 32 word list" where
  "QR a b c d x =
     (let x = x[a := x ! a + x ! b]; x = x[d := x ! d XOR x ! a]; x = x[d := rotl32 (x ! d) 16];
          x = x[c := x ! c + x ! d]; x = x[b := x ! b XOR x ! c]; x = x[b := rotl32 (x ! b) 12];
          x = x[a := x ! a + x ! b]; x = x[d := x ! d XOR x ! a]; x = x[d := rotl32 (x ! d) 8];
          x = x[c := x ! c + x ! d]; x = x[b := x ! b XOR x ! c]
      in x[b := rotl32 (x ! b) 7])"

definition chacha_sigma :: "32 word list" where
  "chacha_sigma = [0x61707865, 0x3320646e, 0x79622d32, 0x6b206574]"

definition chacha_double :: "32 word list \<Rightarrow> 32 word list" where
  "chacha_double x =
     (let x = QR 0 4 8 12 x; x = QR 1 5 9 13 x; x = QR 2 6 10 14 x; x = QR 3 7 11 15 x;
          x = QR 0 5 10 15 x; x = QR 1 6 11 12 x; x = QR 2 7 8 13 x
      in QR 3 4 9 14 x)"

definition chacha20_block :: "byte list \<Rightarrow> 32 word \<Rightarrow> byte list \<Rightarrow> byte list" where
  "chacha20_block key counter nonce =
     (let s = chacha_sigma @ map (\<lambda>i. of_nat (load32le (drop (4 * i) key))) [0..<8] @ [counter] @
              map (\<lambda>i. of_nat (load32le (drop (4 * i) nonce))) [0..<3];
          x = (chacha_double ^^ 10) s
      in concat (map (\<lambda>i. store32le (unat (x ! i + s ! i))) [0..<16]))"

text \<open>The loop over blocks; each byte is read before the byte at its place is written.\<close>

function chacha20_xor :: "byte list \<Rightarrow> 32 word \<Rightarrow> byte list \<Rightarrow> byte list \<Rightarrow> byte list" where
  "chacha20_xor key counter nonce inp =
     (if inp = [] then []
      else let block = chacha20_block key counter nonce;
               n = min (length inp) 64
           in map (\<lambda>i. inp ! i XOR block ! i) [0..<n] @ chacha20_xor key (counter + 1) nonce (drop n inp))"
  by pat_completeness auto
termination by (relation "measure (\<lambda>(k, c, n, i). length i)") auto

declare chacha20_xor.simps [simp del]

section \<open>Sealing and opening\<close>

definition one_time_key :: "byte list \<Rightarrow> byte list \<Rightarrow> byte list" where
  "one_time_key key nonce = take 32 (chacha20_block key 0 nonce)"

definition tag_of :: "byte list \<Rightarrow> byte list \<Rightarrow> byte list \<Rightarrow> byte list \<Rightarrow> byte list" where
  "tag_of key nonce aad data = poly1305_aead (one_time_key key nonce) aad data"

text \<open>Sealing returns the data encrypted in place and the tag.\<close>

definition chacha20_seal :: "byte list \<Rightarrow> byte list \<Rightarrow> byte list \<Rightarrow> byte list \<Rightarrow> byte list \<times> byte list" where
  "chacha20_seal key nonce aad data =
     (let data = chacha20_xor key 1 nonce data in (data, tag_of key nonce aad data))"

text \<open>Opening returns its result and the data as it leaves it.\<close>

definition chacha20_open :: "byte list \<Rightarrow> byte list \<Rightarrow> byte list \<Rightarrow> byte list \<Rightarrow> byte list \<Rightarrow> bool \<times> byte list" where
  "chacha20_open key nonce aad data tag =
     (let want = tag_of key nonce aad data
      in if \<not> poly1305_verify want tag then (False, data) else (True, chacha20_xor key 1 nonce data))"

section \<open>The keystream\<close>

lemma length_block [simp]: "length (chacha20_block key counter nonce) = 64"
  by (simp add: chacha20_block_def Let_def length_concat comp_def store32le_def sum_list_triv)

lemma xor_Nil [simp]: "chacha20_xor key counter nonce [] = []"
  by (simp add: chacha20_xor.simps)

lemma length_xor [simp]: "length (chacha20_xor key counter nonce d) = length d"
proof (induction key counter nonce d rule: chacha20_xor.induct)
  case (1 key counter nonce d)
  then show ?case by (cases "d = []") (simp_all add: chacha20_xor.simps [of _ _ _ d] Let_def)
qed

lemma xor_step:
  assumes "d \<noteq> []"
  shows "chacha20_xor key counter nonce d =
    map (\<lambda>i. d ! i XOR chacha20_block key counter nonce ! i) [0..<min (length d) 64] @
    chacha20_xor key (counter + 1) nonce (drop 64 d)"
proof (cases "length d \<le> 64")
  case True
  then show ?thesis using assms by (simp add: chacha20_xor.simps [of _ _ _ d] Let_def)
next
  case False
  then show ?thesis using assms by (simp add: chacha20_xor.simps [of _ _ _ d] Let_def)
qed

lemma xor_twice: "chacha20_xor key counter nonce (chacha20_xor key counter nonce d) = d"
proof (induction d arbitrary: counter rule: length_induct)
  case (1 d)
  show ?case
  proof (cases "d = []")
    case False
    define e where "e = chacha20_xor key counter nonce d"
    define ks where "ks = chacha20_block key counter nonce"
    define n where "n = min (length d) 64"
    define a where "a = map (\<lambda>i. d ! i XOR ks ! i) [0..<n]"
    have a: "length a = n" by (simp add: a_def)
    have E: "e = a @ chacha20_xor key (counter + 1) nonce (drop 64 d)"
      using xor_step [OF False] by (simp add: e_def a_def ks_def n_def)
    have l: "length e = length d" by (simp add: e_def)
    then have ne: "e \<noteq> []" using False by auto
    have dr: "drop 64 e = chacha20_xor key (counter + 1) nonce (drop 64 d)"
      using E a by (cases "length d \<le> 64") (simp_all add: n_def chacha20_xor.simps [of _ _ _ "[]"])
    have IH: "chacha20_xor key (counter + 1) nonce (drop 64 e) = drop 64 d"
      unfolding dr using 1 False by simp
    have "map (\<lambda>i. e ! i XOR ks ! i) [0..<n] = take 64 d"
    proof (rule nth_equalityI)
      fix i
      assume "i < length (map (\<lambda>i. e ! i XOR ks ! i) [0..<n])"
      then have i: "i < n" by simp
      then have "e ! i = d ! i XOR ks ! i" using E a by (simp add: nth_append a_def)
      then show "map (\<lambda>i. e ! i XOR ks ! i) [0..<n] ! i = take 64 d ! i"
        using i by (simp add: n_def xor.assoc)
    qed (simp add: n_def)
    then show ?thesis using xor_step [OF ne, of key counter nonce] IH l by (simp add: e_def [symmetric] ks_def [symmetric] n_def [symmetric])
  qed (simp add: chacha20_xor.simps)
qed

section \<open>The tag of the construction\<close>

lemma xor_zero: "x XOR y = 0 \<longleftrightarrow> x = (y :: byte)"
  by (metis xor.left_neutral xor.assoc xor_self_eq)

lemma verify_eq: "poly1305_verify a b \<longleftrightarrow> (\<forall>i<16. a ! i = b ! i)"
proof -
  have "foldl (\<lambda>diff i. diff OR (a ! i XOR b ! i)) z is = 0 \<longleftrightarrow> z = 0 \<and> (\<forall>i\<in>set is. a ! i = b ! i)" for z :: byte and "is"
    by (induction "is" arbitrary: z) (auto simp: or_eq_0_iff xor_zero)
  then show ?thesis by (auto simp: poly1305_verify_def)
qed

lemma verify_iff: "length a = 16 \<Longrightarrow> length b = 16 \<Longrightarrow> poly1305_verify a b \<longleftrightarrow> a = b"
  unfolding verify_eq by (auto intro: nth_equalityI)

text \<open>What the tag covers: the two parts padded to sixteen bytes, and their lengths.\<close>

definition pad16 :: "byte list \<Rightarrow> byte list" where
  "pad16 m = m @ replicate ((16 - length m mod 16) mod 16) 0"

definition aead_message :: "byte list \<Rightarrow> byte list \<Rightarrow> byte list" where
  "aead_message aad data = pad16 aad @ pad16 data @ le_bytes 8 (length aad) @ le_bytes 8 (length data)"

lemma pad16_dvd: "16 dvd length (pad16 m)"
proof -
  have "(n + (16 - n mod 16) mod 16) mod 16 = 0" for n :: nat
  proof (cases "n mod 16 = 0")
    case False
    have "(n + (16 - n mod 16)) mod 16 = (n mod 16 + (16 - n mod 16)) mod 16" by (rule mod_add_left_eq [symmetric])
    also have "n mod 16 + (16 - n mod 16) = 16" by (simp add: less_imp_le)
    finally show ?thesis using False by simp
  qed simp
  then show ?thesis by (simp only: pad16_def dvd_eq_mod_eq_0 length_append length_replicate)
qed

lemma more_blocks:
  assumes "length key = 32" and "holds (poly1305_init key) st a" and "16 dvd length m"
  shows "holds (poly1305_init key) (poly1305_blocks st m (push_bit 24 1))
    (poly_acc (poly_clamp (le_num (take 16 key))) a m)"
proof -
  have s: "p_r st = p_r (poly1305_init key)" "limbs_ok (p_h st)" "num (p_h st) mod P1305 = a mod P1305"
    "p_pad st = p_pad (poly1305_init key)" using assms(2) by (simp_all add: holds_def)
  have R: "limbs_under B26 (p_r st)" "num (p_r st) = poly_clamp (le_num (take 16 key))"
    unfolding s(1) using init_ok [OF assms(1)] by simp_all
  show ?thesis using blocks_ok [OF R(1) s(2) assms(3)] acc_mod [of _ "num (p_h st)"] acc_mod [of _ a]
    unfolding holds_def s by (simp add: init_ok(2) [OF assms(1)])
qed

lemma padded_ok:
  assumes "length key = 32" and "holds (poly1305_init key) st a" and "length m < W64"
  shows "holds (poly1305_init key) (poly1305_padded st m)
    (poly_acc (poly_clamp (le_num (take 16 key))) a (pad16 m))"
proof -
  define w where "w = whole16 (length m)"
  define r where "r = poly_clamp (le_num (take 16 key))"
  define u where "u = poly1305_blocks st (take w m) (push_bit 24 1)"
  note wl = whole16_part [OF assms(3), folded w_def]
  have u: "holds (poly1305_init key) u (poly_acc r a (take w m))"
    unfolding u_def r_def by (rule more_blocks [OF assms(1,2) wl(3)])
  have z: "length m mod 16 = length m - w" by (rule wl(4))
  show ?thesis
  proof (cases "length m > w")
    case True
    define q :: "byte list" where "q = drop w m @ replicate (16 - length (drop w m)) 0"
    have q: "put_at (replicate 16 0) 0 (drop w m) = q" "length q = 16" using wl(2) by (simp_all add: q_def put_at_def)
    have "holds (poly1305_init key) (poly1305_blocks u q (push_bit 24 1)) (poly_acc r (poly_acc r a (take w m)) q)"
      unfolding r_def by (rule more_blocks [OF assms(1) u [unfolded r_def]]) (simp add: q(2))
    moreover have "take w m @ q = pad16 m" using True wl(2) z by (simp add: q_def pad16_def)
    ultimately show ?thesis using True acc_append [OF wl(3), of r a q]
      by (simp add: poly1305_padded_def Let_def w_def [symmetric] u_def q(1) r_def)
  next
    case False
    then have "pad16 m = take w m" using z by (simp add: pad16_def)
    then show ?thesis using False u by (simp add: poly1305_padded_def Let_def w_def [symmetric] u_def r_def)
  qed
qed

lemma lens_bytes: "aead_lens a b = le_bytes 8 a @ le_bytes 8 b"
proof -
  have "map (\<lambda>i. of_nat (drop_bit (8 * i) x)) [0..<8] = le_bytes 8 x" for x
    by (simp add: upt_rec drop_bit_eq_div le_bytes_numeral flip: div_mult2_eq)
  then show ?thesis by (simp add: aead_lens_def)
qed

lemma length_le_bytes [simp]: "length (le_bytes n x) = n"
  by (induction n arbitrary: x) simp_all

lemma aead_ok:
  assumes "length key = 32" and "length aad < W64" and "length data < W64"
  shows "poly1305_aead key aad data = poly1305_spec key (aead_message aad data)"
proof -
  define r where "r = poly_clamp (le_num (take 16 key))"
  have "holds (poly1305_init key) (poly1305_init key) 0"
    by (simp add: holds_def init_fields)
  note h1 = padded_ok [OF assms(1) this assms(2)]
  note h2 = padded_ok [OF assms(1) h1 assms(3)]
  have "holds (poly1305_init key) (poly1305_blocks (poly1305_padded (poly1305_padded (poly1305_init key) aad) data)
      (aead_lens (length aad) (length data)) (push_bit 24 1)) (poly_acc r (poly_acc r (poly_acc r 0 (pad16 aad)) (pad16 data))
      (aead_lens (length aad) (length data)))"
    unfolding r_def by (rule more_blocks [OF assms(1) h2]) (simp add: lens_bytes)
  moreover have "poly_acc r (poly_acc r (poly_acc r 0 (pad16 aad)) (pad16 data)) (aead_lens (length aad) (length data)) =
      poly_acc r 0 (aead_message aad data)"
    using acc_append [OF pad16_dvd] by (simp add: aead_message_def lens_bytes)
  ultimately show ?thesis unfolding poly1305_aead_def using finish_ok [OF assms(1)] by (simp add: r_def)
qed

lemma length_spec [simp]: "length (poly1305_spec key m) = 16"
  by (simp add: poly1305_spec_def)

text \<open>
  C22. A sealed block opens to what was sealed: for every key, nonce, associated data and plaintext,
  opening the ciphertext with the tag that sealing produced succeeds and restores the plaintext.
\<close>

theorem chacha20_seal_open:
  "case chacha20_seal key nonce aad data of (sealed, tag) \<Rightarrow> chacha20_open key nonce aad sealed tag = (True, data)"
  by (simp add: chacha20_seal_def chacha20_open_def Let_def verify_eq xor_twice)



end
