(* ===== verification/Lz4.thy ===== *)
theory Lz4
  imports Bytes
begin

text \<open>
  LZ4 block compression: the compressor (\<open>kernel/core/lz4.c\<close>) and the decoder
  (\<open>kernel/core/lz4_decode.cee\<close>), which reads bytes that came off a disk. The output written so far is
  a byte list, so a position in it is its length. The main properties are that the decoder undoes the
  compressor, whatever follows the stream, and that a buffer of \<open>lz4_compress_bound\<close> bytes is enough.
\<close>

section \<open>The compressor\<close>

definition lz4_compress_bound :: "nat \<Rightarrow> nat" where
  "lz4_compress_bound len = len + len div 255 + 16"

definition load32 :: "byte list \<Rightarrow> 32 word" where
  "load32 p = ucast (p ! 0) OR push_bit 8 (ucast (p ! 1)) OR push_bit 16 (ucast (p ! 2)) OR push_bit 24 (ucast (p ! 3))"

definition hash4 :: "32 word \<Rightarrow> nat" where
  "hash4 v = unat (drop_bit (32 - 12) (v * 2654435761))"

text \<open>\<open>NULL\<close>, for an output that is full, is \<open>None\<close>.\<close>

function emit_length :: "nat \<Rightarrow> byte list \<Rightarrow> nat \<Rightarrow> byte list option" where
  "emit_length dcap out len =
     (if len \<ge> 255
      then if length out \<ge> dcap then None else emit_length dcap (out @ [255]) (len - 255)
      else if length out \<ge> dcap then None else Some (out @ [of_nat len]))"
  by pat_completeness auto
termination by (relation "measure (\<lambda>(c, out, n). n)") auto

declare emit_length.simps [simp del]

text \<open>A token and the literals it announces, as in every sequence and after the last.\<close>

definition emit_literals :: "nat \<Rightarrow> byte list \<Rightarrow> byte list \<Rightarrow> byte list option" where
  "emit_literals dcap out lits =
     (let lit = length lits in
      if length out \<ge> dcap then None
      else let out = out @ [push_bit 4 (of_nat (if lit \<ge> 15 then 15 else lit))]
        in do { out \<leftarrow> if lit \<ge> 15 then emit_length dcap out (lit - 15) else Some out;
                if dcap - length out < lit then None else Some (out @ lits) })"

definition emit_sequence :: "nat \<Rightarrow> byte list \<Rightarrow> byte list \<Rightarrow> nat \<Rightarrow> nat \<Rightarrow> byte list option" where
  "emit_sequence dcap out lits off mlen =
     (let token = length out; code = mlen - 4 in
      do { out \<leftarrow> emit_literals dcap out lits;
           if dcap - length out < 2 then None
           else let out = out @ [of_nat (off AND 0xFF), of_nat (drop_bit 8 off)];
                    out = out[token := out ! token OR of_nat (if code \<ge> 15 then 15 else code)]
             in if code \<ge> 15 then emit_length dcap out (code - 15) else Some out })"

function match_len :: "byte list \<Rightarrow> nat \<Rightarrow> nat \<Rightarrow> nat \<Rightarrow> nat \<Rightarrow> nat" where
  "match_len src ip cand limit mlen =
     (if ip + mlen < limit \<and> src ! (ip + mlen) = src ! (cand + mlen)
      then match_len src ip cand limit (mlen + 1) else mlen)"
  by pat_completeness auto
termination by (relation "measure (\<lambda>(s, ip, c, limit, mlen). limit - (ip + mlen))") auto

declare match_len.simps [simp del]

lemma match_len_ge: "mlen \<le> match_len src ip cand limit mlen"
proof (induction src ip cand limit mlen rule: match_len.induct)
  case (1 src ip cand limit mlen)
  then show ?case by (subst match_len.simps) auto
qed

text \<open>The loop over positions, with the hash table of the most recent position of four bytes.\<close>

function lz4_loop :: "byte list \<Rightarrow> nat \<Rightarrow> nat list \<Rightarrow> nat \<Rightarrow> nat \<Rightarrow> byte list \<Rightarrow> (nat \<times> byte list) option" where
  "lz4_loop src dcap table ip anchor out =
     (if ip < length src - 12
      then let h = hash4 (load32 (drop ip src)); cand = table ! h; table = table[h := u32 ip]
        in if cand = 0 \<or> sub64 ip cand > 65535 \<or> load32 (drop cand src) \<noteq> load32 (drop ip src)
           then lz4_loop src dcap table (ip + 1) anchor out
           else let mlen = match_len src ip cand (length src - 5) 4
             in case emit_sequence dcap out (take (ip - anchor) (drop anchor src)) (sub64 ip cand) mlen of
                  None \<Rightarrow> None
                | Some out \<Rightarrow> lz4_loop src dcap table (ip + mlen) (ip + mlen) out
      else Some (anchor, out))"
  by pat_completeness auto
termination
proof (relation "measure (\<lambda>(src, dcap, table, ip, anchor, out). length src - ip)", goal_cases)
  case (3 src dcap table ip anchor out x xa xb xc x2)
  have "4 \<le> xc" unfolding 3(6) by (rule match_len_ge)
  then show ?case using 3(1) by simp
qed auto

declare lz4_loop.simps [simp del]

text \<open>The compressed bytes; \<open>None\<close> is the result 0, that they do not fit.\<close>

definition lz4_compress :: "byte list \<Rightarrow> nat \<Rightarrow> byte list option" where
  "lz4_compress src dcap =
     do { (anchor, out) \<leftarrow> if length src < 12 + 4 then Some (0, [])
                          else lz4_loop src dcap (replicate 4096 0) 1 0 [];
          emit_literals dcap out (drop anchor src) }"

section \<open>The decoder\<close>

text \<open>The input not read yet is a list.\<close>

fun moreLength :: "byte list \<Rightarrow> nat \<Rightarrow> (nat \<times> byte list) option" where
  "moreLength [] tot = None"
| "moreLength (b # ip) tot =
     (if tot + unat b \<ge> W64 then None
      else if b \<noteq> 255 then Some (tot + unat b, ip) else moreLength ip (tot + unat b))"

text \<open>The copy of a match, byte by byte: it may read what it has just written.\<close>

fun copy_match :: "byte list \<Rightarrow> nat \<Rightarrow> nat \<Rightarrow> byte list" where
  "copy_match out from 0 = out"
| "copy_match out from (Suc n) = copy_match (out @ [out ! from]) (from + 1) n"

lemma moreLength_shorter: "moreLength ip tot = Some (n, rest) \<Longrightarrow> length rest < length ip"
  by (induction ip tot rule: moreLength.induct) (fastforce split: if_splits)+

definition lengthField :: "byte list \<Rightarrow> nat \<Rightarrow> (nat \<times> byte list) option" where
  "lengthField ip n = (if n = 15 then moreLength ip n else Some (n, ip))"

lemma lengthField_shorter: "lengthField ip n = Some (m, rest) \<Longrightarrow> length rest \<le> length ip"
  using moreLength_shorter by (fastforce simp: lengthField_def split: if_splits)

text \<open>The returned length, 0 for a malformed input, and the bytes written.\<close>

function decode :: "nat \<Rightarrow> byte list \<Rightarrow> byte list \<Rightarrow> nat \<times> byte list" where
  "decode dcap [] out = (length out, out)"
| "decode dcap (token # ip) out =
     (if length out < dcap
      then case lengthField ip (unat (drop_bit 4 token)) of
          None \<Rightarrow> (0, out)
        | Some (lit, ip) \<Rightarrow>
            if lit > length ip \<or> lit > dcap - length out then (0, out)
            else let out = out @ take lit ip; ip = drop lit ip
              in if length out = dcap then (length out, out)
                 else if ip = [] then (length out, out)
                 else if length ip < 2 then (0, out)
                 else let offset = unat (ip ! 0) OR push_bit 8 (unat (ip ! 1)); ip = drop 2 ip
                   in if offset = 0 \<or> offset > length out then (0, out)
                      else (case lengthField ip (unat (token AND 15)) of
                          None \<Rightarrow> (0, out)
                        | Some (mlen, ip) \<Rightarrow>
                            let mlen = u64 (mlen + 4)
                            in if mlen > dcap - length out then (0, out)
                               else decode dcap ip (copy_match out (length out - offset) mlen))
      else (length out, out))"
  by pat_completeness auto
termination
proof (relation "measure (\<lambda>(dcap, ip, out). length ip)", goal_cases)
  case (2 dcap token ip out a x y outa ipa offset ipb aa xa ya mlen)
  have "length y \<le> length ip" "length ya \<le> length ipb" using 2(2,3,13,14) lengthField_shorter by blast+
  then show ?case using 2(6,11) by simp
qed simp

declare decode.simps [simp del]

definition lz4_decompress :: "byte list \<Rightarrow> nat \<Rightarrow> nat \<times> byte list" where
  "lz4_decompress src dcap = decode dcap src []"

section \<open>What the compressor writes\<close>

definition ext :: "nat \<Rightarrow> byte list" where
  "ext n = replicate (n div 255) 255 @ [of_nat (n mod 255)]"

lemma length_ext [simp]: "length (ext n) = n div 255 + 1"
  by (simp add: ext_def)

lemma ext_step: "255 \<le> n \<Longrightarrow> ext n = 255 # ext (n - 255)"
proof -
  assume "255 \<le> n"
  then have "n div 255 = Suc ((n - 255) div 255)" "n mod 255 = (n - 255) mod 255"
    by (simp_all add: le_div_geq le_mod_geq)
  then show ?thesis by (simp add: ext_def)
qed

lemma emit_length_ext:
  "emit_length dcap out n = (if length out + n div 255 < dcap then Some (out @ ext n) else None)"
proof (induction dcap out n rule: emit_length.induct)
  case (1 dcap out n)
  show ?case
  proof (cases "255 \<le> n")
    case True
    then have "n div 255 = Suc ((n - 255) div 255)" by (simp add: le_div_geq)
    then show ?thesis using 1 True by (subst emit_length.simps) (simp add: ext_step [OF True])
  next
    case False
    then show ?thesis by (subst emit_length.simps) (simp add: ext_def)
  qed
qed

text \<open>A length nibble and the bytes that continue it.\<close>

definition nibble :: "nat \<Rightarrow> nat" where
  "nibble n = min n 15"

definition field :: "nat \<Rightarrow> byte list" where
  "field n = (if n \<ge> 15 then ext (n - 15) else [])"

definition literal_bytes :: "byte list \<Rightarrow> byte list" where
  "literal_bytes lits = push_bit 4 (of_nat (nibble (length lits))) # field (length lits) @ lits"

definition sequence_bytes :: "byte list \<Rightarrow> nat \<Rightarrow> nat \<Rightarrow> byte list" where
  "sequence_bytes lits off mlen =
     (push_bit 4 (of_nat (nibble (length lits))) OR of_nat (nibble (mlen - 4))) # field (length lits) @ lits @
     [of_nat (off AND 0xFF), of_nat (drop_bit 8 off)] @ field (mlen - 4)"

lemma length_field: "length (field n) = (if n \<ge> 15 then (n - 15) div 255 + 1 else 0)"
  by (simp add: field_def)

lemma emit_literals_bytes:
  "emit_literals dcap out lits =
     (if length (out @ literal_bytes lits) \<le> dcap then Some (out @ literal_bytes lits) else None)"
proof (cases "length lits \<ge> 15")
  case True
  then show ?thesis
    by (auto simp: emit_literals_def Let_def emit_length_ext literal_bytes_def field_def nibble_def)
next
  case False
  then show ?thesis by (auto simp: emit_literals_def Let_def literal_bytes_def field_def nibble_def)
qed

lemma emit_sequence_bytes:
  "emit_sequence dcap out lits off mlen =
     (if length (out @ sequence_bytes lits off mlen) \<le> dcap then Some (out @ sequence_bytes lits off mlen) else None)"
proof (cases "length (out @ literal_bytes lits) \<le> dcap")
  case False
  then show ?thesis by (auto simp: emit_sequence_def Let_def emit_literals_bytes sequence_bytes_def literal_bytes_def)
next
  case True
  define code where "code = mlen - 4"
  define two :: "byte list" where "two = [of_nat (off AND 0xFF), of_nat (drop_bit 8 off)]"
  define q where "q = out @ (push_bit 4 (of_nat (nibble (length lits))) OR of_nat (nibble code)) # field (length lits) @ lits @ two"
  have u: "(out @ literal_bytes lits @ two)[length out := (out @ literal_bytes lits @ two) ! length out OR of_nat (nibble code)] = q"
    by (simp add: literal_bytes_def nth_append q_def)
  have n: "(if code \<ge> 15 then 15 else code) = nibble code" by (simp add: nibble_def)
  have E: "emit_sequence dcap out lits off mlen = (if dcap - length (out @ literal_bytes lits) < 2 then None
      else if code \<ge> 15 then emit_length dcap q (code - 15) else Some q)"
    unfolding emit_sequence_def Let_def code_def [symmetric] n emit_literals_bytes if_P [OF True] two_def [symmetric] bind.bind_lunit
      append_assoc u ..
  have l: "length q = length (out @ literal_bytes lits) + 2" by (simp add: q_def literal_bytes_def two_def)
  have s: "out @ sequence_bytes lits off mlen = q @ field code" by (simp add: sequence_bytes_def q_def two_def code_def)
  show ?thesis
  proof (cases "code \<ge> 15")
    case long: True
    then show ?thesis unfolding E s emit_length_ext field_def using True l by auto
  next
    case short: False
    then show ?thesis unfolding E s field_def using True l by auto
  qed
qed

section \<open>What the decoder reads\<close>

lemma more_ext:
  assumes "tot + n < W64"
  shows "moreLength (ext n @ rest) tot = Some (tot + n, rest)"
  using assms
proof (induction n arbitrary: tot rule: less_induct)
  case (less n)
  show ?case
  proof (cases "255 \<le> n")
    case True
    then show ?thesis using less(1) [of "n - 255" "tot + 255"] less(2) by (simp add: ext_step)
  next
    case False
    then have e: "ext n = [of_nat n]" by (simp add: ext_def)
    have u: "unat (of_nat n :: byte) = n" using False by (simp add: unat_of_nat take_bit_eq_mod)
    have "(of_nat n :: byte) \<noteq> 255" using u False by auto
    then show ?thesis using u less(2) by (simp add: e)
  qed
qed

lemma field_read: "n < W64 \<Longrightarrow> lengthField (field n @ rest) (nibble n) = Some (n, rest)"
  using more_ext [of 15 "n - 15" rest] by (auto simp: lengthField_def field_def nibble_def)

lemma below16: "a < (16 :: nat) \<Longrightarrow> a \<in> {0, 1, 2, 3, 4, 5, 6, 7, 8, 9, 10, 11, 12, 13, 14, 15}"
  unfolding insert_iff empty_iff by presburger

lemma nibble_bits:
  assumes "a < 16"
  shows "drop_bit 4 (push_bit 4 (of_nat a) :: byte) = of_nat a" "drop_bit 4 (of_nat a :: byte) = 0"
    "(push_bit 4 (of_nat a) :: byte) AND 15 = 0" "(of_nat a :: byte) AND 15 = of_nat a" "unat (of_nat a :: byte) = a"
  using below16 [OF assms] by (elim insertE; simp)+

lemma token_read:
  assumes "a < 16" and "b < 16"
  shows "unat (drop_bit 4 (push_bit 4 (of_nat a) OR of_nat b :: byte)) = a"
    "unat ((push_bit 4 (of_nat a) OR of_nat b :: byte) AND 15) = b"
  using nibble_bits [OF assms(1)] nibble_bits [OF assms(2)] by (simp_all add: bit.conj_disj_distrib2)

lemma nibble_less: "nibble n < 16"
  by (simp add: nibble_def)

lemma offset_read:
  assumes "off \<le> 65535"
  shows "unat (of_nat (off AND 0xFF) :: byte) OR push_bit 8 (unat (of_nat (drop_bit 8 off) :: byte)) = off"
proof -
  have m: "off AND 0xFF = off mod 256" using take_bit_eq_mask [of 8 off] by (simp add: mask_eq_exp_minus_1 take_bit_eq_mod)
  have "unat (of_nat (off mod 256) :: byte) = off mod 256" "unat (of_nat (off div 256) :: byte) = off div 256"
    using assms by (simp_all add: unat_of_nat take_bit_eq_mod)
  then show ?thesis unfolding m using or_add [of "off mod 256" 8 "off div 256"] by (simp add: drop_bit_eq_div)
qed

lemma decode_sequence:
  assumes "0 < off" "off \<le> 65535" "off \<le> length out + length lits" "4 \<le> mlen"
    "length out + length lits + mlen \<le> dcap" "dcap < W64"
  shows "decode dcap (sequence_bytes lits off mlen @ rest) out =
    decode dcap rest (copy_match (out @ lits) (length out + length lits - off) mlen)"
proof -
  define tk :: byte where "tk = push_bit 4 (of_nat (nibble (length lits))) OR of_nat (nibble (mlen - 4))"
  define x y :: byte where "x = of_nat (off AND 0xFF)" and "y = of_nat (drop_bit 8 off)"
  have s: "sequence_bytes lits off mlen @ rest = tk # field (length lits) @ lits @ x # y # field (mlen - 4) @ rest"
    by (simp add: sequence_bytes_def tk_def x_def y_def)
  have t: "unat (drop_bit 4 tk) = nibble (length lits)" "unat (tk AND 15) = nibble (mlen - 4)"
    unfolding tk_def by (rule token_read [OF nibble_less nibble_less])+
  have w: "length lits < W64" "mlen - 4 < W64" "u64 mlen = mlen" "mlen - 4 + 4 = mlen" using assms(4-6) by (simp_all add: u64_id)
  have o: "unat x OR push_bit 8 (unat y) = off" using offset_read [OF assms(2)] by (simp add: x_def y_def)
  have g: "length out < dcap" "\<not> dcap - length out < length lits" "length out + length lits \<noteq> dcap"
    "\<not> dcap - (length out + length lits) < mlen" using assms(4,5) by simp_all
  show ?thesis
    unfolding s decode.simps t field_read [OF w(1)] option.case prod.case Let_def
    using assms(1,3) by (simp add: g o field_read [OF w(2)] w(3,4))
qed

lemma decode_last:
  assumes "length out + length lits = dcap" and "dcap < W64" and "length out < dcap"
  shows "decode dcap (literal_bytes lits @ rest) out = (dcap, out @ lits)"
proof -
  define tk :: byte where "tk = push_bit 4 (of_nat (nibble (length lits)))"
  have "unat (drop_bit 4 tk) = nibble (length lits)" using token_read(1) [OF nibble_less, of 0 "length lits"] by (simp add: tk_def)
  moreover have "literal_bytes lits @ rest = tk # field (length lits) @ lits @ rest" by (simp add: literal_bytes_def tk_def)
  ultimately show ?thesis using assms field_read [of "length lits"] by (simp add: decode.simps Let_def)
qed

lemma copy_match_take:
  assumes "\<And>i. i < n \<Longrightarrow> src ! (p + i) = src ! (c + i)" and "c < p" and "p + n \<le> length src"
  shows "copy_match (take p src) c n = take (p + n) src"
  using assms
proof (induction n arbitrary: p c)
  case (Suc n)
  have "take p src @ [take p src ! c] = take (p + 1) src"
    using Suc.prems(1) [of 0] Suc.prems(2,3) by (simp add: take_Suc_conv_app_nth)
  moreover have "src ! (p + 1 + i) = src ! (c + 1 + i)" if "i < n" for i using Suc.prems(1) [of "Suc i"] that by simp
  ultimately show ?case using Suc.IH [of "p + 1" "c + 1"] Suc.prems(2,3) by simp
qed simp


section \<open>The matches the compressor finds\<close>

lemma bit_byte: "bit (b :: byte) n \<Longrightarrow> n < 8"
  using bit_imp_le_length [of b n] by simp

lemma load32_byte:
  assumes "i < 4"
  shows "p ! i = ucast (drop_bit (8 * i) (load32 p))"
proof (rule bit_word_eqI)
  fix n
  assume "n < LENGTH(8)"
  then have n: "n < 8" by simp
  have i: "i = 0 \<or> i = 1 \<or> i = 2 \<or> i = 3" using assms by auto
  show "bit (p ! i) n = bit (ucast (drop_bit (8 * i) (load32 p)) :: byte) n"
    using i n by (elim disjE) (auto simp: load32_def bit_simps dest: bit_byte)
qed

lemma load32_eq: "load32 p = load32 q \<Longrightarrow> i < 4 \<Longrightarrow> p ! i = q ! i"
  using load32_byte by metis

lemma match_len_le: "ip + mlen \<le> limit \<Longrightarrow> ip + match_len src ip cand limit mlen \<le> limit"
proof (induction src ip cand limit mlen rule: match_len.induct)
  case (1 src ip cand limit mlen)
  then show ?case by (subst match_len.simps) auto
qed

lemma match_len_eq:
  assumes "\<And>i. i < mlen \<Longrightarrow> src ! (ip + i) = src ! (cand + i)" and "i < match_len src ip cand limit mlen"
  shows "src ! (ip + i) = src ! (cand + i)"
  using assms
proof (induction src ip cand limit mlen rule: match_len.induct)
  case (1 src ip cand limit mlen)
  show ?case
  proof (cases "ip + mlen < limit \<and> src ! (ip + mlen) = src ! (cand + mlen)")
    case True
    then have "match_len src ip cand limit mlen = match_len src ip cand limit (mlen + 1)"
      by (subst match_len.simps) simp
    moreover have "\<And>j. j < mlen + 1 \<Longrightarrow> src ! (ip + j) = src ! (cand + j)" using 1(2) True less_Suc_eq by auto
    ultimately show ?thesis using 1(1) [OF True] 1(3) by simp
  next
    case False
    then have "match_len src ip cand limit mlen = mlen" by (subst match_len.simps) auto
    then show ?thesis using 1(2,3) by simp
  qed
qed

lemma hash4_less: "hash4 v < 4096"
proof -
  have "unat (drop_bit 20 w) < 4096" for w :: "32 word"
  proof -
    have "unat w < 4096 * 2 ^ 20" by (rule less_le_trans [OF unsigned_less]) simp
    then show ?thesis unfolding unat_drop_bit_eq unfolding drop_bit_eq_div by (rule less_mult_imp_div_less)
  qed
  then show ?thesis by (simp add: hash4_def)
qed

text \<open>The loop's invariant: the table holds positions already passed, and literals remain to be written.\<close>

definition lz4_inv :: "byte list \<Rightarrow> nat list \<Rightarrow> nat \<Rightarrow> nat \<Rightarrow> bool" where
  "lz4_inv src table ip anchor \<longleftrightarrow>
     length table = 4096 \<and> (\<forall>e\<in>set table. e < ip) \<and> anchor \<le> ip \<and> anchor < length src \<and> length src < W64"

lemma lz4_inv_step:
  assumes "lz4_inv src table ip anchor" and "ip < ip'" and "anchor' \<le> ip'" and "anchor' < length src"
  shows "lz4_inv src (table[h := u32 ip]) ip' anchor'"
proof -
  have "u32 ip < ip'" using assms(2) by (simp add: u32_def)
  then have "\<forall>e\<in>set (table[h := u32 ip]). e < ip'"
    using assms(1,2) set_update_subset_insert [of table h "u32 ip"] by (fastforce simp: lz4_inv_def)
  then show ?thesis using assms by (simp add: lz4_inv_def)
qed

lemma match_facts:
  assumes inv: "lz4_inv src table ip anchor" and ip: "ip < length src - 12"
    and c: "\<not> (table ! hash4 (load32 (drop ip src)) = 0 \<or> sub64 ip (table ! hash4 (load32 (drop ip src))) > 65535 \<or>
      load32 (drop (table ! hash4 (load32 (drop ip src))) src) \<noteq> load32 (drop ip src))"
    and cand: "cand = table ! hash4 (load32 (drop ip src))" and m: "mlen = match_len src ip cand (length src - 5) 4"
  shows "cand < ip" "sub64 ip cand = ip - cand" "ip - cand \<le> 65535" "4 \<le> mlen" "ip + mlen \<le> length src - 5"
    "\<And>i. i < mlen \<Longrightarrow> src ! (ip + i) = src ! (cand + i)"
proof -
  show l: "cand < ip" using inv hash4_less by (simp add: cand lz4_inv_def)
  have "ip < W64" using inv ip unfolding lz4_inv_def by linarith
  then show s: "sub64 ip cand = ip - cand" using l by (intro sub64_id) simp_all
  then show "ip - cand \<le> 65535" using c by (simp add: cand)
  show "4 \<le> mlen" unfolding m by (rule match_len_ge)
  show "ip + mlen \<le> length src - 5" unfolding m using ip by (intro match_len_le) simp
  have "drop cand src ! i = drop ip src ! i" if "i < 4" for i using c that by (intro load32_eq) (simp_all add: cand)
  then have "src ! (ip + i) = src ! (cand + i)" if "i < 4" for i using that ip l by simp
  then show "\<And>i. i < mlen \<Longrightarrow> src ! (ip + i) = src ! (cand + i)" unfolding m by (rule match_len_eq)
qed

text \<open>One step of the loop with a match, in terms of what it writes and what the decoder makes of it.\<close>

lemma loop_cases:
  assumes "lz4_inv src table ip anchor"
  obtains (over) "lz4_loop src dcap table ip anchor out = Some (anchor, out)"
  | (skip) h where "ip < length src - 12" "lz4_inv src (table[h := u32 ip]) (ip + 1) anchor"
      "lz4_loop src dcap table ip anchor out = lz4_loop src dcap (table[h := u32 ip]) (ip + 1) anchor out"
  | (found) h off mlen sb where "ip < length src - 12" "lz4_inv src (table[h := u32 ip]) (ip + mlen) (ip + mlen)"
      "4 \<le> mlen" "sb = sequence_bytes (take (ip - anchor) (drop anchor src)) off mlen" "ip + mlen \<le> length src - 5"
      "lz4_loop src dcap table ip anchor out =
         (if length (out @ sb) \<le> dcap then lz4_loop src dcap (table[h := u32 ip]) (ip + mlen) (ip + mlen) (out @ sb) else None)"
      "\<And>rest. decode (length src) (sb @ rest) (take anchor src) = decode (length src) rest (take (ip + mlen) src)"
proof (cases "ip < length src - 12")
  case False
  then show ?thesis using over by (simp add: lz4_loop.simps)
next
  case ip: True
  define h where "h = hash4 (load32 (drop ip src))"
  define cand where "cand = table ! h"
  have inv: "anchor \<le> ip" "anchor < length src" "length src < W64" using assms by (simp_all add: lz4_inv_def)
  show ?thesis
  proof (cases "cand = 0 \<or> sub64 ip cand > 65535 \<or> load32 (drop cand src) \<noteq> load32 (drop ip src)")
    case True
    then show ?thesis using ip inv lz4_inv_step [OF assms, of "ip + 1" anchor h]
      by (intro skip [of h]) (simp_all add: lz4_loop.simps [of src dcap table] Let_def h_def cand_def)
  next
    case False
    define mlen where "mlen = match_len src ip cand (length src - 5) 4"
    define lits where "lits = take (ip - anchor) (drop anchor src)"
    define sb where "sb = sequence_bytes lits (ip - cand) mlen"
    note m = match_facts [OF assms ip False [unfolded cand_def h_def] cand_def [unfolded h_def] mlen_def]
    have lits: "length lits = ip - anchor" "take anchor src @ lits = take ip src"
      using ip inv by (simp_all add: lits_def take_add [symmetric])
    have "decode (length src) (sb @ rest) (take anchor src) =
        decode (length src) rest (copy_match (take anchor src @ lits) (length (take anchor src) + length lits - (ip - cand)) mlen)" for rest
      unfolding sb_def using m(1,3-5) inv ip lits(1) by (intro decode_sequence) simp_all
    moreover have "copy_match (take ip src) cand mlen = take (ip + mlen) src"
      using m(1,5,6) by (intro copy_match_take) simp_all
    ultimately have d: "decode (length src) (sb @ rest) (take anchor src) = decode (length src) rest (take (ip + mlen) src)" for rest
      using lits m(1) inv ip by simp
    have "lz4_loop src dcap table ip anchor out =
         (if length (out @ sb) \<le> dcap then lz4_loop src dcap (table[h := u32 ip]) (ip + mlen) (ip + mlen) (out @ sb) else None)"
      using ip False m(2) by (subst lz4_loop.simps)
        (simp add: Let_def h_def [symmetric] cand_def [symmetric] mlen_def [symmetric] emit_sequence_bytes lits_def [symmetric] sb_def)
    then show ?thesis using m(4,5) ip d lz4_inv_step [OF assms, of "ip + mlen" "ip + mlen" h]
      by (intro found [of h mlen sb "ip - cand"]) (simp_all add: sb_def lits_def)
  qed
qed

lemma loop_decodes:
  assumes "lz4_inv src table ip anchor" and "lz4_loop src dcap table ip anchor out = Some (anchor', out')"
  shows "\<exists>tail. out' = out @ tail \<and> anchor' < length src \<and>
    (\<forall>rest. decode (length src) (tail @ rest) (take anchor src) = decode (length src) rest (take anchor' src))"
  using assms
proof (induction "length src - ip" arbitrary: table ip anchor out rule: less_induct)
  case less
  from less(2) show ?case
  proof (cases rule: loop_cases [where dcap = dcap and out = out])
    case over
    then show ?thesis using less(2,3) by (auto simp: lz4_inv_def)
  next
    case (skip h)
    then show ?thesis using less(1) [OF _ skip(2)] less(3) by simp
  next
    case (found h off mlen sb)
    then have "lz4_loop src dcap (table[h := u32 ip]) (ip + mlen) (ip + mlen) (out @ sb) = Some (anchor', out')"
      using less(3) by (simp split: if_splits)
    then obtain tail where "out' = (out @ sb) @ tail" "anchor' < length src"
        "\<forall>rest. decode (length src) (tail @ rest) (take (ip + mlen) src) = decode (length src) rest (take anchor' src)"
      using less(1) [OF _ found(2)] found(1,3) by fastforce
    then show ?thesis using found(7) by (intro exI [of _ "sb @ tail"]) simp
  qed
qed


section \<open>How much room the compressor needs\<close>

lemma div_add_le: "a div 255 + b div 255 \<le> (a + b) div (255 :: nat)"
proof -
  have "a div 255 * 255 \<le> a" "b div 255 * 255 \<le> b" by (rule div_times_less_eq_dividend)+
  then have "(a div 255 + b div 255) * 255 \<le> a + b" by (simp add: add_mult_distrib)
  then show ?thesis by (simp add: less_eq_div_iff_mult_less_eq)
qed

lemma field_room: "length (field n) \<le> n div 255 + 1"
  by (simp add: length_field div_le_mono)

lemma sequence_room:
  assumes "4 \<le> mlen"
  shows "length (sequence_bytes lits off mlen) \<le> length lits + length lits div 255 + mlen"
proof -
  have d: "(mlen - 4 - 15) div 255 \<le> mlen - 4 - 15" by (rule div_le_dividend)
  have "length (field (mlen - 4)) + 4 \<le> mlen"
  proof (cases "15 \<le> mlen - 4")
    case True
    then show ?thesis unfolding length_field if_P [OF True] using d by linarith
  qed (use assms in \<open>simp add: length_field\<close>)
  then show ?thesis using field_room [of "length lits"] by (simp add: sequence_bytes_def)
qed

lemma loop_fits:
  assumes "lz4_inv src table ip anchor" and "length out \<le> anchor + anchor div 255" and "length src + length src div 255 \<le> dcap"
  shows "\<exists>anchor' out'. lz4_loop src dcap table ip anchor out = Some (anchor', out') \<and> anchor' < length src \<and>
    length out' \<le> anchor' + anchor' div 255"
  using assms(1,2)
proof (induction "length src - ip" arbitrary: table ip anchor out rule: less_induct)
  case less
  from less(2) show ?case
  proof (cases rule: loop_cases [where dcap = dcap and out = out])
    case over
    then show ?thesis using less(2,3) by (simp add: lz4_inv_def)
  next
    case (skip h)
    then show ?thesis using less(1) [OF _ skip(2) less(3)] by simp
  next
    case (found h off mlen sb)
    have "length (take (ip - anchor) (drop anchor src)) = ip - anchor" using found(1) less(2) by (simp add: lz4_inv_def)
    then have "length sb \<le> ip - anchor + (ip - anchor) div 255 + mlen" using sequence_room [OF found(3)] unfolding found(4) by metis
    moreover have "anchor div 255 + (ip - anchor) div 255 \<le> (ip + mlen) div 255"
      using div_add_le [of anchor "ip - anchor"] div_le_mono [of ip "ip + mlen" 255] less(2) by (simp add: lz4_inv_def)
    ultimately have l: "length (out @ sb) \<le> ip + mlen + (ip + mlen) div 255"
      using less(2,3) unfolding lz4_inv_def length_append by linarith
    also have "\<dots> \<le> length src + length src div 255" using found(2) div_le_mono [of "ip + mlen" "length src" 255] by (simp add: lz4_inv_def)
    finally have "length (out @ sb) \<le> dcap" using assms(3) by simp
    then show ?thesis using less(1) [OF _ found(2) l] found(1,3,6) by simp
  qed
qed

lemma start_inv: "16 \<le> length src \<Longrightarrow> length src < W64 \<Longrightarrow> lz4_inv src (replicate 4096 0) 1 0"
  by (auto simp: lz4_inv_def)

text \<open>
  C7. Decompressing what was compressed gives the input back: whenever the compressor reports success, into
  whatever room it was given, the decoder turns its bytes into the original ones, and whatever
  follows the stream, such as the padding of a disk block, changes nothing.
\<close>

theorem lz4_roundtrip:
  assumes "length src < W64" and "lz4_compress src dcap = Some packed"
  shows "lz4_decompress (packed @ padding) (length src) = (length src, src)"
proof (cases "src = []")
  case True
  then show ?thesis by (cases "packed @ padding") (simp_all add: lz4_decompress_def decode.simps)
next
  case False
  obtain anchor out where a: "packed = out @ literal_bytes (drop anchor src)" "anchor < length src"
    "\<And>rest. decode (length src) (out @ rest) [] = decode (length src) rest (take anchor src)"
  proof (cases "length src < 16")
    case True
    then have "packed = [] @ literal_bytes (drop 0 src)" using assms(2)
      by (simp add: lz4_compress_def emit_literals_bytes split: if_splits)
    then show ?thesis using that [of "[]" 0] False by simp
  next
    case long: False
    then obtain anchor out where l: "lz4_loop src dcap (replicate 4096 0) 1 0 [] = Some (anchor, out)"
        "packed = out @ literal_bytes (drop anchor src)"
      using assms(2) by (auto simp: lz4_compress_def emit_literals_bytes bind_eq_Some_conv split: if_splits)
    have "lz4_inv src (replicate 4096 0) 1 0" using long assms(1) by (intro start_inv) simp_all
    from loop_decodes [OF this l(1)] show ?thesis using l(2) that by auto
  qed
  have "decode (length src) (literal_bytes (drop anchor src) @ padding) (take anchor src) = (length src, take anchor src @ drop anchor src)"
    using a(2) assms(1) by (intro decode_last) simp_all
  then show ?thesis using a(1,3) by (simp add: lz4_decompress_def)
qed

theorem lz4_roundtrip_witness:
  "lz4_compress [1, 2, 3] 10 = Some [0x30, 1, 2, 3] \<and> lz4_decompress ([0x30, 1, 2, 3] @ [9, 9]) (length [1, 2, 3 :: byte]) = (length [1, 2, 3 :: byte], [1, 2, 3])"
proof -
  have "lz4_compress [1, 2, 3] 10 = Some [0x30, 1, 2, 3]" by (simp add: lz4_compress_def emit_literals_def Let_def)
  then show ?thesis using lz4_roundtrip [of "[1, 2, 3]" 10 "[0x30, 1, 2, 3]" "[9, 9]"] by simp
qed

text \<open>
  C27. The compressor always succeeds when it is given \<open>lz4_compress_bound\<close> bytes, and its output is within
  that bound: incompressible input costs at most a token and a byte for each 255 literals.
\<close>

theorem lz4_compress_fits:
  assumes "length src < W64" and "lz4_compress_bound (length src) \<le> dcap"
  shows "\<exists>packed. lz4_compress src dcap = Some packed \<and> length packed \<le> lz4_compress_bound (length src)"
proof -
  obtain anchor out where a: "(if length src < 12 + 4 then Some (0, []) else lz4_loop src dcap (replicate 4096 0) 1 0 []) = Some (anchor, out)"
    "length out \<le> anchor + anchor div 255" "anchor \<le> length src"
  proof (cases "length src < 16")
    case False
    then have "lz4_inv src (replicate 4096 0) 1 0" using assms(1) by (intro start_inv) simp_all
    from loop_fits [OF this, of "[]" dcap] show ?thesis using False assms(2) that by (auto simp: lz4_compress_bound_def)
  qed (use that [of 0 "[]"] in simp)
  have "length (literal_bytes (drop anchor src)) \<le> 2 + (length src - anchor) + (length src - anchor) div 255"
    using field_room [of "length src - anchor"] by (simp add: literal_bytes_def)
  moreover have "anchor div 255 + (length src - anchor) div 255 \<le> length src div 255"
    using div_add_le [of anchor "length src - anchor"] a(3) by simp
  ultimately have "length (out @ literal_bytes (drop anchor src)) \<le> lz4_compress_bound (length src)"
    using a(2,3) unfolding lz4_compress_bound_def length_append by linarith
  then show ?thesis using a(1) assms(2) by (simp add: lz4_compress_def emit_literals_bytes)
qed

theorem lz4_compress_fits_witness:
  "\<exists>packed. lz4_compress (replicate 300 7) 317 = Some packed \<and> length packed \<le> lz4_compress_bound (length (replicate 300 (7 :: byte)))"
  by (rule lz4_compress_fits) (simp_all add: lz4_compress_bound_def)

lemma length_copy_match [simp]: "length (copy_match out from n) = length out + n"
  by (induction n arbitrary: out "from") simp_all

lemma decode_bounded:
  "length out \<le> dcap \<Longrightarrow> decode dcap ip out = (n, out') \<Longrightarrow> length out' \<le> dcap \<and> (n = 0 \<or> n = length out')"
proof (induction dcap ip out rule: decode.induct)
  case (1 dcap out)
  then show ?case by (auto simp: decode.simps)
next
  case (2 dcap token ip out)
  show ?case
    using 2(2,3) 2(1) by (subst (asm) decode.simps) (auto simp: Let_def split: if_splits option.splits prod.splits)
qed

text \<open>
  C18. The decoder stays inside its output on every input, well formed or not: what it has written never
  exceeds the capacity, and the length it returns is 0 or the number of bytes written.
\<close>

theorem lz4_decompress_bounded:
  "case lz4_decompress src dcap of (n, out) \<Rightarrow> length out \<le> dcap \<and> (n = 0 \<or> n = length out)"
  by (cases "decode dcap src []") (auto simp: lz4_decompress_def dest!: decode_bounded [rotated])

end
