(* ===== verification/Vdist.thy ===== *)
theory Vdist
  imports Prelude
begin

text \<open>
  The virtual GICv3 distributor (\<open>kernel/arch/aarch64/gicv3_vdist.c\<close>): the registers a guest reads
  and writes, the routing of interrupts to virtual CPUs, and the software-generated interrupts
  between them. A guest chooses every address, size and value, so an access to one of the register
  arrays is checked in the model: \<open>None\<close> is an index outside its array. The lock covers each
  operation as a whole, so an operation is one step.
\<close>

section \<open>Registers\<close>

definition VDIST_GICD_BASE :: nat where "VDIST_GICD_BASE = 0x08000000"
definition VDIST_GICD_SIZE :: nat where "VDIST_GICD_SIZE = 0x00010000"
definition VDIST_GICR_BASE :: nat where "VDIST_GICR_BASE = 0x080A0000"
definition VDIST_GICR_STRIDE :: nat where "VDIST_GICR_STRIDE = 0x00020000"
definition VDIST_GICR_FRAMES :: nat where "VDIST_GICR_FRAMES = 4"
definition VDIST_NR_LINES :: nat where "VDIST_NR_LINES = 32 + 256"
definition NR_WORDS :: nat where "NR_WORDS = VDIST_NR_LINES div 32"
definition NR_PRIVATE :: nat where "NR_PRIVATE = 32"

definition GICD_CTLR :: nat where "GICD_CTLR = 0x0000"
definition GICD_TYPER :: nat where "GICD_TYPER = 0x0004"
definition GICD_IIDR :: nat where "GICD_IIDR = 0x0008"
definition GICD_PIDR2 :: nat where "GICD_PIDR2 = 0xFFE8"
definition GICD_CTLR_KEEP :: "32 word" where "GICD_CTLR_KEEP = 0x13"
definition GICD_CTLR_DS :: "32 word" where "GICD_CTLR_DS = flag 6"
definition GICR_IIDR :: nat where "GICR_IIDR = 0x0004"
definition GICR_TYPER :: nat where "GICR_TYPER = 0x0008"
definition GICR_WAKER :: nat where "GICR_WAKER = 0x0014"
definition GICR_PIDR2 :: nat where "GICR_PIDR2 = 0xFFE8"
definition GICR_WAKER_PS :: "32 word" where "GICR_WAKER_PS = flag 1"
definition GICR_WAKER_CA :: "32 word" where "GICR_WAKER_CA = flag 2"
definition GICR_TYPER_LAST :: "64 word" where "GICR_TYPER_LAST = flag 4"
definition GICR_SGI_BASE :: nat where "GICR_SGI_BASE = 0x10000"
definition VDIST_IIDR :: "32 word" where "VDIST_IIDR = 0x0000043B"
definition VDIST_PIDR2 :: "32 word" where "VDIST_PIDR2 = 0x30"
definition GICR_IGROUPR0 :: nat where "GICR_IGROUPR0 = 0x0080"
definition GICR_ISENABLER0 :: nat where "GICR_ISENABLER0 = 0x0100"
definition GICR_ICENABLER0 :: nat where "GICR_ICENABLER0 = 0x0180"
definition GICR_ISPENDR0 :: nat where "GICR_ISPENDR0 = 0x0200"
definition GICR_ICPENDR0 :: nat where "GICR_ICPENDR0 = 0x0280"
definition GICR_IPRIORITYR :: nat where "GICR_IPRIORITYR = 0x0400"
definition GICR_ICFGR0 :: nat where "GICR_ICFGR0 = 0x0C00"
definition GICR_ICFGR1 :: nat where "GICR_ICFGR1 = 0x0C04"
definition GICD_IGROUPR :: nat where "GICD_IGROUPR = 0x0080"
definition GICD_ISENABLER :: nat where "GICD_ISENABLER = 0x0100"
definition GICD_ICENABLER :: nat where "GICD_ICENABLER = 0x0180"
definition GICD_ISPENDR :: nat where "GICD_ISPENDR = 0x0200"
definition GICD_ICPENDR :: nat where "GICD_ICPENDR = 0x0280"
definition GICD_IPRIORITYR :: nat where "GICD_IPRIORITYR = 0x0400"
definition GICD_ICFGR :: nat where "GICD_ICFGR = 0x0C00"
definition GICD_IROUTER :: nat where "GICD_IROUTER = 0x6000"
definition IROUTER_KEEP :: "64 word" where "IROUTER_KEEP = 0x000000FF80FFFFFF"
definition VDIST_PRIO_IDLE :: "8 word" where "VDIST_PRIO_IDLE = 0xFF"
definition GICD_CTLR_ENABLE_G1 :: "32 word" where "GICD_CTLR_ENABLE_G1 = flag 1"
definition IROUTER_IRM :: "64 word" where "IROUTER_IRM = flag 31"

lemmas sizes = VDIST_GICD_BASE_def VDIST_GICD_SIZE_def VDIST_GICR_BASE_def VDIST_GICR_STRIDE_def
  VDIST_GICR_FRAMES_def VDIST_NR_LINES_def NR_WORDS_def NR_PRIVATE_def

lemmas gicd_offsets = GICD_CTLR_def GICD_TYPER_def GICD_IIDR_def GICD_PIDR2_def GICD_IGROUPR_def
  GICD_ISENABLER_def GICD_ICENABLER_def GICD_ISPENDR_def GICD_ICPENDR_def GICD_IPRIORITYR_def
  GICD_ICFGR_def GICD_IROUTER_def

lemmas gicr_offsets = GICR_IIDR_def GICR_TYPER_def GICR_WAKER_def GICR_PIDR2_def GICR_SGI_BASE_def
  GICR_IGROUPR0_def GICR_ISENABLER0_def GICR_ICENABLER0_def GICR_ISPENDR0_def GICR_ICPENDR0_def
  GICR_IPRIORITYR_def GICR_ICFGR0_def GICR_ICFGR1_def

section \<open>State\<close>

record vdist_private =
  pv_present :: bool
  pv_waker :: "32 word"
  pv_group :: "32 word"
  pv_enable :: "32 word"
  pv_pending :: "32 word"
  pv_cfg1 :: "32 word"
  pv_prio :: "8 word list"

record gicv3_vdist =
  vd_ctlr :: "32 word"
  vd_group :: "32 word list"
  vd_enable :: "32 word list"
  vd_pending :: "32 word list"
  vd_cfg :: "32 word list"
  vd_prio :: "8 word list"
  vd_irouter :: "64 word list"
  vd_priv :: "vdist_private list"
  vd_reads :: nat
  vd_writes :: nat
  vd_sgis :: nat
  vd_spis_raised :: nat

text \<open>Reading and writing an array element; outside the array is \<open>None\<close>.\<close>

definition fetch :: "'a list \<Rightarrow> nat \<Rightarrow> 'a option" where
  "fetch xs i = (if i < length xs then Some (xs ! i) else None)"

definition store :: "'a list \<Rightarrow> nat \<Rightarrow> 'a \<Rightarrow> 'a list option" where
  "store xs i v = (if i < length xs then Some (xs[i := v]) else None)"

definition set_bits :: "32 word \<Rightarrow> 32 word \<Rightarrow> 32 word \<Rightarrow> 32 word" where
  "set_bits reg val msk = reg OR (val AND msk)"

definition clear_bits :: "32 word \<Rightarrow> 32 word \<Rightarrow> 32 word \<Rightarrow> 32 word" where
  "clear_bits reg val msk = reg AND NOT (val AND msk)"

definition rw_bits :: "32 word \<Rightarrow> 32 word \<Rightarrow> 32 word \<Rightarrow> 32 word" where
  "rw_bits reg val msk = (reg AND NOT msk) OR (val AND msk)"

definition modify :: "('a \<Rightarrow> 'a) \<Rightarrow> 'a list \<Rightarrow> nat \<Rightarrow> 'a list option" where
  "modify f xs i = do { x \<leftarrow> fetch xs i; store xs i (f x) }"

definition prio_word :: "8 word list \<Rightarrow> nat \<Rightarrow> 32 word option" where
  "prio_word prio i =
     do { a \<leftarrow> fetch prio i; b \<leftarrow> fetch prio (i + 1); c \<leftarrow> fetch prio (i + 2); d \<leftarrow> fetch prio (i + 3);
          Some (ucast a OR push_bit 8 (ucast b) OR push_bit 16 (ucast c) OR push_bit 24 (ucast d)) }"

fun prio_lanes :: "nat list \<Rightarrow> 8 word list \<Rightarrow> nat \<Rightarrow> 32 word \<Rightarrow> 32 word \<Rightarrow> 8 word list option" where
  "prio_lanes [] prio i val msk = Some prio"
| "prio_lanes (b # bs) prio i val msk =
     (let lane = push_bit (b * 8) 0xFF in
      do { prio \<leftarrow> if msk AND lane \<noteq> 0 then store prio (i + b) (ucast (drop_bit (b * 8) (val AND lane))) else Some prio;
           prio_lanes bs prio i val msk })"

definition prio_word_write :: "8 word list \<Rightarrow> nat \<Rightarrow> 32 word \<Rightarrow> 32 word \<Rightarrow> 8 word list option" where
  "prio_word_write prio i val msk = prio_lanes [0, 1, 2, 3] prio i val msk"

definition vdist_create :: gicv3_vdist where
  "vdist_create =
     \<lparr>vd_ctlr = 0, vd_group = replicate NR_WORDS 0, vd_enable = replicate NR_WORDS 0,
      vd_pending = replicate NR_WORDS 0, vd_cfg = replicate (NR_WORDS * 2) 0,
      vd_prio = replicate VDIST_NR_LINES 0, vd_irouter = replicate VDIST_NR_LINES 0,
      vd_priv = replicate VDIST_GICR_FRAMES
        \<lparr>pv_present = False, pv_waker = GICR_WAKER_PS, pv_group = 0, pv_enable = 0, pv_pending = 0,
         pv_cfg1 = 0, pv_prio = replicate NR_PRIVATE 0\<rparr>,
      vd_reads = 0, vd_writes = 0, vd_sgis = 0, vd_spis_raised = 0\<rparr>"

definition set_priv :: "gicv3_vdist \<Rightarrow> nat \<Rightarrow> vdist_private \<Rightarrow> gicv3_vdist" where
  "set_priv d i p = d\<lparr>vd_priv := (vd_priv d)[i := p]\<rparr>"

definition vdist_vcpu_present :: "gicv3_vdist \<Rightarrow> nat \<Rightarrow> bool \<Rightarrow> gicv3_vdist" where
  "vdist_vcpu_present d i present =
     (if i \<ge> VDIST_GICR_FRAMES then d else set_priv d i ((vd_priv d ! i)\<lparr>pv_present := present\<rparr>))"

definition vdist_mpidr :: "nat \<Rightarrow> 64 word" where
  "vdist_mpidr i = flag 31 OR (of_nat i AND 0xFF)"

definition last_frame :: "gicv3_vdist \<Rightarrow> nat \<Rightarrow> bool" where
  "last_frame d i \<longleftrightarrow> \<not> list_ex (\<lambda>j. pv_present (vd_priv d ! j)) [i + 1..<VDIST_GICR_FRAMES]"

definition gicr_typer :: "gicv3_vdist \<Rightarrow> nat \<Rightarrow> 64 word" where
  "gicr_typer d i =
     push_bit 32 (vdist_mpidr i AND 0xFFFFFF) OR push_bit 8 (of_nat i) OR (if last_frame d i then GICR_TYPER_LAST else 0)"

section \<open>The 32-bit register file\<close>

definition within :: "nat \<Rightarrow> nat \<Rightarrow> nat \<Rightarrow> bool" where
  "within off base n \<longleftrightarrow> off \<ge> base \<and> off < base + n"

definition gicd_rd :: "gicv3_vdist \<Rightarrow> nat \<Rightarrow> 32 word option" where
  "gicd_rd d off =
     (if off = GICD_CTLR then Some (vd_ctlr d OR GICD_CTLR_DS)
      else if off = GICD_TYPER then Some (of_nat (VDIST_NR_LINES div 32 - 1) OR push_bit 19 9 OR push_bit 25 1)
      else if off = GICD_IIDR then Some VDIST_IIDR
      else if off = GICD_PIDR2 then Some VDIST_PIDR2
      else let n = (off AND 0x7F) div 4 in
        if within off GICD_IGROUPR (NR_WORDS * 4) then if n \<noteq> 0 then fetch (vd_group d) n else Some 0
        else if within off GICD_ISENABLER (NR_WORDS * 4) then if n \<noteq> 0 then fetch (vd_enable d) n else Some 0
        else if within off GICD_ICENABLER (NR_WORDS * 4) then if n \<noteq> 0 then fetch (vd_enable d) n else Some 0
        else if within off GICD_ISPENDR (NR_WORDS * 4) then if n \<noteq> 0 then fetch (vd_pending d) n else Some 0
        else if within off GICD_ICPENDR (NR_WORDS * 4) then if n \<noteq> 0 then fetch (vd_pending d) n else Some 0
        else if within off GICD_IPRIORITYR VDIST_NR_LINES
          then let intid = off - GICD_IPRIORITYR in if intid \<ge> NR_PRIVATE then prio_word (vd_prio d) intid else Some 0
        else if within off GICD_ICFGR (NR_WORDS * 8)
          then let m = (off - GICD_ICFGR) div 4 in if m \<ge> 2 then fetch (vd_cfg d) m else Some 0
        else if within off GICD_IROUTER (VDIST_NR_LINES * 8)
          then let intid = (off - GICD_IROUTER) div 8 in
            do { r \<leftarrow> if intid \<ge> NR_PRIVATE then fetch (vd_irouter d) intid else Some 0;
                 Some (if off AND 4 \<noteq> 0 then ucast (drop_bit 32 r) else ucast r) }
        else Some 0)"

definition gicd_wr :: "gicv3_vdist \<Rightarrow> nat \<Rightarrow> 32 word \<Rightarrow> 32 word \<Rightarrow> gicv3_vdist option" where
  "gicd_wr d off val msk =
     (if off = GICD_CTLR then Some (d\<lparr>vd_ctlr := ((vd_ctlr d AND NOT msk) OR (val AND msk)) AND GICD_CTLR_KEEP\<rparr>)
      else let n = (off AND 0x7F) div 4 in
        if n = 0 \<and> off \<ge> GICD_IGROUPR \<and> off < GICD_ICPENDR + NR_WORDS * 4 then Some d
        else if within off GICD_IGROUPR (NR_WORDS * 4)
          then do { x \<leftarrow> modify (\<lambda>r. rw_bits r val msk) (vd_group d) n; Some (d\<lparr>vd_group := x\<rparr>) }
        else if within off GICD_ISENABLER (NR_WORDS * 4)
          then do { x \<leftarrow> modify (\<lambda>r. set_bits r val msk) (vd_enable d) n; Some (d\<lparr>vd_enable := x\<rparr>) }
        else if within off GICD_ICENABLER (NR_WORDS * 4)
          then do { x \<leftarrow> modify (\<lambda>r. clear_bits r val msk) (vd_enable d) n; Some (d\<lparr>vd_enable := x\<rparr>) }
        else if within off GICD_ISPENDR (NR_WORDS * 4)
          then do { x \<leftarrow> modify (\<lambda>r. set_bits r val msk) (vd_pending d) n; Some (d\<lparr>vd_pending := x\<rparr>) }
        else if within off GICD_ICPENDR (NR_WORDS * 4)
          then do { x \<leftarrow> modify (\<lambda>r. clear_bits r val msk) (vd_pending d) n; Some (d\<lparr>vd_pending := x\<rparr>) }
        else if within off GICD_IPRIORITYR VDIST_NR_LINES
          then let intid = off - GICD_IPRIORITYR in
            if intid \<ge> NR_PRIVATE
            then do { x \<leftarrow> prio_word_write (vd_prio d) intid val msk; Some (d\<lparr>vd_prio := x\<rparr>) } else Some d
        else if within off GICD_ICFGR (NR_WORDS * 8)
          then let m = (off - GICD_ICFGR) div 4 in
            if m \<ge> 2 then do { x \<leftarrow> modify (\<lambda>r. rw_bits r val msk) (vd_cfg d) m; Some (d\<lparr>vd_cfg := x\<rparr>) } else Some d
        else if within off GICD_IROUTER (VDIST_NR_LINES * 8)
          then let intid = (off - GICD_IROUTER) div 8 in
            if intid < NR_PRIVATE then Some d
            else let m64 = (if off AND 4 \<noteq> 0 then push_bit 32 (ucast msk) else ucast msk);
                     v64 = (if off AND 4 \<noteq> 0 then push_bit 32 (ucast val) else ucast val)
              in do { x \<leftarrow> modify (\<lambda>r. ((r AND NOT m64) OR (v64 AND m64)) AND IROUTER_KEEP) (vd_irouter d) intid;
                      Some (d\<lparr>vd_irouter := x\<rparr>) }
        else Some d)"

definition gicr_rd :: "gicv3_vdist \<Rightarrow> nat \<Rightarrow> nat \<Rightarrow> 32 word option" where
  "gicr_rd d i off =
     do { p \<leftarrow> fetch (vd_priv d) i;
          if \<not> pv_present p then Some 0
          else if off = GICR_IIDR then Some VDIST_IIDR
          else if off = GICR_TYPER then Some (ucast (gicr_typer d i))
          else if off = GICR_TYPER + 4 then Some (ucast (drop_bit 32 (gicr_typer d i)))
          else if off = GICR_WAKER then Some (pv_waker p OR (if has (pv_waker p) GICR_WAKER_PS then GICR_WAKER_CA else 0))
          else if off = GICR_PIDR2 then Some VDIST_PIDR2
          else if off < GICR_SGI_BASE then Some 0
          else let sgi = off - GICR_SGI_BASE in
            if sgi = GICR_IGROUPR0 then Some (pv_group p)
            else if sgi = GICR_ISENABLER0 \<or> sgi = GICR_ICENABLER0 then Some (pv_enable p)
            else if sgi = GICR_ISPENDR0 \<or> sgi = GICR_ICPENDR0 then Some (pv_pending p)
            else if sgi = GICR_ICFGR0 then Some 0xAAAAAAAA
            else if sgi = GICR_ICFGR1 then Some (pv_cfg1 p)
            else if within sgi GICR_IPRIORITYR NR_PRIVATE then prio_word (pv_prio p) (sgi - GICR_IPRIORITYR)
            else Some 0 }"

definition gicr_wr :: "gicv3_vdist \<Rightarrow> nat \<Rightarrow> nat \<Rightarrow> 32 word \<Rightarrow> 32 word \<Rightarrow> gicv3_vdist option" where
  "gicr_wr d i off val msk =
     do { p \<leftarrow> fetch (vd_priv d) i;
          if \<not> pv_present p then Some d
          else if off = GICR_WAKER
            then Some (set_priv d i (p\<lparr>pv_waker := ((pv_waker p AND NOT msk) OR (val AND msk)) AND GICR_WAKER_PS\<rparr>))
          else if off < GICR_SGI_BASE then Some d
          else let sgi = off - GICR_SGI_BASE in
            if sgi = GICR_IGROUPR0 then Some (set_priv d i (p\<lparr>pv_group := rw_bits (pv_group p) val msk\<rparr>))
            else if sgi = GICR_ISENABLER0 then Some (set_priv d i (p\<lparr>pv_enable := set_bits (pv_enable p) val msk\<rparr>))
            else if sgi = GICR_ICENABLER0 then Some (set_priv d i (p\<lparr>pv_enable := clear_bits (pv_enable p) val msk\<rparr>))
            else if sgi = GICR_ISPENDR0 then Some (set_priv d i (p\<lparr>pv_pending := set_bits (pv_pending p) val msk\<rparr>))
            else if sgi = GICR_ICPENDR0 then Some (set_priv d i (p\<lparr>pv_pending := clear_bits (pv_pending p) val msk\<rparr>))
            else if sgi = GICR_ICFGR1 then Some (set_priv d i (p\<lparr>pv_cfg1 := rw_bits (pv_cfg1 p) val msk\<rparr>))
            else if within sgi GICR_IPRIORITYR NR_PRIVATE
              then do { x \<leftarrow> prio_word_write (pv_prio p) (sgi - GICR_IPRIORITYR) val msk; Some (set_priv d i (p\<lparr>pv_prio := x\<rparr>)) }
            else Some d }"

section \<open>Routing\<close>

definition route_of :: "nat \<Rightarrow> 64 word" where
  "route_of i = vdist_mpidr i AND 0xFFFFFF"

definition first_present :: "gicv3_vdist \<Rightarrow> nat" where
  "first_present d =
     (case filter (\<lambda>j. pv_present (vd_priv d ! j)) [0..<VDIST_GICR_FRAMES] of [] \<Rightarrow> 0 | j # js \<Rightarrow> j)"

text \<open>The priority of an interrupt that the virtual CPU should be given, \<open>None\<close> if it should not.\<close>

definition deliverable_locked :: "gicv3_vdist \<Rightarrow> nat \<Rightarrow> nat \<Rightarrow> 8 word option" where
  "deliverable_locked d i intid =
     (if i \<ge> VDIST_GICR_FRAMES \<or> intid \<ge> VDIST_NR_LINES then None
      else let p = vd_priv d ! i in
        if \<not> pv_present p \<or> has (pv_waker p) GICR_WAKER_PS \<or> \<not> has (vd_ctlr d) GICD_CTLR_ENABLE_G1 then None
        else if intid < NR_PRIVATE
          then if pv_pending p AND pv_enable p AND pv_group p AND push_bit intid 1 = 0 then None else Some (pv_prio p ! intid)
        else let n = intid div 32 in
          if vd_pending d ! n AND vd_enable d ! n AND vd_group d ! n AND push_bit (intid mod 32) 1 = 0 then None
          else let r = vd_irouter d ! intid in
            if has r IROUTER_IRM then if i \<noteq> first_present d then None else Some (vd_prio d ! intid)
            else if r AND NOT IROUTER_IRM \<noteq> route_of i then None else Some (vd_prio d ! intid))"

text \<open>The best candidate so far and its priority, after one more interrupt was looked at.\<close>

definition consider_intid :: "gicv3_vdist \<Rightarrow> nat \<Rightarrow> nat \<Rightarrow> nat option \<times> 8 word \<Rightarrow> nat option \<times> 8 word" where
  "consider_intid d i intid best =
     (case deliverable_locked d i intid of
        Some pr \<Rightarrow> if pr < snd best then (Some intid, pr) else best
      | None \<Rightarrow> best)"

function scan_irqs :: "gicv3_vdist \<Rightarrow> nat \<Rightarrow> nat \<Rightarrow> 32 word \<Rightarrow> nat option \<times> 8 word \<Rightarrow> nat option \<times> 8 word" where
  "scan_irqs d i intid w best =
     (if w = 0 then best
      else scan_irqs d i (intid + 1) (drop_bit 1 w) (if w AND 1 \<noteq> 0 then consider_intid d i intid best else best))"
  by pat_completeness auto
termination
proof (relation "measure (\<lambda>(d, i, intid, w, best). unat w)", goal_cases)
  case (2 d i intid w best)
  have "unat (drop_bit 1 w) = unat w div 2" unfolding unat_drop_bit_eq by (simp add: drop_bit_eq_div)
  moreover have "unat w > 0" using 2 by (simp add: unat_gt_0)
  ultimately show ?case by simp
qed simp

declare scan_irqs.simps [simp del]

definition vdist_pending_for :: "gicv3_vdist \<Rightarrow> nat \<Rightarrow> (nat \<times> 8 word) option" where
  "vdist_pending_for d i =
     (if i \<ge> VDIST_GICR_FRAMES then None
      else let p = vd_priv d ! i;
               best = scan_irqs d i 0 (pv_pending p AND pv_enable p AND pv_group p) (None, VDIST_PRIO_IDLE);
               best = fold (\<lambda>n. scan_irqs d i (n * 32) (vd_pending d ! n AND vd_enable d ! n AND vd_group d ! n))
                        [1..<NR_WORDS] best
        in case best of (None, _) \<Rightarrow> None | (Some intid, pr) \<Rightarrow> Some (intid, pr))"

definition vdist_deliverable :: "gicv3_vdist \<Rightarrow> nat \<Rightarrow> nat \<Rightarrow> bool" where
  "vdist_deliverable d i intid \<longleftrightarrow> deliverable_locked d i intid \<noteq> None"

definition vdist_ack :: "gicv3_vdist \<Rightarrow> nat \<Rightarrow> nat \<Rightarrow> gicv3_vdist" where
  "vdist_ack d i intid =
     (if i \<ge> VDIST_GICR_FRAMES \<or> intid \<ge> VDIST_NR_LINES then d
      else if intid < NR_PRIVATE
        then set_priv d i ((vd_priv d ! i)\<lparr>pv_pending := pv_pending (vd_priv d ! i) AND NOT (push_bit intid 1)\<rparr>)
      else d\<lparr>vd_pending := (vd_pending d)[intid div 32 := vd_pending d ! (intid div 32) AND NOT (push_bit (intid mod 32) 1)]\<rparr>)"

definition vdist_raise_private :: "gicv3_vdist \<Rightarrow> nat \<Rightarrow> nat \<Rightarrow> gicv3_vdist" where
  "vdist_raise_private d i intid =
     (if i \<ge> VDIST_GICR_FRAMES \<or> intid \<ge> NR_PRIVATE then d
      else set_priv d i ((vd_priv d ! i)\<lparr>pv_pending := pv_pending (vd_priv d ! i) OR push_bit intid 1\<rparr>))"

text \<open>The fields of \<open>ICC_SGI1R_EL1\<close> and the virtual CPUs they select.\<close>

definition sgi_field :: "64 word \<Rightarrow> nat \<Rightarrow> 64 word \<Rightarrow> nat" where
  "sgi_field sgi1r sh msk = unat (drop_bit sh sgi1r AND msk)"

definition sgi_target :: "gicv3_vdist \<Rightarrow> nat \<Rightarrow> 64 word \<Rightarrow> nat \<Rightarrow> bool" where
  "sgi_target d from sgi1r i \<longleftrightarrow>
     pv_present (vd_priv d ! i) \<and>
     (if drop_bit 40 sgi1r AND 1 \<noteq> 0 then i \<noteq> from
      else let aff0 = unat (vdist_mpidr i AND 0xFF) in
        sgi_field sgi1r 16 0xFF = 0 \<and> sgi_field sgi1r 32 0xFF = 0 \<and> sgi_field sgi1r 48 0xFF = 0 \<and>
        aff0 div 16 = sgi_field sgi1r 44 0xF \<and> (sgi1r AND 0xFFFF) AND push_bit (aff0 mod 16) 1 \<noteq> 0)"

definition vdist_sgi :: "gicv3_vdist \<Rightarrow> nat \<Rightarrow> 64 word \<Rightarrow> gicv3_vdist \<times> nat" where
  "vdist_sgi d from sgi1r =
     (let sgi = sgi_field sgi1r 24 0xF;
          (d, hit) = fold (\<lambda>i (d, hit).
            if sgi_target d from sgi1r i
            then (set_priv d i ((vd_priv d ! i)\<lparr>pv_pending := pv_pending (vd_priv d ! i) OR push_bit sgi 1\<rparr>), hit + 1)
            else (d, hit)) [0..<VDIST_GICR_FRAMES] (d, 0)
      in (d\<lparr>vd_sgis := u64 (vd_sgis d + hit)\<rparr>, hit))"

definition vdist_raise_spi :: "gicv3_vdist \<Rightarrow> nat \<Rightarrow> gicv3_vdist \<times> bool" where
  "vdist_raise_spi d intid =
     (if intid < NR_PRIVATE \<or> intid \<ge> VDIST_NR_LINES then (d, False)
      else (d\<lparr>vd_pending := (vd_pending d)[intid div 32 := vd_pending d ! (intid div 32) OR push_bit (intid mod 32) 1],
              vd_spis_raised := u64 (vd_spis_raised d + 1)\<rparr>, True))"

definition vdist_lower_spi :: "gicv3_vdist \<Rightarrow> nat \<Rightarrow> gicv3_vdist \<times> bool" where
  "vdist_lower_spi d intid =
     (if intid < NR_PRIVATE \<or> intid \<ge> VDIST_NR_LINES then (d, False)
      else (d\<lparr>vd_pending := (vd_pending d)[intid div 32 := vd_pending d ! (intid div 32) AND NOT (push_bit (intid mod 32) 1)]\<rparr>, True))"

section \<open>Access decoding\<close>

datatype window = WIN_NONE | WIN_GICD nat | WIN_GICR nat nat

definition locate :: "nat \<Rightarrow> window" where
  "locate gpa =
     (if gpa \<ge> VDIST_GICD_BASE \<and> gpa < VDIST_GICD_BASE + VDIST_GICD_SIZE then WIN_GICD (gpa - VDIST_GICD_BASE)
      else if gpa \<ge> VDIST_GICR_BASE \<and> gpa < VDIST_GICR_BASE + VDIST_GICR_STRIDE * VDIST_GICR_FRAMES
        then WIN_GICR ((gpa - VDIST_GICR_BASE) div VDIST_GICR_STRIDE) ((gpa - VDIST_GICR_BASE) mod VDIST_GICR_STRIDE)
      else WIN_NONE)"

text \<open>The two word accessors of a window that was found: the frame is \<open>None\<close> for the distributor.\<close>

definition word_rd :: "gicv3_vdist \<Rightarrow> nat option \<Rightarrow> nat \<Rightarrow> 32 word option" where
  "word_rd d frame off = (case frame of None \<Rightarrow> gicd_rd d off | Some i \<Rightarrow> gicr_rd d i off)"

definition word_wr :: "gicv3_vdist \<Rightarrow> nat option \<Rightarrow> nat \<Rightarrow> 32 word \<Rightarrow> 32 word \<Rightarrow> gicv3_vdist option" where
  "word_wr d frame off val msk = (case frame of None \<Rightarrow> gicd_wr d off val msk | Some i \<Rightarrow> gicr_wr d i off val msk)"

definition lane_mask :: "nat \<Rightarrow> nat \<Rightarrow> 32 word" where
  "lane_mask sz shift = (if sz = 4 then 0xFFFFFFFF else push_bit shift (push_bit (sz * 8) 1 - 1))"

definition mmio_read :: "gicv3_vdist \<Rightarrow> nat option \<Rightarrow> nat \<Rightarrow> nat \<Rightarrow> 64 word option" where
  "mmio_read d frame off sz =
     (if sz = 8
      then let lo = align_down off 8 in
        do { a \<leftarrow> word_rd d frame lo; b \<leftarrow> word_rd d frame (lo + 4); Some (ucast a OR push_bit 32 (ucast b)) }
      else let shift = (off AND 3) * 8 in
        do { a \<leftarrow> word_rd d frame (align_down off 4); Some (ucast (drop_bit shift (a AND lane_mask sz shift))) })"

definition mmio_write :: "gicv3_vdist \<Rightarrow> nat option \<Rightarrow> nat \<Rightarrow> nat \<Rightarrow> 64 word \<Rightarrow> gicv3_vdist option" where
  "mmio_write d frame off sz val =
     (if sz = 8
      then let lo = align_down off 8 in
        do { d \<leftarrow> word_wr d frame lo (ucast val) 0xFFFFFFFF;
             word_wr d frame (lo + 4) (ucast (drop_bit 32 val)) 0xFFFFFFFF }
      else let shift = (off AND 3) * 8 in
        word_wr d frame (align_down off 4) (ucast (push_bit shift val)) (lane_mask sz shift))"

definition access :: "gicv3_vdist \<Rightarrow> nat option \<Rightarrow> nat \<Rightarrow> nat \<Rightarrow> bool \<Rightarrow> 64 word \<Rightarrow> (bool \<times> gicv3_vdist \<times> 64 word) option" where
  "access d frame off sz wr val =
     (let sz = (if sz \<noteq> 1 \<and> sz \<noteq> 2 \<and> sz \<noteq> 4 \<and> sz \<noteq> 8 then 4 else sz);
          off = (if off AND (sz - 1) \<noteq> 0 then align_down off sz else off)
      in if wr
         then do { d \<leftarrow> mmio_write (d\<lparr>vd_writes := u64 (vd_writes d + 1)\<rparr>) frame off sz val; Some (True, d, val) }
         else let d = d\<lparr>vd_reads := u64 (vd_reads d + 1)\<rparr> in do { v \<leftarrow> mmio_read d frame off sz; Some (True, d, v) })"

definition vdist_mmio :: "gicv3_vdist \<Rightarrow> nat \<Rightarrow> nat \<Rightarrow> bool \<Rightarrow> 64 word \<Rightarrow> (bool \<times> gicv3_vdist \<times> 64 word) option" where
  "vdist_mmio d gpa sz wr val =
     (case locate gpa of
        WIN_NONE \<Rightarrow> Some (False, d, val)
      | WIN_GICD off \<Rightarrow> access d None off sz wr val
      | WIN_GICR frame off \<Rightarrow> access d (Some frame) off sz wr val)"

end
