(* ===== verification/Vdist_Inv.thy ===== *)
theory Vdist_Inv
  imports Vdist
begin

text \<open>
  What every operation of the virtual distributor keeps, and that no access of a guest leaves the
  register arrays.
\<close>

section \<open>The invariant\<close>

text \<open>
  The arrays have their sizes, the words that stand for the private interrupts stay zero in the
  distributor, and the registers hold only the bits a write may set.
\<close>

definition priv_ok :: "vdist_private \<Rightarrow> bool" where
  "priv_ok p \<longleftrightarrow> length (pv_prio p) = NR_PRIVATE \<and> pv_waker p AND NOT GICR_WAKER_PS = 0"

definition shared_ok :: "32 word list \<Rightarrow> bool" where
  "shared_ok ws \<longleftrightarrow> length ws = NR_WORDS \<and> ws ! 0 = 0"

definition lines_ok :: "('a::zero \<Rightarrow> bool) \<Rightarrow> 'a list \<Rightarrow> bool" where
  "lines_ok P xs \<longleftrightarrow> length xs = VDIST_NR_LINES \<and> (\<forall>i<NR_PRIVATE. xs ! i = 0) \<and> (\<forall>i<VDIST_NR_LINES. P (xs ! i))"

definition vd_inv :: "gicv3_vdist \<Rightarrow> bool" where
  "vd_inv d \<longleftrightarrow>
     vd_ctlr d AND NOT GICD_CTLR_KEEP = 0 \<and> shared_ok (vd_group d) \<and> shared_ok (vd_enable d) \<and> shared_ok (vd_pending d) \<and>
     (length (vd_cfg d) = NR_WORDS * 2 \<and> vd_cfg d ! 0 = 0 \<and> vd_cfg d ! 1 = 0) \<and>
     lines_ok (\<lambda>x. True) (vd_prio d) \<and> lines_ok (\<lambda>r. r AND NOT IROUTER_KEEP = 0) (vd_irouter d) \<and>
     length (vd_priv d) = VDIST_GICR_FRAMES \<and> (\<forall>p\<in>set (vd_priv d). priv_ok p)"

lemma shared_ok_update: "shared_ok ws \<Longrightarrow> n \<noteq> 0 \<Longrightarrow> shared_ok (ws[n := x])"
  by (simp add: shared_ok_def)

lemma lines_ok_update: "lines_ok P xs \<Longrightarrow> NR_PRIVATE \<le> i \<Longrightarrow> P x \<Longrightarrow> lines_ok P (xs[i := x])"
  by (cases "i < length xs") (auto simp: lines_ok_def nth_list_update)

lemma inv_counters [simp]:
  "vd_inv (d\<lparr>vd_reads := n\<rparr>) = vd_inv d" "vd_inv (d\<lparr>vd_writes := n\<rparr>) = vd_inv d"
  "vd_inv (d\<lparr>vd_sgis := n\<rparr>) = vd_inv d" "vd_inv (d\<lparr>vd_spis_raised := n\<rparr>) = vd_inv d"
  by (simp_all add: vd_inv_def)

lemma inv_pending: "vd_inv d \<Longrightarrow> n \<noteq> 0 \<Longrightarrow> vd_inv (d\<lparr>vd_pending := (vd_pending d)[n := x]\<rparr>)"
  by (simp add: vd_inv_def shared_ok_update)

lemma inv_set_priv:
  assumes "vd_inv d" and "priv_ok p"
  shows "vd_inv (set_priv d i p)"
  using assms set_update_subset_insert [of "vd_priv d" i p] by (auto simp: vd_inv_def set_priv_def)

lemma inv_priv: "vd_inv d \<Longrightarrow> i < VDIST_GICR_FRAMES \<Longrightarrow> priv_ok (vd_priv d ! i)"
  by (simp add: vd_inv_def)

lemma inv_length_priv: "vd_inv d \<Longrightarrow> length (vd_priv d) = VDIST_GICR_FRAMES"
  by (simp add: vd_inv_def)

section \<open>Register accesses\<close>

lemma modify_in: "i < length xs \<Longrightarrow> modify f xs i = Some (xs[i := f (xs ! i)])"
  by (simp add: modify_def fetch_def store_def)

lemma fetch_in: "i < length xs \<Longrightarrow> fetch xs i = Some (xs ! i)"
  by (simp add: fetch_def)

lemma bank_word:
  assumes "within off base (NR_WORDS * 4)" and "base mod 128 = 0"
  shows "(off AND 0x7F) div 4 = (off - base) div 4" "(off AND 0x7F) div 4 < NR_WORDS"
proof -
  define k where "k = off - base"
  have o: "off = base + k" "k < 36" using assms(1) by (auto simp: within_def k_def sizes)
  have "off AND 0x7F = off mod 128" using take_bit_eq_mask [of 7 off] by (simp add: mask_eq_exp_minus_1 take_bit_eq_mod)
  also have "\<dots> = (base mod 128 + k mod 128) mod 128" unfolding o(1) by (rule mod_add_eq [symmetric])
  also have "\<dots> = k" using assms(2) o(2) by simp
  finally show "(off AND 0x7F) div 4 = (off - base) div 4" by (simp add: k_def)
  then show "(off AND 0x7F) div 4 < NR_WORDS" using o by (simp add: sizes)
qed

lemma prio_word_in: "i + 3 < length prio \<Longrightarrow> \<exists>w. prio_word prio i = Some w"
  by (simp add: prio_word_def fetch_def)

lemma prio_lanes_in:
  assumes "\<forall>b\<in>set bs. b < 4" and "i + 3 < length prio"
  shows "\<exists>prio'. prio_lanes bs prio i val msk = Some prio' \<and> length prio' = length prio \<and> (\<forall>j<i. prio' ! j = prio ! j)"
  using assms
proof (induction bs arbitrary: prio)
  case (Cons b bs)
  define lane :: "32 word" where "lane = push_bit (b * 8) 0xFF"
  define p where "p = (if msk AND lane \<noteq> 0 then prio[i + b := ucast (drop_bit (b * 8) (val AND lane))] else prio)"
  have b: "i + b < length prio" using Cons.prems by simp
  have e: "(if msk AND lane \<noteq> 0 then store prio (i + b) (ucast (drop_bit (b * 8) (val AND lane))) else Some prio) = Some p"
    using b by (simp add: p_def store_def)
  have p: "length p = length prio" "\<forall>j<i. p ! j = prio ! j" by (simp_all add: p_def)
  obtain prio' where "prio_lanes bs p i val msk = Some prio'" "length prio' = length p" "\<forall>j<i. prio' ! j = p ! j"
    using Cons.IH [of p] Cons.prems p(1) by auto
  then show ?case using p unfolding prio_lanes.simps Let_def lane_def [symmetric] e by simp
qed simp

lemma prio_write_in:
  "i + 3 < length prio \<Longrightarrow> \<exists>prio'. prio_word_write prio i val msk = Some prio' \<and> length prio' = length prio \<and> (\<forall>j<i. prio' ! j = prio ! j)"
  unfolding prio_word_write_def by (rule prio_lanes_in) simp_all

text \<open>The interrupt a word of the priority registers starts at: a multiple of four.\<close>

lemma prio_index:
  assumes "within off base n" and "4 dvd off" and "4 dvd base" and "4 dvd n"
  shows "off - base + 3 < n"
proof -
  have "4 dvd off - base" "off - base < n" using assms by (auto simp: within_def)
  then obtain k where k: "off - base = 4 * k" by blast
  obtain m where m: "n = 4 * m" using assms(4) by blast
  show ?thesis using \<open>off - base < n\<close> unfolding k m by simp
qed


lemmas within_facts = within_def sizes gicd_offsets

lemma irouter_index: "within off GICD_IROUTER (VDIST_NR_LINES * 8) \<Longrightarrow> (off - GICD_IROUTER) div 8 < VDIST_NR_LINES"
  by (auto simp: within_facts div_less_iff_less_mult)

lemma icfgr_index: "within off GICD_ICFGR (NR_WORDS * 8) \<Longrightarrow> (off - GICD_ICFGR) div 4 < NR_WORDS * 2"
  by (auto simp: within_facts div_less_iff_less_mult)

lemma banks: "GICD_IGROUPR mod 128 = 0" "GICD_ISENABLER mod 128 = 0" "GICD_ICENABLER mod 128 = 0"
  "GICD_ISPENDR mod 128 = 0" "GICD_ICPENDR mod 128 = 0"
  by (simp_all add: gicd_offsets)

lemma prio_bank: "4 dvd GICD_IPRIORITYR" "4 dvd VDIST_NR_LINES" "4 dvd GICR_IPRIORITYR" "4 dvd NR_PRIVATE" "4 dvd GICR_SGI_BASE"
  by (simp_all add: gicd_offsets gicr_offsets sizes)

lemma gicd_rd_in:
  assumes "vd_inv d" and "4 dvd off"
  shows "\<exists>v. gicd_rd d off = Some v"
proof -
  have l: "length (vd_group d) = NR_WORDS" "length (vd_enable d) = NR_WORDS" "length (vd_pending d) = NR_WORDS"
    "length (vd_cfg d) = NR_WORDS * 2" "length (vd_prio d) = VDIST_NR_LINES" "length (vd_irouter d) = VDIST_NR_LINES"
    using assms(1) by (simp_all add: vd_inv_def shared_ok_def lines_ok_def)
  have p: "\<exists>v. prio_word (vd_prio d) (off - GICD_IPRIORITYR) = Some v" if "within off GICD_IPRIORITYR VDIST_NR_LINES"
    using prio_index [OF that assms(2) prio_bank(1,2)] l(5) by (intro prio_word_in) simp
  have f: "\<exists>v. (if n \<noteq> 0 then fetch ws n else Some 0) = Some v" if "n < length ws" for n and ws :: "32 word list"
    using that by (simp add: fetch_def)
  show ?thesis
    unfolding gicd_rd_def Let_def
    using p bank_word(2) [OF _ banks(1)] bank_word(2) [OF _ banks(2)] bank_word(2) [OF _ banks(3)]
      bank_word(2) [OF _ banks(4)] bank_word(2) [OF _ banks(5)] irouter_index icfgr_index
    by (simp add: fetch_def l)
qed

lemma kept_bits: "(x AND k) AND NOT k = (0 :: 'a::len word)"
  by (simp add: and.assoc)

text \<open>A write to one element of a register array: in range, and the new element allowed.\<close>

lemma modify_shared:
  assumes "shared_ok ws" and "n < NR_WORDS" and "n \<noteq> 0"
  shows "\<exists>x. modify f ws n = Some x \<and> shared_ok x"
  using assms shared_ok_update by (simp add: modify_in shared_ok_def)

lemma inv_fields:
  assumes "vd_inv d"
  shows "shared_ok (vd_group d)" "shared_ok (vd_enable d)" "shared_ok (vd_pending d)"
    "lines_ok (\<lambda>x. True) (vd_prio d)" "lines_ok (\<lambda>r. r AND NOT IROUTER_KEEP = 0) (vd_irouter d)"
    "length (vd_cfg d) = NR_WORDS * 2" "vd_cfg d ! 0 = 0" "vd_cfg d ! 1 = 0"
  using assms by (simp_all add: vd_inv_def)

lemma inv_update:
  assumes "vd_inv d"
  shows "shared_ok x \<Longrightarrow> vd_inv (d\<lparr>vd_group := x\<rparr>)" "shared_ok x \<Longrightarrow> vd_inv (d\<lparr>vd_enable := x\<rparr>)"
    "shared_ok x \<Longrightarrow> vd_inv (d\<lparr>vd_pending := x\<rparr>)" "lines_ok (\<lambda>x. True) y \<Longrightarrow> vd_inv (d\<lparr>vd_prio := y\<rparr>)"
    "lines_ok (\<lambda>r. r AND NOT IROUTER_KEEP = 0) z \<Longrightarrow> vd_inv (d\<lparr>vd_irouter := z\<rparr>)"
    "length x = NR_WORDS * 2 \<Longrightarrow> x ! 0 = 0 \<Longrightarrow> x ! 1 = 0 \<Longrightarrow> vd_inv (d\<lparr>vd_cfg := x\<rparr>)"
    "c AND NOT GICD_CTLR_KEEP = 0 \<Longrightarrow> vd_inv (d\<lparr>vd_ctlr := c\<rparr>)"
  using assms by (simp_all add: vd_inv_def)

definition writes_ok :: "gicv3_vdist option \<Rightarrow> bool" where
  "writes_ok r \<longleftrightarrow> (\<exists>d. r = Some d \<and> vd_inv d)"

lemma writes_ok_Some [simp]: "writes_ok (Some d) = vd_inv d"
  by (simp add: writes_ok_def)

lemma writes_group:
  assumes "vd_inv d" and "within off base (NR_WORDS * 4)" and "base mod 128 = 0" and "(off AND 0x7F) div 4 \<noteq> 0"
  shows "writes_ok (do { x \<leftarrow> modify f (vd_group d) ((off AND 0x7F) div 4); Some (d\<lparr>vd_group := x\<rparr>) })"
    "writes_ok (do { x \<leftarrow> modify f (vd_enable d) ((off AND 0x7F) div 4); Some (d\<lparr>vd_enable := x\<rparr>) })"
    "writes_ok (do { x \<leftarrow> modify f (vd_pending d) ((off AND 0x7F) div 4); Some (d\<lparr>vd_pending := x\<rparr>) })"
  using modify_shared [OF inv_fields(1) [OF assms(1)] bank_word(2) [OF assms(2,3)] assms(4), of f]
    modify_shared [OF inv_fields(2) [OF assms(1)] bank_word(2) [OF assms(2,3)] assms(4), of f]
    modify_shared [OF inv_fields(3) [OF assms(1)] bank_word(2) [OF assms(2,3)] assms(4), of f] inv_update(1-3) [OF assms(1)]
  by auto

lemma writes_prio:
  assumes "vd_inv d" and "within off GICD_IPRIORITYR VDIST_NR_LINES" and "4 dvd off" and "NR_PRIVATE \<le> off - GICD_IPRIORITYR"
  shows "writes_ok (do { x \<leftarrow> prio_word_write (vd_prio d) (off - GICD_IPRIORITYR) val msk; Some (d\<lparr>vd_prio := x\<rparr>) })"
proof -
  note l = inv_fields(4) [OF assms(1)]
  obtain x where x: "prio_word_write (vd_prio d) (off - GICD_IPRIORITYR) val msk = Some x" "length x = length (vd_prio d)"
      "\<forall>j<off - GICD_IPRIORITYR. x ! j = vd_prio d ! j"
    using prio_write_in [of "off - GICD_IPRIORITYR" "vd_prio d" val msk] prio_index [OF assms(2,3) prio_bank(1,2)] l
    by (auto simp: lines_ok_def)
  then have "lines_ok (\<lambda>x. True) x" using l assms(4) by (simp add: lines_ok_def)
  then show ?thesis using x(1) inv_update(4) [OF assms(1)] by simp
qed

lemma writes_cfg:
  assumes "vd_inv d" and "within off GICD_ICFGR (NR_WORDS * 8)" and "2 \<le> (off - GICD_ICFGR) div 4"
  shows "writes_ok (do { x \<leftarrow> modify f (vd_cfg d) ((off - GICD_ICFGR) div 4); Some (d\<lparr>vd_cfg := x\<rparr>) })"
proof -
  define m where "m = (off - GICD_ICFGR) div 4"
  have m: "m < length (vd_cfg d)" "m \<noteq> 0" "m \<noteq> 1" using icfgr_index [OF assms(2)] assms(3) inv_fields(6) [OF assms(1)] by (simp_all add: m_def)
  then have "vd_inv (d\<lparr>vd_cfg := (vd_cfg d)[m := f (vd_cfg d ! m)]\<rparr>)"
    using inv_fields(6-8) [OF assms(1)] by (intro inv_update(6) [OF assms(1)]) simp_all
  then show ?thesis using m(1) by (simp add: modify_in m_def)
qed

lemma writes_irouter:
  assumes "vd_inv d" and "within off GICD_IROUTER (VDIST_NR_LINES * 8)" and "\<not> (off - GICD_IROUTER) div 8 < NR_PRIVATE"
  shows "writes_ok (do { x \<leftarrow> modify (\<lambda>r. g r AND IROUTER_KEEP) (vd_irouter d) ((off - GICD_IROUTER) div 8); Some (d\<lparr>vd_irouter := x\<rparr>) })"
proof -
  define m where "m = (off - GICD_IROUTER) div 8"
  have m: "m < length (vd_irouter d)" "NR_PRIVATE \<le> m"
    using irouter_index [OF assms(2)] assms(3) inv_fields(5) [OF assms(1)] by (simp_all add: m_def lines_ok_def)
  have "lines_ok (\<lambda>r. r AND NOT IROUTER_KEEP = 0) ((vd_irouter d)[m := g (vd_irouter d ! m) AND IROUTER_KEEP])"
    using inv_fields(5) [OF assms(1)] m(2) kept_bits by (rule lines_ok_update)
  then show ?thesis using m(1) inv_update(5) [OF assms(1)] by (simp add: modify_in m_def)
qed

lemma writes_if: "(c \<Longrightarrow> writes_ok a) \<Longrightarrow> (\<not> c \<Longrightarrow> writes_ok b) \<Longrightarrow> writes_ok (if c then a else b)"
  by simp

lemma word_not_zero:
  assumes "\<not> ((off AND 0x7F) div 4 = 0 \<and> GICD_IGROUPR \<le> off \<and> off < GICD_ICPENDR + NR_WORDS * 4)"
    and "within off b (NR_WORDS * 4)" and "GICD_IGROUPR \<le> b" and "b \<le> GICD_ICPENDR"
  shows "(off AND 0x7F) div 4 \<noteq> 0"
  using assms by (auto simp: within_def)

lemma bank_order: "GICD_IGROUPR \<le> GICD_IGROUPR" "GICD_IGROUPR \<le> GICD_ICPENDR" "GICD_IGROUPR \<le> GICD_ISENABLER"
  "GICD_ISENABLER \<le> GICD_ICPENDR" "GICD_IGROUPR \<le> GICD_ICENABLER" "GICD_ICENABLER \<le> GICD_ICPENDR"
  "GICD_IGROUPR \<le> GICD_ISPENDR" "GICD_ISPENDR \<le> GICD_ICPENDR" "GICD_ICPENDR \<le> GICD_ICPENDR"
  by (simp_all add: gicd_offsets)

lemma gicd_wr_in:
  assumes "vd_inv d" and "4 dvd off"
  shows "writes_ok (gicd_wr d off val msk)"
proof -
  have c: "writes_ok (Some (d\<lparr>vd_ctlr := x AND GICD_CTLR_KEEP\<rparr>))" for x
    using inv_update(7) [OF assms(1) kept_bits] by simp
  have s: "writes_ok (Some d)" using assms(1) by simp
  note w = writes_group [OF assms(1)]
  show ?thesis unfolding gicd_wr_def Let_def
    by (intro writes_if;
      (rule c | rule s | (rule w(1) [OF _ banks(1) word_not_zero [OF _ _ bank_order(1,2)]]; assumption)
        | (rule w(2) [OF _ banks(2) word_not_zero [OF _ _ bank_order(3,4)]]; assumption)
        | (rule w(2) [OF _ banks(3) word_not_zero [OF _ _ bank_order(5,6)]]; assumption)
        | (rule w(3) [OF _ banks(4) word_not_zero [OF _ _ bank_order(7,8)]]; assumption)
        | (rule w(3) [OF _ banks(5) word_not_zero [OF _ _ bank_order(2,9)]]; assumption)
        | (rule writes_prio [OF assms(1) _ assms(2)]; assumption)
        | (rule writes_cfg [OF assms(1)]; assumption) | (rule writes_irouter [OF assms(1)]; assumption)))
qed

lemma sgi_index:
  assumes "4 dvd off" and "within (off - GICR_SGI_BASE) GICR_IPRIORITYR NR_PRIVATE"
  shows "off - GICR_SGI_BASE - GICR_IPRIORITYR + 3 < NR_PRIVATE"
  by (rule prio_index [OF assms(2) dvd_diff_nat [OF assms(1) prio_bank(5)] prio_bank(3,4)])

lemma gicr_rd_in:
  assumes "vd_inv d" and "4 dvd off" and "i < VDIST_GICR_FRAMES"
  shows "\<exists>v. gicr_rd d i off = Some v"
proof -
  define p where "p = vd_priv d ! i"
  have f: "fetch (vd_priv d) i = Some p" using assms(1,3) by (simp add: fetch_def inv_length_priv p_def)
  have p: "length (pv_prio p) = NR_PRIVATE" using inv_priv [OF assms(1,3)] by (simp add: p_def priv_ok_def)
  have "\<exists>v. prio_word (pv_prio p) (off - GICR_SGI_BASE - GICR_IPRIORITYR) = Some v"
    if "within (off - GICR_SGI_BASE) GICR_IPRIORITYR NR_PRIVATE"
    using prio_word_in sgi_index [OF assms(2) that] p by simp
  then show ?thesis unfolding gicr_rd_def f Let_def by simp
qed

lemma gicr_wr_in:
  assumes "vd_inv d" and "4 dvd off" and "i < VDIST_GICR_FRAMES"
  shows "writes_ok (gicr_wr d i off val msk)"
proof -
  define p where "p = vd_priv d ! i"
  have f: "fetch (vd_priv d) i = Some p" using assms(1,3) by (simp add: fetch_def inv_length_priv p_def)
  have p: "priv_ok p" using inv_priv [OF assms(1,3)] by (simp add: p_def)
  have s: "writes_ok (Some d)" using assms(1) by simp
  have u: "writes_ok (Some (set_priv d i q))" if "priv_ok q" for q using inv_set_priv [OF assms(1) that] by simp
  have q: "priv_ok (p\<lparr>pv_waker := x AND GICR_WAKER_PS\<rparr>)" "priv_ok (p\<lparr>pv_group := y\<rparr>)" "priv_ok (p\<lparr>pv_enable := y\<rparr>)"
    "priv_ok (p\<lparr>pv_pending := y\<rparr>)" "priv_ok (p\<lparr>pv_cfg1 := y\<rparr>)" for x y
    using p kept_bits by (simp_all add: priv_ok_def)
  have w: "writes_ok (do { x \<leftarrow> prio_word_write (pv_prio p) (off - GICR_SGI_BASE - GICR_IPRIORITYR) val msk; Some (set_priv d i (p\<lparr>pv_prio := x\<rparr>)) })"
    if "within (off - GICR_SGI_BASE) GICR_IPRIORITYR NR_PRIVATE"
  proof -
    have "off - GICR_SGI_BASE - GICR_IPRIORITYR + 3 < length (pv_prio p)"
      using sgi_index [OF assms(2) that] p by (simp add: priv_ok_def)
    from prio_write_in [OF this, of val msk] obtain x where "prio_word_write (pv_prio p) (off - GICR_SGI_BASE - GICR_IPRIORITYR) val msk = Some x"
        "length x = length (pv_prio p)" by blast
    then show ?thesis using u [of "p\<lparr>pv_prio := x\<rparr>"] p by (simp add: priv_ok_def)
  qed
  show ?thesis unfolding gicr_wr_def f bind.bind_lunit Let_def
    by (intro writes_if; (rule s | rule u [OF q(1)] | rule u [OF q(2)] | rule u [OF q(3)] | rule u [OF q(4)] | rule u [OF q(5)]
        | (rule w; assumption)))
qed

section \<open>Guest accesses\<close>

definition frame_ok :: "nat option \<Rightarrow> bool" where
  "frame_ok frame = (case frame of None \<Rightarrow> True | Some i \<Rightarrow> i < VDIST_GICR_FRAMES)"

lemma word_rd_in: "vd_inv d \<Longrightarrow> frame_ok frame \<Longrightarrow> 4 dvd off \<Longrightarrow> \<exists>v. word_rd d frame off = Some v"
  using gicd_rd_in gicr_rd_in by (auto simp: word_rd_def frame_ok_def split: option.splits)

lemma word_wr_in: "vd_inv d \<Longrightarrow> frame_ok frame \<Longrightarrow> 4 dvd off \<Longrightarrow> writes_ok (word_wr d frame off val msk)"
  using gicd_wr_in gicr_wr_in by (auto simp: word_wr_def frame_ok_def split: option.splits)

lemma aligned8: "4 dvd align_down off 8" "4 dvd align_down off 8 + 4"
proof -
  have "(4 :: nat) dvd 8" by simp
  then show "4 dvd align_down off 8" by (rule dvd_trans [OF _ align_down_dvd])
  then show "4 dvd align_down off 8 + 4" by simp
qed

lemma mmio_read_in:
  assumes "vd_inv d" and "frame_ok frame"
  shows "\<exists>v. mmio_read d frame off sz = Some v"
proof (cases "sz = 8")
  case True
  obtain a b where "word_rd d frame (align_down off 8) = Some a" "word_rd d frame (align_down off 8 + 4) = Some b"
    using word_rd_in [OF assms aligned8(1)] word_rd_in [OF assms aligned8(2)] by blast
  then show ?thesis using True by (simp add: mmio_read_def Let_def)
next
  case False
  obtain a where "word_rd d frame (align_down off 4) = Some a" using word_rd_in [OF assms align_down_dvd] by blast
  then show ?thesis using False by (simp add: mmio_read_def Let_def)
qed

lemma mmio_write_in:
  assumes "vd_inv d" and "frame_ok frame"
  shows "writes_ok (mmio_write d frame off sz val)"
proof (cases "sz = 8")
  case True
  obtain d' where d': "word_wr d frame (align_down off 8) (ucast val) 0xFFFFFFFF = Some d'" "vd_inv d'"
    using word_wr_in [OF assms aligned8(1)] unfolding writes_ok_def by blast
  then show ?thesis using True word_wr_in [OF d'(2) assms(2) aligned8(2)] by (simp add: mmio_write_def Let_def)
next
  case False
  then show ?thesis using word_wr_in [OF assms align_down_dvd] by (simp add: mmio_write_def Let_def)
qed

lemma access_in:
  assumes "vd_inv d" and "frame_ok frame"
  shows "\<exists>ok d' v. access d frame off sz wr val = Some (ok, d', v) \<and> vd_inv d'"
proof -
  have i: "vd_inv (d\<lparr>vd_writes := u64 (vd_writes d + 1)\<rparr>)" "vd_inv (d\<lparr>vd_reads := u64 (vd_reads d + 1)\<rparr>)"
    using assms(1) by simp_all
  show ?thesis
  proof (cases wr)
    case True
    then show ?thesis using mmio_write_in [OF i(1) assms(2)] unfolding access_def Let_def writes_ok_def by (metis bind.bind_lunit)
  next
    case False
    then show ?thesis using mmio_read_in [OF i(2) assms(2)] i(2) unfolding access_def Let_def by (metis bind.bind_lunit)
  qed
qed

lemma locate_frame: "locate gpa = WIN_GICR i off \<Longrightarrow> i < VDIST_GICR_FRAMES"
  by (auto simp: locate_def sizes div_less_iff_less_mult split: if_splits)

lemma mmio_in:
  assumes "vd_inv d"
  shows "\<exists>ok d' v. vdist_mmio d gpa sz wr val = Some (ok, d', v) \<and> vd_inv d'"
proof (cases "locate gpa")
  case WIN_NONE
  then show ?thesis using assms by (auto simp: vdist_mmio_def)
next
  case (WIN_GICD off)
  then show ?thesis using access_in [OF assms, of None] by (simp add: vdist_mmio_def frame_ok_def)
next
  case (WIN_GICR i off)
  then show ?thesis using access_in [OF assms, of "Some i"] locate_frame by (simp add: vdist_mmio_def frame_ok_def)
qed

end
