(* ===== verification/Vdist_Props.thy ===== *)
theory Vdist_Props
  imports Vdist_Inv
begin

text \<open>
  The virtual distributor as a state machine: what the guest and the hypervisor can make of it, the
  interrupt it chooses, and whom a software-generated interrupt reaches.
\<close>

section \<open>Reachable states\<close>

text \<open>
  One operation on the distributor: an access of the guest, at any address and of any size and
  value, or a call of the hypervisor.
\<close>

inductive vstep :: "gicv3_vdist \<Rightarrow> gicv3_vdist \<Rightarrow> bool" where
  mmio: "vdist_mmio d gpa sz wr val = Some (ok, d', v) \<Longrightarrow> vstep d d'"
| present: "vstep d (vdist_vcpu_present d i b)"
| ack: "vstep d (vdist_ack d i intid)"
| raise_private: "vstep d (vdist_raise_private d i intid)"
| sgi: "vstep d (fst (vdist_sgi d from sgi1r))"
| raise_spi: "vstep d (fst (vdist_raise_spi d intid))"
| lower_spi: "vstep d (fst (vdist_lower_spi d intid))"

inductive vreach :: "gicv3_vdist \<Rightarrow> bool" where
  create: "vreach vdist_create"
| step: "vreach d \<Longrightarrow> vstep d d' \<Longrightarrow> vreach d'"

lemma create_inv: "vd_inv vdist_create"
  by (simp add: vd_inv_def vdist_create_def shared_ok_def lines_ok_def priv_ok_def sizes)

lemma spi_word: "NR_PRIVATE \<le> intid \<Longrightarrow> intid div 32 \<noteq> 0"
  by (simp add: NR_PRIVATE_def div_eq_0_iff)

lemma inv_pending_bits:
  assumes "vd_inv d" and "i < VDIST_GICR_FRAMES"
  shows "vd_inv (set_priv d i ((vd_priv d ! i)\<lparr>pv_pending := x\<rparr>))" "vd_inv (set_priv d i ((vd_priv d ! i)\<lparr>pv_present := b\<rparr>))"
  using inv_priv [OF assms] by (intro inv_set_priv [OF assms(1)], simp add: priv_ok_def)+

lemma vdist_sgi_inv: "vd_inv d \<Longrightarrow> vd_inv (fst (vdist_sgi d from sgi1r))"
proof -
  define f where "f = (\<lambda>i (d, hit). if sgi_target d from sgi1r i
            then (set_priv d i ((vd_priv d ! i)\<lparr>pv_pending := pv_pending (vd_priv d ! i) OR push_bit (sgi_field sgi1r 24 0xF) 1\<rparr>), hit + 1)
            else (d, hit :: nat))"
  have "vd_inv d \<Longrightarrow> vd_inv (fst (fold f is (d, hit)))" if "\<forall>i\<in>set is. i < VDIST_GICR_FRAMES" for "is" d hit
    using that by (induction "is" arbitrary: d hit) (simp_all add: f_def inv_pending_bits)
  moreover assume "vd_inv d"
  ultimately have "vd_inv (fst (fold f [0..<VDIST_GICR_FRAMES] (d, 0)))" by simp
  then show ?thesis by (simp add: vdist_sgi_def Let_def f_def [symmetric] split_beta)
qed

lemma vstep_inv: "vstep d d' \<Longrightarrow> vd_inv d \<Longrightarrow> vd_inv d'"
proof (induction rule: vstep.induct)
  case (mmio d gpa sz wr val ok d' v)
  then show ?case using mmio_in [of d gpa sz wr val] by auto
next
  case (present d i b)
  then show ?case by (simp add: vdist_vcpu_present_def inv_pending_bits)
next
  case (ack d i intid)
  then show ?case by (simp add: vdist_ack_def inv_pending_bits inv_pending spi_word)
next
  case (raise_private d i intid)
  then show ?case by (simp add: vdist_raise_private_def inv_pending_bits)
next
  case (sgi d "from" sgi1r)
  then show ?case by (rule vdist_sgi_inv)
next
  case (raise_spi d intid)
  then show ?case using inv_pending [of d "intid div 32"] spi_word by (auto simp: vdist_raise_spi_def vd_inv_def)
next
  case (lower_spi d intid)
  then show ?case by (simp add: vdist_lower_spi_def inv_pending spi_word)
qed

lemma vreach_inv: "vreach d \<Longrightarrow> vd_inv d"
  by (induction rule: vreach.induct) (auto intro: create_inv vstep_inv)

text \<open>
  C10. No access of a guest leaves the distributor's memory. In every state that guest accesses and
  hypervisor calls can reach, an access at any guest address, of any size and with any value, is
  answered without an index outside one of the register arrays, and the configuration bits that the
  distributor keeps for the private interrupts and the reserved bits of its registers are zero.
\<close>

theorem vdist_mmio_safe:
  assumes "vreach d"
  shows "vd_inv d \<and> (\<exists>ok d' v. vdist_mmio d gpa sz wr val = Some (ok, d', v) \<and> vd_inv d')"
  using vreach_inv [OF assms] mmio_in by blast

theorem vdist_mmio_safe_witness:
  "vd_inv (vdist_raise_private vdist_create 1 27) \<and>
    (\<exists>ok d' v. vdist_mmio (vdist_raise_private vdist_create 1 27) 0x0800011D 8 True 0xFFFFFFFF = Some (ok, d', v) \<and> vd_inv d')"
  by (rule vdist_mmio_safe) (rule vreach.step [OF vreach.create vstep.raise_private])


section \<open>The next interrupt of a virtual CPU\<close>

lemma has_bit: "w AND push_bit k 1 = 0 \<longleftrightarrow> \<not> bit (w :: 32 word) k"
  using has_flag [of w k] unfolding has_def flag_def by blast

lemma deliverable_private_bit:
  assumes "deliverable_locked d i intid = Some pr" and "intid < NR_PRIVATE"
  shows "bit (pv_pending (vd_priv d ! i) AND pv_enable (vd_priv d ! i) AND pv_group (vd_priv d ! i)) intid"
  using assms has_bit [of "pv_pending (vd_priv d ! i) AND pv_enable (vd_priv d ! i) AND pv_group (vd_priv d ! i)" intid]
  by (auto simp: deliverable_locked_def Let_def and.assoc split: if_splits)

lemma deliverable_shared_bit:
  assumes "deliverable_locked d i intid = Some pr" and "\<not> intid < NR_PRIVATE"
  shows "bit (vd_pending d ! (intid div 32) AND vd_enable d ! (intid div 32) AND vd_group d ! (intid div 32)) (intid mod 32)"
  using assms has_bit [of "vd_pending d ! (intid div 32) AND vd_enable d ! (intid div 32) AND vd_group d ! (intid div 32)" "intid mod 32"]
  by (auto simp: deliverable_locked_def Let_def and.assoc split: if_splits)

lemma deliverable_line: "deliverable_locked d i intid = Some pr \<Longrightarrow> intid < VDIST_NR_LINES"
  by (simp add: deliverable_locked_def split: if_splits)

lemma scan_irqs_fold:
  assumes "\<And>b. b < n \<Longrightarrow> deliverable_locked d i (k + b) \<noteq> None \<Longrightarrow> bit w b" and "\<And>b. bit w b \<Longrightarrow> b < n"
  shows "scan_irqs d i k w best = fold (consider_intid d i) [k..<k + n] best"
  using assms
proof (induction n arbitrary: k w best)
  case 0
  have "w = 0" by (rule bit_word_eqI) (use 0(2) in auto)
  then show ?case by (simp add: scan_irqs.simps)
next
  case (Suc n)
  have r: "[k..<k + Suc n] = k # [k + 1..<k + 1 + n]" by (simp add: upt_rec)
  have z: "w AND 1 \<noteq> 0 \<longleftrightarrow> bit w 0" using has_bit [of w 0] by simp
  have c: "(if w AND 1 \<noteq> 0 then consider_intid d i k best else best) = consider_intid d i k best"
    using Suc.prems(1) [of 0] z by (auto simp: consider_intid_def split: option.splits)
  have "scan_irqs d i (k + 1) (drop_bit 1 w) b = fold (consider_intid d i) [k + 1..<k + 1 + n] b" for b
    using Suc.prems(1) [of "Suc _"] Suc.prems(2) [of "Suc _"] by (intro Suc.IH) (auto simp: bit_drop_bit_eq)
  moreover have "scan_irqs d i k w best = scan_irqs d i (k + 1) (drop_bit 1 w) (consider_intid d i k best)"
  proof (cases "w = 0")
    case True
    then have "deliverable_locked d i k = None" using Suc.prems(1) [of 0] by (cases "deliverable_locked d i k") auto
    then show ?thesis using True by (simp add: scan_irqs.simps consider_intid_def)
  next
    case False
    then show ?thesis using c by (subst scan_irqs.simps) simp
  qed
  ultimately show ?case unfolding r by simp
qed

lemma fold_words: "a \<le> b \<Longrightarrow> fold (\<lambda>n. fold f [n * 32..<n * 32 + 32]) [a..<b] = fold f [a * 32..<b * 32]"
proof (induction b)
  case (Suc b)
  show ?case
  proof (cases "a = Suc b")
    case False
    then have ab: "a \<le> b" using Suc.prems by simp
    have "[a * 32..<Suc b * 32] = [a * 32..<b * 32] @ [b * 32..<b * 32 + 32]"
      using ab upt_add_eq_append [of "a * 32" "b * 32" 32] by (simp add: add.commute)
    then show ?thesis using Suc.IH [OF ab] ab by simp
  qed simp
qed simp

lemma pending_for_fold:
  assumes "i < VDIST_GICR_FRAMES"
  shows "vdist_pending_for d i =
    (case fold (consider_intid d i) [0..<VDIST_NR_LINES] (None, VDIST_PRIO_IDLE) of (None, _) \<Rightarrow> None | (Some intid, pr) \<Rightarrow> Some (intid, pr))"
proof -
  define p where "p = vd_priv d ! i"
  have bit32: "b < 32" if "bit w b" for w :: "32 word" and b using bit_imp_le_length [OF that] by simp
  have a: "scan_irqs d i 0 (pv_pending p AND pv_enable p AND pv_group p) best = fold (consider_intid d i) [0..<32] best" for best
    using scan_irqs_fold [of 32 d i 0 "pv_pending p AND pv_enable p AND pv_group p" best] deliverable_private_bit bit32
    by (auto simp: p_def NR_PRIVATE_def)
  have b: "scan_irqs d i (n * 32) (vd_pending d ! n AND vd_enable d ! n AND vd_group d ! n) best = fold (consider_intid d i) [n * 32..<n * 32 + 32] best"
    if "n \<in> set [1..<NR_WORDS]" for n best
  proof (rule scan_irqs_fold)
    fix b
    assume b: "b < 32" "deliverable_locked d i (n * 32 + b) \<noteq> None"
    then have "(n * 32 + b) div 32 = n" "(n * 32 + b) mod 32 = b" "\<not> n * 32 + b < NR_PRIVATE" using that by (simp_all add: NR_PRIVATE_def)
    then show "bit (vd_pending d ! n AND vd_enable d ! n AND vd_group d ! n) b"
      using b(2) deliverable_shared_bit [of d i "n * 32 + b"] by auto
  qed (rule bit32)
  have "fold (\<lambda>n. scan_irqs d i (n * 32) (vd_pending d ! n AND vd_enable d ! n AND vd_group d ! n)) [1..<NR_WORDS] best =
      fold (\<lambda>n. fold (consider_intid d i) [n * 32..<n * 32 + 32]) [1..<NR_WORDS] best" for best
    by (rule fold_cong [OF refl refl]) (use b in blast)
  also have "\<dots> best = fold (consider_intid d i) [32..<VDIST_NR_LINES] best" for best
    using fold_words [of 1 NR_WORDS "consider_intid d i"] by (simp add: sizes)
  finally have "fold (\<lambda>n. scan_irqs d i (n * 32) (vd_pending d ! n AND vd_enable d ! n AND vd_group d ! n)) [1..<NR_WORDS]
      (fold (consider_intid d i) [0..<32] best) = fold (consider_intid d i) [0..<VDIST_NR_LINES] best" for best
    using upt_add_eq_append [of 0 32 256] by (simp add: VDIST_NR_LINES_def)
  then show ?thesis using assms by (simp add: vdist_pending_for_def Let_def a p_def [symmetric])
qed

text \<open>What is chosen among the first interrupts: the least priority value, and among equals the least number.\<close>

definition best_below :: "gicv3_vdist \<Rightarrow> nat \<Rightarrow> nat \<Rightarrow> nat option \<times> 8 word \<Rightarrow> bool" where
  "best_below d i m best \<longleftrightarrow>
     (case best of
        (None, bp) \<Rightarrow> bp = VDIST_PRIO_IDLE \<and> (\<forall>j<m. \<forall>pr. deliverable_locked d i j = Some pr \<longrightarrow> VDIST_PRIO_IDLE \<le> pr)
      | (Some k, bp) \<Rightarrow> k < m \<and> deliverable_locked d i k = Some bp \<and> bp < VDIST_PRIO_IDLE \<and>
          (\<forall>j<m. \<forall>pr. deliverable_locked d i j = Some pr \<longrightarrow> bp \<le> pr \<and> (j < k \<longrightarrow> bp < pr)))"

lemma fold_best: "best_below d i m (fold (consider_intid d i) [0..<m] (None, VDIST_PRIO_IDLE))"
proof (induction m)
  case 0
  then show ?case by (simp add: best_below_def)
next
  case (Suc m)
  define best where "best = fold (consider_intid d i) [0..<m] (None, VDIST_PRIO_IDLE)"
  have IH: "best_below d i m best" using Suc by (simp add: best_def)
  have e: "fold (consider_intid d i) [0..<Suc m] (None, VDIST_PRIO_IDLE) = consider_intid d i m best" by (simp add: best_def)
  show ?case unfolding e
  proof (cases "deliverable_locked d i m")
    case None
    then show "best_below d i (Suc m) (consider_intid d i m best)"
      using IH by (auto simp: best_below_def consider_intid_def less_Suc_eq split: prod.splits option.splits)
  next
    case (Some pr)
    show "best_below d i (Suc m) (consider_intid d i m best)"
    proof (cases "pr < snd best")
      case True
      then have c: "consider_intid d i m best = (Some m, pr)" using Some by (simp add: consider_intid_def)
      have "snd best \<le> VDIST_PRIO_IDLE" "\<forall>j<m. \<forall>q. deliverable_locked d i j = Some q \<longrightarrow> snd best \<le> q"
        using IH by (auto simp: best_below_def split: prod.splits option.splits)
      then have "pr < VDIST_PRIO_IDLE" "\<forall>j<m. \<forall>q. deliverable_locked d i j = Some q \<longrightarrow> pr < q"
        using True less_le_trans by blast+
      then show ?thesis using Some unfolding c best_below_def by (auto simp: less_Suc_eq)
    next
      case False
      then have c: "consider_intid d i m best = best" using Some by (simp add: consider_intid_def)
      show ?thesis unfolding c using IH False Some
        by (auto simp: best_below_def less_Suc_eq not_less split: prod.splits option.splits)
    qed
  qed
qed

text \<open>
  The interrupt a virtual CPU should be given next: deliverable to it, below the idle priority, and
  before every other deliverable one in the architecture's order.
\<close>

definition next_irq :: "gicv3_vdist \<Rightarrow> nat \<Rightarrow> nat \<Rightarrow> 8 word \<Rightarrow> bool" where
  "next_irq d i k pr \<longleftrightarrow>
     deliverable_locked d i k = Some pr \<and> pr < VDIST_PRIO_IDLE \<and>
     (\<forall>j q. deliverable_locked d i j = Some q \<longrightarrow> pr \<le> q \<and> (j < k \<longrightarrow> pr < q))"

lemma next_irq_unique: "next_irq d i k pr \<Longrightarrow> next_irq d i k' pr' \<Longrightarrow> k' = k \<and> pr' = pr"
  unfolding next_irq_def by (metis linorder_neqE_nat order.antisym order.strict_iff_not)


section \<open>Software-generated interrupts\<close>

definition sgi_pend :: "nat \<Rightarrow> vdist_private \<Rightarrow> vdist_private" where
  "sgi_pend n p = p\<lparr>pv_pending := pv_pending p OR push_bit n 1\<rparr>"

lemma sgi_fold:
  assumes "\<forall>i\<in>set is. i < length (vd_priv d)" and "distinct is"
  shows "fold (\<lambda>i (d, hit). if sgi_target d from v i then (set_priv d i (sgi_pend n (vd_priv d ! i)), hit + 1) else (d, hit)) is (d, hit) =
    (d\<lparr>vd_priv := map (\<lambda>i. if i \<in> set is \<and> sgi_target d from v i then sgi_pend n (vd_priv d ! i) else vd_priv d ! i) [0..<length (vd_priv d)]\<rparr>,
     hit + length (filter (sgi_target d from v) is))"
  using assms
proof (induction "is" arbitrary: d hit)
  case Nil
  have "map ((!) (vd_priv d)) [0..<length (vd_priv d)] = vd_priv d" by (rule map_nth)
  then show ?case by simp
next
  case (Cons j js)
  define e where "e = (if sgi_target d from v j then set_priv d j (sgi_pend n (vd_priv d ! j)) else d)"
  have same: "sgi_target e from v i = sgi_target d from v i" for i
    using Cons.prems(1) by (simp add: e_def sgi_target_def set_priv_def sgi_pend_def nth_list_update Let_def)
  have priv: "length (vd_priv e) = length (vd_priv d)" "vd_priv e ! i = (if i = j \<and> sgi_target d from v j then sgi_pend n (vd_priv d ! j) else vd_priv d ! i)" for i
    using Cons.prems(1) by (simp_all add: e_def set_priv_def nth_list_update)
  have m: "map (\<lambda>i. if i \<in> set js \<and> sgi_target e from v i then sgi_pend n (vd_priv e ! i) else vd_priv e ! i) [0..<length (vd_priv e)] =
      map (\<lambda>i. if i \<in> set (j # js) \<and> sgi_target d from v i then sgi_pend n (vd_priv d ! i) else vd_priv d ! i) [0..<length (vd_priv d)]"
    using Cons.prems(2) by (auto simp: same priv)
  have o: "e\<lparr>vd_priv := x\<rparr> = d\<lparr>vd_priv := x\<rparr>" for x by (simp add: e_def set_priv_def)
  show ?case using Cons.IH [of e "if sgi_target d from v j then hit + 1 else hit"] Cons.prems priv(1) m o same
    by (auto simp: e_def)
qed



end
