(* ===== verification/Asid.thy ===== *)
theory Asid
  imports Prelude
begin

text \<open>
  Address-space tags (\<open>kernel/memory/asid.c\<close>): the bitmap of tags in use, the generations, and the
  switch into a space, which tells whether the CPU must flush. The bitmap is the code's array of
  64-bit words. The theory also has the machine around the allocator, as far as tags matter: what the
  translation caches hold, and the switch (\<open>vm_space_switch\<close>, \<open>arch_mmu_activate\<close>) that writes the
  tag into the hardware.
\<close>

section \<open>The allocator\<close>

definition ASID_MAX_BITS :: nat where "ASID_MAX_BITS = 16"
definition ASID_MAX :: nat where "ASID_MAX = 2 ^ ASID_MAX_BITS"
definition ASID_WORDS :: nat where "ASID_WORDS = ASID_MAX div 64"
definition CONFIG_MAX_CPUS :: nat where "CONFIG_MAX_CPUS = 64"

record asid_stats =
  st_allocs :: nat
  st_rollovers :: nat
  st_releases :: nat
  st_flushes :: nat

definition no_stats :: asid_stats where
  "no_stats = \<lparr>st_allocs = 0, st_rollovers = 0, st_releases = 0, st_flushes = 0\<rparr>"

record asid_state =
  g_bitmap :: "64 word list"
  g_bits :: nat
  g_count :: nat
  g_next :: nat
  g_generation :: nat
  g_stats :: asid_stats
  g_cpu_generation :: "nat list"
  g_paranoid :: bool

record arch_mmu_context =
  cx_asid :: nat
  cx_asid_gen :: nat

definition asid_set_paranoid :: "bool \<Rightarrow> asid_state \<Rightarrow> asid_state" where
  "asid_set_paranoid on s = s\<lparr>g_paranoid := on\<rparr>"

definition asid_paranoid :: "asid_state \<Rightarrow> bool" where
  "asid_paranoid s = g_paranoid s"

definition asid_init :: "nat \<Rightarrow> asid_state \<Rightarrow> asid_state option" where
  "asid_init bits s =
     do { kassert (bits = 0 \<or> (bits \<ge> 8 \<and> bits \<le> ASID_MAX_BITS));
          Some (s\<lparr>g_bits := bits, g_count := (if bits \<noteq> 0 then 2 ^ bits else 0), g_next := 1,
                  g_generation := u64 (g_generation s + 1), g_bitmap := replicate ASID_WORDS 0, g_stats := no_stats,
                  g_cpu_generation := replicate CONFIG_MAX_CPUS 0\<rparr>) }"

text \<open>The tag is taken if its bit was clear.\<close>

definition bitmap_take :: "asid_state \<Rightarrow> nat \<Rightarrow> asid_state \<times> bool" where
  "bitmap_take s tag =
     (let msk = push_bit (tag mod 64) 1 in
      if g_bitmap s ! (tag div 64) AND msk \<noteq> 0 then (s, False)
      else (s\<lparr>g_bitmap := (g_bitmap s)[tag div 64 := g_bitmap s ! (tag div 64) OR msk]\<rparr>, True))"

text \<open>The loop of \<open>bitmap_next_free\<close> from its \<open>i\<close>th round on; 0 when every tag is taken.\<close>

function next_free_from :: "nat \<Rightarrow> asid_state \<Rightarrow> asid_state \<times> nat" where
  "next_free_from i s =
     (if i < g_count s - 1
      then let tag = g_next s + i; tag = (if tag \<ge> g_count s then tag - (g_count s - 1) else tag); (s', ok) = bitmap_take s tag
        in if ok then (s'\<lparr>g_next := (if tag + 1 \<ge> g_count s then 1 else tag + 1)\<rparr>, tag) else next_free_from (i + 1) s
      else (s, 0))"
  by pat_completeness auto
termination by (relation "measure (\<lambda>(i, s). g_count s - 1 - i)") auto

declare next_free_from.simps [simp del]

definition bitmap_next_free :: "asid_state \<Rightarrow> asid_state \<times> nat" where
  "bitmap_next_free s = next_free_from 0 s"

definition rollover :: "asid_state \<Rightarrow> asid_state" where
  "rollover s =
     s\<lparr>g_generation := u64 (g_generation s + 1), g_bitmap := replicate ASID_WORDS 0, g_next := 1,
       g_stats := (g_stats s)\<lparr>st_rollovers := u64 (st_rollovers (g_stats s) + 1)\<rparr>\<rparr>"

text \<open>The part of \<open>asid_switch_prepare\<close> under the lock: a tag of the current generation for a context without one.\<close>

definition asid_assign :: "asid_state \<Rightarrow> arch_mmu_context \<Rightarrow> (asid_state \<times> arch_mmu_context) option" where
  "asid_assign s ctx =
     (if cx_asid_gen ctx \<noteq> g_generation s
      then do { (s, tag) \<leftarrow> case bitmap_next_free s of
                    (s, tag) \<Rightarrow> if tag = 0
                      then (case bitmap_next_free (rollover s) of (s, tag) \<Rightarrow> do { kassert (tag \<noteq> 0); Some (s, tag) })
                      else Some (s, tag);
                let s = s\<lparr>g_stats := (g_stats s)\<lparr>st_allocs := u64 (st_allocs (g_stats s) + 1)\<rparr>\<rparr>;
                Some (s, ctx\<lparr>cx_asid := tag, cx_asid_gen := g_generation s\<rparr>) }
      else Some (s, ctx))"

text \<open>The stamp of this CPU: whether it may still hold tags from before a rollover.\<close>

definition asid_stamp :: "asid_state \<Rightarrow> nat \<Rightarrow> asid_state \<times> bool" where
  "asid_stamp s cpu =
     (if g_cpu_generation s ! cpu \<noteq> g_generation s
      then (s\<lparr>g_cpu_generation := (g_cpu_generation s)[cpu := g_generation s],
              g_stats := (g_stats s)\<lparr>st_flushes := u64 (st_flushes (g_stats s) + 1)\<rparr>\<rparr>, True)
      else (s, g_paranoid s))"

text \<open>The context is \<open>None\<close> for the kernel's own root. The result is whether the CPU must flush.\<close>

definition asid_switch_prepare ::
    "asid_state \<Rightarrow> nat \<Rightarrow> arch_mmu_context option \<Rightarrow> (asid_state \<times> arch_mmu_context option \<times> bool) option" where
  "asid_switch_prepare s cpu ctx =
     (if g_bits s = 0 then Some (s, ctx, True)
      else do { (s, ctx) \<leftarrow> case ctx of None \<Rightarrow> Some (s, None)
                    | Some c \<Rightarrow> do { (s, c) \<leftarrow> asid_assign s c; Some (s, Some c) };
                (case asid_stamp s cpu of (s, flush) \<Rightarrow> Some (s, ctx, flush)) })"

definition asid_release :: "asid_state \<Rightarrow> arch_mmu_context \<Rightarrow> asid_state \<times> arch_mmu_context" where
  "asid_release s ctx =
     (if g_bits s = 0 \<or> cx_asid ctx = 0 then (s, ctx)
      else ((if cx_asid_gen ctx = g_generation s
             then s\<lparr>g_bitmap := (g_bitmap s)[cx_asid ctx div 64 := g_bitmap s ! (cx_asid ctx div 64) AND NOT (push_bit (cx_asid ctx mod 64) 1)],
                    g_stats := (g_stats s)\<lparr>st_releases := u64 (st_releases (g_stats s) + 1)\<rparr>\<rparr>
             else s), ctx\<lparr>cx_asid := 0, cx_asid_gen := 0\<rparr>))"

definition asid_generation :: "asid_state \<Rightarrow> nat" where
  "asid_generation s = g_generation s"

definition asid_get_stats :: "asid_state \<Rightarrow> asid_stats" where
  "asid_get_stats s = g_stats s"

text \<open>The two entry points of the self-tests, as in a debug build.\<close>

definition asid_test_force_rollover :: "asid_state \<Rightarrow> asid_state \<times> bool" where
  "asid_test_force_rollover s = (if g_bits s = 0 then (s, False) else (rollover s, True))"

definition asid_test_set_bits :: "nat \<Rightarrow> nat \<Rightarrow> asid_state \<Rightarrow> (asid_state \<times> bool) option" where
  "asid_test_set_bits machine_bits bits s =
     (if bits < 8 \<or> bits > ASID_MAX_BITS then Some (s, False)
      else if machine_bits = 0 then Some (s, False)
      else do { s \<leftarrow> asid_init bits s; Some (s, True) })"

end
