(* ===== verification/Asid_Isolation.thy ===== *)
theory Asid_Isolation
  imports Asid
begin

text \<open>
  What the tags are for: a CPU never uses a translation of another space under the tag it runs with.
  The machine has the allocator, the contexts of the spaces, and for each CPU the translations it may
  hold and the space and tag it runs. Invariant and properties follow the rule the code states: a tag
  is only reused after every CPU that could hold translations under it has flushed them.
\<close>

section \<open>The machine\<close>

record machine =
  m_asid :: asid_state
  m_ctx :: "nat \<Rightarrow> arch_mmu_context"
  m_tlb :: "nat \<Rightarrow> (nat \<times> nat) set"
  m_cur :: "nat \<Rightarrow> (nat \<times> nat) option"
  m_tlb_cpus :: "nat \<Rightarrow> nat set"

text \<open>
  \<open>arch_mmu_activate\<close>: the tag of the context goes into the translation register, then the local flush
  if it was asked for. The kernel's root runs under tag 0 with no user translations.
\<close>

definition arch_mmu_activate :: "machine \<Rightarrow> nat \<Rightarrow> nat option \<Rightarrow> bool \<Rightarrow> machine" where
  "arch_mmu_activate m cpu space flush =
     m\<lparr>m_cur := (m_cur m)(cpu := (case space of None \<Rightarrow> None | Some x \<Rightarrow> Some (cx_asid (m_ctx m x), x))),
       m_tlb := (if flush then (m_tlb m)(cpu := {}) else m_tlb m)\<rparr>"

definition switch_prepare :: "machine \<Rightarrow> nat \<Rightarrow> nat option \<Rightarrow> (machine \<times> bool) option" where
  "switch_prepare m cpu space =
     do { (s, c, flush) \<leftarrow> asid_switch_prepare (m_asid m) cpu (map_option (m_ctx m) space);
          Some (m\<lparr>m_asid := s, m_ctx := (case (space, c) of (Some x, Some c) \<Rightarrow> (m_ctx m)(x := c) | _ \<Rightarrow> m_ctx m)\<rparr>, flush) }"

text \<open>The mask of CPUs that may hold translations of a space; a switch adds this one and takes none away.\<close>

definition mark_cpu :: "machine \<Rightarrow> nat \<Rightarrow> nat option \<Rightarrow> machine" where
  "mark_cpu m cpu space =
     (case space of None \<Rightarrow> m | Some x \<Rightarrow> m\<lparr>m_tlb_cpus := (m_tlb_cpus m)(x := insert cpu (m_tlb_cpus m x))\<rparr>)"

definition vm_space_switch :: "machine \<Rightarrow> nat \<Rightarrow> nat option \<Rightarrow> machine option" where
  "vm_space_switch m cpu space =
     do { (m, flush) \<leftarrow> switch_prepare (mark_cpu m cpu space) cpu space; Some (arch_mmu_activate m cpu space flush) }"

text \<open>The end of \<open>vm_space_destroy\<close>: the tag is invalidated on every CPU, then released.\<close>

definition arch_mmu_invalidate_asid :: "machine \<Rightarrow> nat \<Rightarrow> machine" where
  "arch_mmu_invalidate_asid m x =
     (if cx_asid (m_ctx m x) = 0 then m
      else m\<lparr>m_tlb := (\<lambda>cpu. {e \<in> m_tlb m cpu. fst e \<noteq> cx_asid (m_ctx m x)})\<rparr>)"

definition space_release :: "machine \<Rightarrow> nat \<Rightarrow> machine" where
  "space_release m x =
     (let m = arch_mmu_invalidate_asid m x; (s, c) = asid_release (m_asid m) (m_ctx m x)
      in m\<lparr>m_asid := s, m_ctx := (m_ctx m)(x := c), m_tlb_cpus := (m_tlb_cpus m)(x := {})\<rparr>)"

text \<open>
  A step of the machine. A CPU fills its cache with a translation of the space it runs, under the tag
  it runs with, and may drop any; a space is released when no CPU runs it. The 64-bit generation counter has not come to its end.
\<close>

inductive mstep :: "machine \<Rightarrow> machine \<Rightarrow> bool" where
  switch: "cpu < CONFIG_MAX_CPUS \<Longrightarrow> g_generation (m_asid m) + 1 < W64 \<Longrightarrow>
    vm_space_switch m cpu space = Some m' \<Longrightarrow> mstep m m'"
| fill: "m_cur m cpu = Some e \<Longrightarrow> mstep m (m\<lparr>m_tlb := (m_tlb m)(cpu := insert e (m_tlb m cpu))\<rparr>)"
| evict: "mstep m (m\<lparr>m_tlb := (m_tlb m)(cpu := m_tlb m cpu - es)\<rparr>)"
| release: "\<forall>cpu t. m_cur m cpu \<noteq> Some (t, x) \<Longrightarrow> mstep m (space_release m x)"
| force_rollover: "g_generation (m_asid m) + 1 < W64 \<Longrightarrow>
    mstep m (m\<lparr>m_asid := fst (asid_test_force_rollover (m_asid m))\<rparr>)"
| set_bits: "g_generation (m_asid m) + 1 < W64 \<Longrightarrow> asid_test_set_bits hw bits (m_asid m) = Some (s, ok) \<Longrightarrow>
    mstep m (m\<lparr>m_asid := s\<rparr>)"
| paranoid: "mstep m (m\<lparr>m_asid := asid_set_paranoid on (m_asid m)\<rparr>)"

definition asid_reset :: asid_state where
  "asid_reset =
     \<lparr>g_bitmap = replicate ASID_WORDS 0, g_bits = 0, g_count = 0, g_next = 1, g_generation = 0, g_stats = no_stats,
      g_cpu_generation = replicate CONFIG_MAX_CPUS 0, g_paranoid = False\<rparr>"

text \<open>A machine with tags starts with \<open>asid_init\<close>, no space tagged and no translation held.\<close>

inductive mreach :: "machine \<Rightarrow> bool" where
  boot: "asid_init bits asid_reset = Some s \<Longrightarrow> bits \<noteq> 0 \<Longrightarrow>
    mreach \<lparr>m_asid = s, m_ctx = (\<lambda>x. \<lparr>cx_asid = 0, cx_asid_gen = 0\<rparr>), m_tlb = (\<lambda>cpu. {}), m_cur = (\<lambda>cpu. None),
      m_tlb_cpus = (\<lambda>x. {})\<rparr>"
| step: "mreach m \<Longrightarrow> mstep m m' \<Longrightarrow> mreach m'"

section \<open>The bitmap\<close>

definition taken :: "asid_state \<Rightarrow> nat \<Rightarrow> bool" where
  "taken s t \<longleftrightarrow> bit (g_bitmap s ! (t div 64)) (t mod 64)"

definition asid_wf :: "asid_state \<Rightarrow> bool" where
  "asid_wf s \<longleftrightarrow>
     length (g_bitmap s) = ASID_WORDS \<and> 8 \<le> g_bits s \<and> g_bits s \<le> ASID_MAX_BITS \<and> g_count s = 2 ^ g_bits s \<and>
     1 \<le> g_next s \<and> g_next s < g_count s \<and> length (g_cpu_generation s) = CONFIG_MAX_CPUS \<and> 1 \<le> g_generation s"

lemma count_bounds:
  assumes "asid_wf s"
  shows "256 \<le> g_count s" "g_count s \<le> ASID_MAX"
proof -
  have "(2 :: nat) ^ 8 \<le> 2 ^ g_bits s" "(2 :: nat) ^ g_bits s \<le> 2 ^ ASID_MAX_BITS"
    using assms by (intro power_increasing; simp add: asid_wf_def)+
  then show "256 \<le> g_count s" "g_count s \<le> ASID_MAX" using assms by (simp_all add: asid_wf_def ASID_MAX_def)
qed

lemma word_index: "t < ASID_MAX \<Longrightarrow> t div 64 < ASID_WORDS"
  by (simp add: ASID_WORDS_def ASID_MAX_def ASID_MAX_BITS_def div_less_iff_less_mult)

lemma bit_push1: "(w :: 64 word) AND push_bit k 1 \<noteq> 0 \<longleftrightarrow> bit w k"
  using has_flag [of w k] unfolding has_def flag_def by blast

lemma bit_one64: "bit (push_bit k 1 :: 64 word) j \<longleftrightarrow> j = k \<and> k < 64"
  using bit_flag [of k j, where ?'a = 64] unfolding flag_def by simp

lemma same_slot: "(t :: nat) div 64 = u div 64 \<Longrightarrow> t mod 64 = u mod 64 \<Longrightarrow> t = u"
  by (metis div_mult_mod_eq)

lemma taken_set:
  assumes "t div 64 < length (g_bitmap s)"
  shows "taken (s\<lparr>g_bitmap := (g_bitmap s)[t div 64 := g_bitmap s ! (t div 64) OR push_bit (t mod 64) 1]\<rparr>) u \<longleftrightarrow> taken s u \<or> u = t"
  using assms same_slot [of u t] by (auto simp: taken_def nth_list_update bit_or_iff bit_one64 simp del: push_bit_of_1)

lemma taken_clear:
  assumes "t div 64 < length (g_bitmap s)"
  shows "taken (s\<lparr>g_bitmap := (g_bitmap s)[t div 64 := g_bitmap s ! (t div 64) AND NOT (push_bit (t mod 64) 1)]\<rparr>) u \<longleftrightarrow> taken s u \<and> u \<noteq> t"
  using assms same_slot [of u t] by (auto simp: taken_def nth_list_update bit_and_iff bit_not_iff bit_one64 simp del: push_bit_of_1)

lemma taken_upd [simp]:
  "taken (s\<lparr>g_next := n\<rparr>) = taken s" "taken (s\<lparr>g_stats := st\<rparr>) = taken s" "taken (s\<lparr>g_cpu_generation := cg\<rparr>) = taken s"
  "taken (s\<lparr>g_paranoid := b\<rparr>) = taken s"
  by (simp_all add: taken_def fun_eq_iff)

text \<open>What a search for a free tag gives.\<close>

definition found_tag :: "asid_state \<Rightarrow> asid_state \<Rightarrow> nat \<Rightarrow> bool" where
  "found_tag s s' tag \<longleftrightarrow>
     1 \<le> tag \<and> tag < g_count s \<and> \<not> taken s tag \<and> (\<forall>u. taken s' u \<longleftrightarrow> taken s u \<or> u = tag) \<and>
     (\<exists>bm n. s' = s\<lparr>g_bitmap := bm, g_next := n\<rparr> \<and> length bm = length (g_bitmap s) \<and> 1 \<le> n \<and> n < g_count s)"

lemma next_free_step:
  assumes "i < g_count s - 1" and "t = (if g_next s + i \<ge> g_count s then g_next s + i - (g_count s - 1) else g_next s + i)"
  shows "next_free_from i s = (case bitmap_take s t of (s', ok) \<Rightarrow>
    if ok then (s'\<lparr>g_next := (if t + 1 \<ge> g_count s then 1 else t + 1)\<rparr>, t) else next_free_from (i + 1) s)"
  unfolding assms(2) using assms(1) by (subst next_free_from.simps) (simp only: Let_def if_True)

lemma next_free_from_found:
  assumes "asid_wf s" and "next_free_from i s = (s', tag)"
  shows "(tag = 0 \<and> s' = s) \<or> found_tag s s' tag"
  using assms(2)
proof (induction "g_count s - 1 - i" arbitrary: i rule: less_induct)
  case less
  show ?case
  proof (cases "i < g_count s - 1")
    case False
    then show ?thesis using less(2) by (simp add: next_free_from.simps)
  next
    case True
    define t where "t = (if g_next s + i \<ge> g_count s then g_next s + i - (g_count s - 1) else g_next s + i)"
    have t: "1 \<le> t" "t < g_count s" using assms(1) True by (auto simp: t_def asid_wf_def)
    have w: "t div 64 < length (g_bitmap s)" using t(2) count_bounds [OF assms(1)] assms(1) word_index [of t] by (simp add: asid_wf_def)
    show ?thesis
    proof (cases "taken s t")
      case taken: True
      then have "bitmap_take s t = (s, False)" by (simp add: bitmap_take_def taken_def bit_push1 Let_def del: push_bit_of_1)
      then have "next_free_from i s = next_free_from (i + 1) s"
        using next_free_step [OF True t_def] by simp
      moreover have "next_free_from (i + 1) s = (s', tag) \<Longrightarrow> (tag = 0 \<and> s' = s) \<or> found_tag s s' tag"
        using less(1) [of "i + 1"] True by simp
      ultimately show ?thesis using less(2) by simp
    next
      case free: False
      define r where "r = s\<lparr>g_bitmap := (g_bitmap s)[t div 64 := g_bitmap s ! (t div 64) OR push_bit (t mod 64) 1]\<rparr>"
      have "bitmap_take s t = (r, True)" using free by (simp add: bitmap_take_def taken_def bit_push1 Let_def r_def del: push_bit_of_1)
      then have e: "s' = r\<lparr>g_next := (if t + 1 \<ge> g_count s then 1 else t + 1)\<rparr>" "tag = t"
        using less(2) unfolding next_free_step [OF True t_def] by (auto simp only: prod.case if_True prod.inject)
      have "\<forall>u. taken s' u \<longleftrightarrow> taken s u \<or> u = tag" using taken_set [OF w] unfolding e r_def by simp
      moreover have "\<exists>bm n. s' = s\<lparr>g_bitmap := bm, g_next := n\<rparr> \<and> length bm = length (g_bitmap s) \<and> 1 \<le> n \<and> n < g_count s"
        unfolding e r_def using count_bounds [OF assms(1)]
        by (intro exI [of _ "(g_bitmap s)[t div 64 := g_bitmap s ! (t div 64) OR push_bit (t mod 64) 1]"]
            exI [of _ "if t + 1 \<ge> g_count s then 1 else t + 1"]) simp
      ultimately show ?thesis using t free e(2) by (simp add: found_tag_def)
    qed
  qed
qed

lemma found_wf:
  assumes "asid_wf s" and "found_tag s s' tag"
  shows "asid_wf s'" "g_generation s' = g_generation s" "g_bits s' = g_bits s" "g_count s' = g_count s"
    "g_cpu_generation s' = g_cpu_generation s" "g_paranoid s' = g_paranoid s"
  using assms unfolding found_tag_def asid_wf_def by auto

lemma rollover_wf:
  assumes "asid_wf s" and "g_generation s + 1 < W64"
  shows "asid_wf (rollover s)" "g_generation (rollover s) = g_generation s + 1" "g_count (rollover s) = g_count s"
    "g_bits (rollover s) = g_bits s" "g_cpu_generation (rollover s) = g_cpu_generation s" "g_paranoid (rollover s) = g_paranoid s"
  using assms count_bounds [OF assms(1)] by (simp_all add: asid_wf_def rollover_def u64_id)

lemma rollover_free: "t < ASID_MAX \<Longrightarrow> \<not> taken (rollover s) t"
  using word_index by (simp add: taken_def rollover_def)

lemma take_free: "\<not> taken s t \<Longrightarrow> snd (bitmap_take s t)"
  by (simp add: bitmap_take_def taken_def bit_push1 Let_def del: push_bit_of_1)

lemma rollover_finds:
  assumes "asid_wf s" and "g_generation s + 1 < W64"
  obtains s' tag where "bitmap_next_free (rollover s) = (s', tag)" "found_tag (rollover s) s' tag"
proof -
  define r where "r = rollover s"
  have wf: "asid_wf r" unfolding r_def by (rule rollover_wf [OF assms])
  have c: "256 \<le> g_count r" "g_count r \<le> ASID_MAX" using count_bounds [OF wf] .
  have n: "g_next r = 1" by (simp add: r_def rollover_def)
  have "\<not> taken r 1" unfolding r_def by (rule rollover_free) (use c in simp)
  then have "snd (bitmap_take r 1)" by (rule take_free)
  then have "snd (next_free_from 0 r) = 1"
    using next_free_step [of 0 r 1] c n by (auto split: prod.splits)
  moreover obtain s' tag where e: "next_free_from 0 r = (s', tag)" by (cases "next_free_from 0 r")
  ultimately have "found_tag r s' tag" using next_free_from_found [OF wf e] by simp
  then show ?thesis using that e by (simp add: bitmap_next_free_def r_def)
qed

text \<open>The three outcomes of assigning a tag: it has one, it gets a fresh one, or a new generation begins with it.\<close>

definition assigned :: "asid_state \<Rightarrow> arch_mmu_context \<Rightarrow> asid_state \<Rightarrow> arch_mmu_context \<Rightarrow> bool" where
  "assigned s c s' c' \<longleftrightarrow>
     (cx_asid_gen c = g_generation s \<and> s' = s \<and> c' = c) \<or>
     (cx_asid_gen c \<noteq> g_generation s \<and> cx_asid_gen c' = g_generation s' \<and> 1 \<le> cx_asid c' \<and> cx_asid c' < g_count s' \<and>
      taken s' (cx_asid c') \<and>
      (g_generation s' = g_generation s + 1 \<or>
       g_generation s' = g_generation s \<and> \<not> taken s (cx_asid c') \<and> (\<forall>u. taken s u \<longrightarrow> taken s' u)))"

lemma assign_ok:
  assumes "asid_wf s" and "g_generation s + 1 < W64"
  obtains s' c' where "asid_assign s c = Some (s', c')" "asid_wf s'" "assigned s c s' c'" "g_bits s' = g_bits s"
    "g_count s' = g_count s" "g_cpu_generation s' = g_cpu_generation s" "g_paranoid s' = g_paranoid s"
proof (cases "cx_asid_gen c = g_generation s")
  case True
  then show ?thesis using that [of s c] assms(1) by (simp add: asid_assign_def assigned_def)
next
  case False
  have st: "asid_wf (s'\<lparr>g_stats := x\<rparr>) = asid_wf s'" for s' x by (simp add: asid_wf_def)
  obtain s1 t1 where n: "bitmap_next_free s = (s1, t1)" by (cases "bitmap_next_free s")
  show ?thesis
  proof (cases "t1 = 0")
    case full: True
    then have "s1 = s" using next_free_from_found [OF assms(1)] n by (auto simp: bitmap_next_free_def found_tag_def)
    obtain s2 t2 where r: "bitmap_next_free (rollover s) = (s2, t2)" "found_tag (rollover s) s2 t2"
      by (rule rollover_finds [OF assms])
    note w = found_wf [OF rollover_wf(1) [OF assms] r(2)] rollover_wf [OF assms]
    have t2: "t2 \<noteq> 0" "1 \<le> t2" "t2 < g_count s" "taken s2 t2" using r(2) w by (auto simp: found_tag_def)
    show ?thesis
      by (rule that [of "s2\<lparr>g_stats := (g_stats s2)\<lparr>st_allocs := u64 (st_allocs (g_stats s2) + 1)\<rparr>\<rparr>"
            "c\<lparr>cx_asid := t2, cx_asid_gen := g_generation s2\<rparr>"])
        (use False n full \<open>s1 = s\<close> r(1) t2 w in \<open>simp_all add: asid_assign_def st assigned_def\<close>)
  next
    case found: False
    then have f: "found_tag s s1 t1" using next_free_from_found [OF assms(1)] n by (auto simp: bitmap_next_free_def)
    note w = found_wf [OF assms(1) f]
    have t1: "1 \<le> t1" "t1 < g_count s" "\<not> taken s t1" "taken s1 t1" "\<forall>u. taken s u \<longrightarrow> taken s1 u" using f by (auto simp: found_tag_def)
    show ?thesis
      by (rule that [of "s1\<lparr>g_stats := (g_stats s1)\<lparr>st_allocs := u64 (st_allocs (g_stats s1) + 1)\<rparr>\<rparr>"
            "c\<lparr>cx_asid := t1, cx_asid_gen := g_generation s1\<rparr>"])
        (use False n found t1 w in \<open>simp_all add: asid_assign_def st assigned_def\<close>)
  qed
qed

section \<open>The invariant of the machine\<close>

definition current :: "machine \<Rightarrow> nat \<Rightarrow> bool" where
  "current m x \<longleftrightarrow> cx_asid_gen (m_ctx m x) = g_generation (m_asid m)"

text \<open>The tag and space pairs a CPU may use: those it holds, and the one it runs.\<close>

definition entries :: "machine \<Rightarrow> nat \<Rightarrow> (nat \<times> nat) set" where
  "entries m cpu = m_tlb m cpu \<union> set_option (m_cur m cpu)"

definition isolated :: "machine \<Rightarrow> nat \<Rightarrow> bool" where
  "isolated m cpu \<longleftrightarrow> (\<forall>(t, x) \<in> entries m cpu. \<forall>(u, y) \<in> entries m cpu. t = u \<longrightarrow> x = y)"

definition tags_ok :: "machine \<Rightarrow> bool" where
  "tags_ok m \<longleftrightarrow>
     (\<forall>x. cx_asid_gen (m_ctx m x) \<le> g_generation (m_asid m)) \<and>
     (\<forall>x. current m x \<longrightarrow> 1 \<le> cx_asid (m_ctx m x) \<and> cx_asid (m_ctx m x) < g_count (m_asid m) \<and> taken (m_asid m) (cx_asid (m_ctx m x))) \<and>
     (\<forall>x y. current m x \<longrightarrow> current m y \<longrightarrow> cx_asid (m_ctx m x) = cx_asid (m_ctx m y) \<longrightarrow> x = y)"

definition cpu_ok :: "machine \<Rightarrow> nat \<Rightarrow> bool" where
  "cpu_ok m cpu \<longleftrightarrow>
     g_cpu_generation (m_asid m) ! cpu \<le> g_generation (m_asid m) \<and>
     (g_cpu_generation (m_asid m) ! cpu = g_generation (m_asid m) \<longrightarrow>
       (\<forall>(t, x) \<in> entries m cpu. current m x \<and> cx_asid (m_ctx m x) = t))"

definition minv :: "machine \<Rightarrow> bool" where
  "minv m \<longleftrightarrow> asid_wf (m_asid m) \<and> tags_ok m \<and> (\<forall>cpu<CONFIG_MAX_CPUS. cpu_ok m cpu) \<and> (\<forall>cpu. isolated m cpu)"

text \<open>On a CPU that is up to date, distinct tags give isolation.\<close>

lemma current_isolated:
  assumes "tags_ok m" and "\<forall>(t, x) \<in> entries m cpu. current m x \<and> cx_asid (m_ctx m x) = t"
  shows "isolated m cpu"
proof -
  have "x = y" if "(t, x) \<in> entries m cpu" "(t, y) \<in> entries m cpu" for t x y
  proof -
    have "current m x" "cx_asid (m_ctx m x) = t" "current m y" "cx_asid (m_ctx m y) = t" using assms(2) that by auto
    then show ?thesis using assms(1) unfolding tags_ok_def by metis
  qed
  then show ?thesis unfolding isolated_def by auto
qed

text \<open>A new generation makes every tag and every stamp old.\<close>

lemma new_generation:
  assumes "minv m" and "asid_wf s" and "g_generation (m_asid m) < g_generation s" and "\<forall>cpu<CONFIG_MAX_CPUS. g_cpu_generation s ! cpu < g_generation s"
  shows "minv (m\<lparr>m_asid := s\<rparr>)"
proof -
  have old: "cx_asid_gen (m_ctx m x) < g_generation s" for x
    using assms(1,3) unfolding minv_def tags_ok_def by (meson le_less_trans)
  then have "\<not> current (m\<lparr>m_asid := s\<rparr>) x" for x by (simp add: current_def less_imp_neq)
  moreover have "cx_asid_gen (m_ctx m x) \<le> g_generation s" for x using old less_imp_le by blast
  ultimately have "tags_ok (m\<lparr>m_asid := s\<rparr>)" by (simp add: tags_ok_def)
  moreover have "cpu_ok (m\<lparr>m_asid := s\<rparr>) cpu" if "cpu < CONFIG_MAX_CPUS" for cpu
    using assms(4) that by (auto simp: cpu_ok_def)
  moreover have "isolated (m\<lparr>m_asid := s\<rparr>) cpu" for cpu
    using assms(1) by (simp add: minv_def isolated_def entries_def)
  ultimately show ?thesis using assms(2) by (simp add: minv_def)
qed

lemma stamps_le: "minv m \<Longrightarrow> cpu < CONFIG_MAX_CPUS \<Longrightarrow> g_cpu_generation (m_asid m) ! cpu \<le> g_generation (m_asid m)"
  by (simp add: minv_def cpu_ok_def)

definition retag :: "machine \<Rightarrow> asid_state \<Rightarrow> nat \<Rightarrow> arch_mmu_context \<Rightarrow> machine" where
  "retag m s x c = m\<lparr>m_asid := s, m_ctx := (m_ctx m)(x := c)\<rparr>"

text \<open>A fresh tag of the same generation for a space that had none.\<close>

lemma retag_fresh:
  assumes "minv m" and "asid_wf s" and "g_count s = g_count (m_asid m)" and "g_cpu_generation s = g_cpu_generation (m_asid m)"
    and "\<not> current m x" and "g_generation s = g_generation (m_asid m)" and "cx_asid_gen c = g_generation s"
    and "1 \<le> cx_asid c" "cx_asid c < g_count s" "taken s (cx_asid c)" "\<forall>y. current m y \<longrightarrow> cx_asid (m_ctx m y) \<noteq> cx_asid c"
    and "\<forall>u. taken (m_asid m) u \<longrightarrow> taken s u"
  shows "minv (retag m s x c) \<and> current (retag m s x c) x"
proof -
  let ?n = "retag m s x c"
  have T: "tags_ok m" using assms(1) by (simp add: minv_def)
  have cur: "current ?n y \<longleftrightarrow> y = x \<or> current m y" for y using assms(6,7) by (simp add: current_def retag_def)
  have ctx: "m_ctx ?n y = (if y = x then c else m_ctx m y)" for y by (simp add: retag_def)
  have ent: "entries ?n = entries m" by (simp add: retag_def entries_def fun_eq_iff)
  have "tags_ok ?n"
    using T assms(3,5-12) unfolding tags_ok_def cur ctx by (auto simp: retag_def)
  moreover have "cpu_ok ?n cpu" if "cpu < CONFIG_MAX_CPUS" for cpu
  proof -
    have "cpu_ok m cpu" using assms(1) that by (simp add: minv_def)
    then show ?thesis unfolding cpu_ok_def ent cur ctx using assms(4-6) by (auto simp: retag_def)
  qed
  moreover have "isolated ?n cpu" for cpu using assms(1) unfolding isolated_def ent by (simp add: minv_def isolated_def)
  ultimately show ?thesis using assms(2) cur by (simp add: minv_def retag_def)
qed

lemma assign_minv:
  assumes "minv m" and "g_generation (m_asid m) + 1 < W64"
  obtains s c where "asid_assign (m_asid m) (m_ctx m x) = Some (s, c)" "minv (retag m s x c)" "current (retag m s x c) x"
    "g_bits s = g_bits (m_asid m)"
proof -
  have wf: "asid_wf (m_asid m)" using assms(1) by (simp add: minv_def)
  obtain s c where a: "asid_assign (m_asid m) (m_ctx m x) = Some (s, c)" "asid_wf s" "assigned (m_asid m) (m_ctx m x) s c"
    "g_bits s = g_bits (m_asid m)" "g_count s = g_count (m_asid m)" "g_cpu_generation s = g_cpu_generation (m_asid m)"
    by (rule assign_ok [OF wf assms(2)])
  consider (has) "current m x" "s = m_asid m" "c = m_ctx m x"
    | (new) "\<not> current m x" "cx_asid_gen c = g_generation s" "1 \<le> cx_asid c" "cx_asid c < g_count s" "taken s (cx_asid c)"
        "g_generation s = g_generation (m_asid m) + 1"
    | (same) "\<not> current m x" "cx_asid_gen c = g_generation s" "1 \<le> cx_asid c" "cx_asid c < g_count s" "taken s (cx_asid c)"
        "g_generation s = g_generation (m_asid m)" "\<not> taken (m_asid m) (cx_asid c)" "\<forall>u. taken (m_asid m) u \<longrightarrow> taken s u"
    using a(3) unfolding assigned_def current_def by argo
  then have "minv (retag m s x c) \<and> current (retag m s x c) x"
  proof cases
    case has
    then have "retag m s x c = m" by (simp add: retag_def)
    then show ?thesis using assms(1) has(1) by simp
  next
    case new
    let ?m = "m\<lparr>m_asid := s\<rparr>"
    have i: "minv ?m"
      using new(6) stamps_le [OF assms(1)] a(6) by (intro new_generation [OF assms(1) a(2)]) (auto simp: less_Suc_eq_le)
    have le: "cx_asid_gen (m_ctx m y) \<le> g_generation (m_asid m)" for y using assms(1) by (simp add: minv_def tags_ok_def)
    have n: "\<not> current ?m y" for y using le [of y] new(6) by (simp add: current_def)
    have "minv (retag ?m s x c) \<and> current (retag ?m s x c) x" using new(2-5) n by (intro retag_fresh [OF i a(2)]) simp_all
    then show ?thesis by (simp add: retag_def)
  next
    case same
    have "\<forall>y. current m y \<longrightarrow> cx_asid (m_ctx m y) \<noteq> cx_asid c"
      using assms(1) same(7) unfolding minv_def tags_ok_def by metis
    then show ?thesis using same by (intro retag_fresh [OF assms(1) a(2,5,6)])
  qed
  then show ?thesis using that a(1,4) by blast
qed

lemma stamp_activate:
  assumes "minv m" and "cpu < CONFIG_MAX_CPUS" and "case space of None \<Rightarrow> True | Some x \<Rightarrow> current m x"
    and "asid_stamp (m_asid m) cpu = (s, flush)"
  shows "minv (arch_mmu_activate (m\<lparr>m_asid := s\<rparr>) cpu space flush)"
proof -
  let ?n = "arch_mmu_activate (m\<lparr>m_asid := s\<rparr>) cpu space flush"
  have wf: "asid_wf (m_asid m)" "tags_ok m" using assms(1) by (simp_all add: minv_def)
  have g: "g_generation s = g_generation (m_asid m)" "g_count s = g_count (m_asid m)" "taken s = taken (m_asid m)" "asid_wf s"
    "g_cpu_generation s ! cpu = g_generation s" "\<forall>c\<noteq>cpu. g_cpu_generation s ! c = g_cpu_generation (m_asid m) ! c"
    "length (g_cpu_generation (m_asid m)) = CONFIG_MAX_CPUS"
    using assms(2,4) wf(1) by (auto simp: asid_stamp_def asid_wf_def split: if_splits)
  have n: "m_asid ?n = s" "m_ctx ?n = m_ctx m" "\<And>x. current ?n x \<longleftrightarrow> current m x" by (simp_all add: arch_mmu_activate_def current_def g(1))
  have T: "tags_ok ?n" using wf(2) unfolding tags_ok_def n by (simp add: g)
  have other: "entries ?n c = entries m c" if "c \<noteq> cpu" for c using that by (simp add: entries_def arch_mmu_activate_def)
  have own: "\<forall>(t, x) \<in> entries ?n cpu. current m x \<and> cx_asid (m_ctx m x) = t"
  proof -
    have "\<forall>(t, x) \<in> m_tlb ?n cpu. current m x \<and> cx_asid (m_ctx m x) = t"
    proof (cases flush)
      case False
      then have "g_cpu_generation (m_asid m) ! cpu = g_generation (m_asid m)" using assms(4) by (simp add: asid_stamp_def split: if_splits)
      then show ?thesis using assms(1,2) False by (simp add: minv_def cpu_ok_def entries_def arch_mmu_activate_def)
    qed (simp add: arch_mmu_activate_def)
    moreover have "\<forall>(t, x) \<in> set_option (m_cur ?n cpu). current m x \<and> cx_asid (m_ctx m x) = t"
      using assms(3) by (simp add: arch_mmu_activate_def split: option.splits)
    ultimately show ?thesis by (auto simp: entries_def)
  qed
  have "cpu_ok ?n c" if "c < CONFIG_MAX_CPUS" for c
  proof (cases "c = cpu")
    case True
    then show ?thesis using own g(5) unfolding cpu_ok_def n by simp
  next
    case False
    then show ?thesis using assms(1) that g(1,6) unfolding cpu_ok_def n other [OF False] by (simp add: minv_def cpu_ok_def)
  qed
  moreover have "isolated ?n c" for c
  proof (cases "c = cpu")
    case True
    then show ?thesis using current_isolated [OF T, of cpu] own unfolding n by simp
  next
    case False
    then show ?thesis using assms(1) unfolding isolated_def other [OF False] by (simp add: minv_def isolated_def)
  qed
  ultimately show ?thesis using T g(4) n(1) by (simp add: minv_def)
qed

lemma minv_cpus [simp]: "minv (m\<lparr>m_tlb_cpus := f\<rparr>) = minv m"
proof -
  have "entries (m\<lparr>m_tlb_cpus := f\<rparr>) = entries m" "current (m\<lparr>m_tlb_cpus := f\<rparr>) = current m"
    by (simp_all add: entries_def current_def fun_eq_iff)
  then show ?thesis by (simp add: minv_def tags_ok_def cpu_ok_def isolated_def)
qed

lemma mark_cpu_same [simp]:
  "minv (mark_cpu m cpu space) = minv m" "m_asid (mark_cpu m cpu space) = m_asid m" "m_ctx (mark_cpu m cpu space) = m_ctx m"
  "m_tlb (mark_cpu m cpu space) = m_tlb m" "m_cur (mark_cpu m cpu space) = m_cur m"
  by (simp_all add: mark_cpu_def split: option.splits)

lemma switch_minv:
  assumes i: "minv m" and "cpu < CONFIG_MAX_CPUS" and "g_generation (m_asid m) + 1 < W64"
  shows "\<exists>m'. vm_space_switch m cpu space = Some m' \<and> minv m'"
proof -
  define n where "n = mark_cpu m cpu space"
  have n: "minv n" "g_generation (m_asid n) + 1 < W64" using i assms(3) by (simp_all add: n_def)
  have v: "vm_space_switch m cpu space = do { (m, flush) \<leftarrow> switch_prepare n cpu space; Some (arch_mmu_activate m cpu space flush) }"
    by (simp add: vm_space_switch_def n_def)
  have b: "g_bits (m_asid n) \<noteq> 0" using n(1) by (simp add: minv_def asid_wf_def)
  show ?thesis
  proof (cases space)
    case None
    obtain s flush where s: "asid_stamp (m_asid n) cpu = (s, flush)" by (cases "asid_stamp (m_asid n) cpu")
    then show ?thesis using b stamp_activate [OF n(1) assms(2) _ s, of None] None
      unfolding v by (simp add: switch_prepare_def asid_switch_prepare_def)
  next
    case (Some x)
    obtain s c where a: "asid_assign (m_asid n) (m_ctx n x) = Some (s, c)" "minv (retag n s x c)" "current (retag n s x c) x"
      by (rule assign_minv [OF n])
    obtain s' flush where s: "asid_stamp s cpu = (s', flush)" by (cases "asid_stamp s cpu")
    then have "minv (arch_mmu_activate ((retag n s x c)\<lparr>m_asid := s'\<rparr>) cpu (Some x) flush)"
      using a(3) by (intro stamp_activate [OF a(2) assms(2)]) (simp_all add: retag_def)
    moreover have "(retag n s x c)\<lparr>m_asid := s'\<rparr> = n\<lparr>m_asid := s', m_ctx := (m_ctx n)(x := c)\<rparr>"
      by (cases n) (simp add: retag_def)
    ultimately show ?thesis using b a(1) s Some
      unfolding v by (simp add: switch_prepare_def asid_switch_prepare_def)
  qed
qed

lemma minv_subset:
  assumes "minv m" and "\<forall>cpu. entries n cpu \<subseteq> entries m cpu" and "m_asid n = m_asid m" and "m_ctx n = m_ctx m"
  shows "minv n"
proof -
  have c: "current n = current m" by (simp add: current_def fun_eq_iff assms(3,4))
  have "tags_ok n" using assms(1) by (simp add: minv_def tags_ok_def c assms(3,4))
  moreover have "cpu_ok n cpu" if "cpu < CONFIG_MAX_CPUS" for cpu
  proof -
    have "cpu_ok m cpu" using assms(1) that by (simp add: minv_def)
    then show ?thesis using assms(2) unfolding cpu_ok_def c assms(3,4) by (meson subsetD)
  qed
  moreover have "isolated n cpu" for cpu
  proof -
    have "isolated m cpu" using assms(1) by (simp add: minv_def)
    moreover have "entries n cpu \<subseteq> entries m cpu" using assms(2) by blast
    ultimately show ?thesis unfolding isolated_def by blast
  qed
  ultimately show ?thesis using assms(1,3) by (simp add: minv_def)
qed

lemma release_minv:
  assumes "minv m" and "\<forall>cpu t. m_cur m cpu \<noteq> Some (t, x)"
  shows "minv (space_release m x)"
proof -
  define n where "n = arch_mmu_invalidate_asid m x"
  have ne: "m_asid n = m_asid m" "m_ctx n = m_ctx m" "m_cur n = m_cur m"
      "cx_asid (m_ctx n x) \<noteq> 0 \<longrightarrow> (\<forall>cpu. \<forall>e \<in> m_tlb n cpu. fst e \<noteq> cx_asid (m_ctx n x))"
    by (simp_all add: n_def arch_mmu_invalidate_asid_def)
  have n: "minv n" by (rule minv_subset [OF assms(1)]) (auto simp: n_def arch_mmu_invalidate_asid_def entries_def)
  have wf: "asid_wf (m_asid n)" "tags_ok n" using n by (simp_all add: minv_def)
  obtain s c where r: "asid_release (m_asid n) (m_ctx n x) = (s, c)" by (cases "asid_release (m_asid n) (m_ctx n x)")
  have e: "space_release m x = (retag n s x c)\<lparr>m_tlb_cpus := (m_tlb_cpus n)(x := {})\<rparr>"
    by (simp add: space_release_def n_def [symmetric] r retag_def)
  show ?thesis
  proof (cases "cx_asid (m_ctx n x) = 0")
    case True
    then have "s = m_asid n" "c = m_ctx n x" using r by (simp_all add: asid_release_def)
    then have "retag n s x c = n" by (simp add: retag_def)
    then show ?thesis using n e by simp
  next
    case False
    have c: "c = (m_ctx n x)\<lparr>cx_asid := 0, cx_asid_gen := 0\<rparr>" using r False wf(1) by (auto simp: asid_release_def asid_wf_def)
    have s: "asid_wf s" "g_generation s = g_generation (m_asid n)" "g_count s = g_count (m_asid n)" "g_cpu_generation s = g_cpu_generation (m_asid n)"
      using r False wf(1) by (auto simp: asid_release_def asid_wf_def split: if_splits)
    have tk: "taken s u" if "taken (m_asid n) u" "current n x \<longrightarrow> u \<noteq> cx_asid (m_ctx n x)" for u
    proof (cases "current n x")
      case True
      then have "cx_asid (m_ctx n x) < g_count (m_asid n)" using wf(2) by (simp add: tags_ok_def)
      then have "cx_asid (m_ctx n x) < ASID_MAX" using count_bounds(2) [OF wf(1)] by simp
      then have l: "cx_asid (m_ctx n x) div 64 < length (g_bitmap (m_asid n))"
        using wf(1) word_index by (simp add: asid_wf_def)
      show ?thesis using r False True wf(1) taken_clear [OF l, of u] that
        by (auto simp: asid_release_def asid_wf_def current_def)
    next
      case old: False
      then have "s = m_asid n" using r False wf(1) by (auto simp: asid_release_def asid_wf_def current_def)
      then show ?thesis using that by simp
    qed
    have g: "1 \<le> g_generation (m_asid n)" using wf(1) by (simp add: asid_wf_def)
    have cur: "current (retag n s x c) y \<longleftrightarrow> y \<noteq> x \<and> current n y" for y using g s(2) c by (simp add: current_def retag_def)
    have ctx: "m_ctx (retag n s x c) y = (if y = x then c else m_ctx n y)" for y by (simp add: retag_def)
    have ent: "entries (retag n s x c) = entries n" by (simp add: retag_def entries_def fun_eq_iff)
    have "taken s (cx_asid (m_ctx n y))" if "y \<noteq> x" "current n y" for y
      using wf(2) that by (intro tk) (auto simp: tags_ok_def)
    then have "tags_ok (retag n s x c)"
      using wf(2) s c unfolding tags_ok_def cur ctx by (auto simp: retag_def)
    moreover have "cpu_ok (retag n s x c) cpu" if "cpu < CONFIG_MAX_CPUS" for cpu
    proof -
      have k: "cpu_ok n cpu" using n that by (simp add: minv_def)
      have "y \<noteq> x" if "(t, y) \<in> entries n cpu" "cx_asid (m_ctx n y) = t" for t y
        using that ne(3,4) False assms(2) by (fastforce simp: entries_def)
      then show ?thesis using k unfolding cpu_ok_def ent cur ctx by (fastforce simp: retag_def s)
    qed
    moreover have "isolated (retag n s x c) cpu" for cpu using n unfolding isolated_def ent by (simp add: minv_def isolated_def)
    ultimately show ?thesis unfolding e minv_cpus using s(1) by (simp add: minv_def retag_def)
  qed
qed

lemma init_minv:
  assumes "minv m" and "g_generation (m_asid m) + 1 < W64" and "8 \<le> bits" and "bits \<le> ASID_MAX_BITS"
  shows "\<exists>s. asid_init bits (m_asid m) = Some s \<and> minv (m\<lparr>m_asid := s\<rparr>)"
proof -
  define s where "s = the (asid_init bits (m_asid m))"
  have i: "asid_init bits (m_asid m) = Some s" using assms(3,4) by (simp add: asid_init_def s_def)
  have g: "g_generation s = g_generation (m_asid m) + 1" "g_cpu_generation s = replicate CONFIG_MAX_CPUS 0"
    using i assms(2-4) by (auto simp: asid_init_def u64_id)
  have "(2 :: nat) ^ 8 \<le> 2 ^ bits" using assms(3) by (intro power_increasing) simp_all
  then have "asid_wf s" using i assms(2-4) by (auto simp: asid_init_def asid_wf_def u64_id)
  then have "minv (m\<lparr>m_asid := s\<rparr>)" using g by (intro new_generation [OF assms(1)]) simp_all
  then show ?thesis using i by blast
qed

lemma mstep_minv: "mstep m m' \<Longrightarrow> minv m \<Longrightarrow> minv m'"
proof (induction rule: mstep.induct)
  case (switch cpu m space m')
  then show ?case using switch_minv [of m cpu space] by auto
next
  case (fill m cpu e)
  then show ?case by (intro minv_subset [OF fill(2)]) (auto simp: entries_def)
next
  case (evict m cpu es)
  show ?case by (rule minv_subset [OF evict]) (auto simp: entries_def)
next
  case (release m x)
  then show ?case using release_minv by blast
next
  case (force_rollover m)
  have wf: "asid_wf (m_asid m)" using force_rollover(2) by (simp add: minv_def)
  have "minv (m\<lparr>m_asid := rollover (m_asid m)\<rparr>)"
    using rollover_wf [OF wf force_rollover(1)] stamps_le [OF force_rollover(2)]
    by (intro new_generation [OF force_rollover(2)]) (auto simp: less_Suc_eq_le)
  then show ?case using wf by (simp add: asid_test_force_rollover_def asid_wf_def)
next
  case (set_bits m hw bits s ok)
  then show ?case using init_minv [OF set_bits(3,1), of bits]
    by (auto simp: asid_test_set_bits_def bind_eq_Some_conv split: if_splits)
next
  case (paranoid m on)
  have c: "current (m\<lparr>m_asid := asid_set_paranoid on (m_asid m)\<rparr>) = current m"
    "entries (m\<lparr>m_asid := asid_set_paranoid on (m_asid m)\<rparr>) = entries m"
    by (simp_all add: current_def entries_def fun_eq_iff asid_set_paranoid_def)
  have w: "asid_wf (asid_set_paranoid on (m_asid m)) = asid_wf (m_asid m)" by (simp add: asid_set_paranoid_def asid_wf_def)
  show ?case using paranoid unfolding minv_def tags_ok_def cpu_ok_def isolated_def c
    by (simp add: w) (simp add: asid_set_paranoid_def)
qed

lemma boot_minv:
  assumes "asid_init bits asid_reset = Some s" and "bits \<noteq> 0"
  shows "minv \<lparr>m_asid = s, m_ctx = (\<lambda>x. \<lparr>cx_asid = 0, cx_asid_gen = 0\<rparr>), m_tlb = (\<lambda>cpu. {}), m_cur = (\<lambda>cpu. None),
      m_tlb_cpus = (\<lambda>x. {})\<rparr>"
proof -
  have b: "8 \<le> bits" "bits \<le> ASID_MAX_BITS" using assms by (auto simp: asid_init_def bind_eq_Some_conv)
  have "(2 :: nat) ^ 8 \<le> 2 ^ bits" using b(1) by (intro power_increasing) simp_all
  then have "asid_wf s" "g_generation s = 1" "g_cpu_generation s = replicate CONFIG_MAX_CPUS 0"
    using assms b by (auto simp: asid_init_def asid_wf_def asid_reset_def u64_id)
  then show ?thesis by (simp add: minv_def tags_ok_def cpu_ok_def isolated_def current_def entries_def)
qed

lemma mreach_minv: "mreach m \<Longrightarrow> minv m"
  by (induction rule: mreach.induct) (auto intro: boot_minv mstep_minv)

section \<open>Properties\<close>


definition demo_boot :: machine where
  "demo_boot = \<lparr>m_asid = the (asid_init 8 asid_reset), m_ctx = (\<lambda>x. \<lparr>cx_asid = 0, cx_asid_gen = 0\<rparr>), m_tlb = (\<lambda>cpu. {}), m_cur = (\<lambda>cpu. None),
      m_tlb_cpus = (\<lambda>x. {})\<rparr>"

definition demo_run :: machine where
  "demo_run = the (vm_space_switch demo_boot 0 (Some 7))"

lemma demo_first: "next_free_from 0 (m_asid demo_boot) =
    ((m_asid demo_boot)\<lparr>g_bitmap := (replicate ASID_WORDS 0)[0 := 2], g_next := 2\<rparr>, 1)"
  by (simp add: next_free_from.simps demo_boot_def asid_init_def ASID_MAX_BITS_def bitmap_take_def ASID_WORDS_def ASID_MAX_def)

lemma demo_switch: "vm_space_switch demo_boot 0 (Some 7) = Some demo_run" "m_cur demo_run 0 = Some (1, 7)"
  "g_generation (m_asid demo_run) = 1"
proof -
  have g: "g_generation (m_asid demo_boot) = 1" "g_bits (m_asid demo_boot) = 8" "g_cpu_generation (m_asid demo_boot) = replicate CONFIG_MAX_CPUS 0"
      "m_ctx demo_boot 7 = \<lparr>cx_asid = 0, cx_asid_gen = 0\<rparr>"
    by (simp_all add: demo_boot_def asid_init_def ASID_MAX_BITS_def asid_reset_def u64_def)
  have s: "\<exists>m. vm_space_switch demo_boot 0 (Some 7) = Some m \<and> m_cur m 0 = Some (1, 7) \<and> g_generation (m_asid m) = 1"
    using g by (simp add: vm_space_switch_def switch_prepare_def asid_switch_prepare_def asid_assign_def bitmap_next_free_def
        demo_first asid_stamp_def CONFIG_MAX_CPUS_def arch_mmu_activate_def)
  then show "vm_space_switch demo_boot 0 (Some 7) = Some demo_run" "m_cur demo_run 0 = Some (1, 7)" "g_generation (m_asid demo_run) = 1"
    by (auto simp: demo_run_def)
qed


text \<open>
  The property needs a switch to be one step. The code makes it two: \<open>asid_switch_prepare\<close> compares this
  CPU's stamp with the generation, and \<open>arch_mmu_activate\<close> reads the tag from the context afterwards, with
  interrupts off but no lock held. Every tag is taken here; CPU 0 holds a translation of space 3 under tag 2.
\<close>

definition race_start :: machine where
  "race_start =
     \<lparr>m_asid = (m_asid demo_boot)\<lparr>g_bitmap := replicate ASID_WORDS (-1), g_cpu_generation := replicate CONFIG_MAX_CPUS 1\<rparr>,
      m_ctx = (\<lambda>x. \<lparr>cx_asid = 0, cx_asid_gen = 0\<rparr>)(1 := \<lparr>cx_asid = 5, cx_asid_gen = 1\<rparr>, 3 := \<lparr>cx_asid = 2, cx_asid_gen = 1\<rparr>),
      m_tlb = (\<lambda>cpu. {})(0 := {(2, 3)}), m_cur = (\<lambda>cpu. None), m_tlb_cpus = (\<lambda>x. {})(1 := {0}, 3 := {0})\<rparr>"

lemma demo_boot_fields: "g_bits (m_asid demo_boot) = 8" "g_count (m_asid demo_boot) = 256" "g_next (m_asid demo_boot) = 1"
  "g_generation (m_asid demo_boot) = 1" "g_paranoid (m_asid demo_boot) = False"
  by (simp_all add: demo_boot_def asid_init_def ASID_MAX_BITS_def asid_reset_def u64_def)

lemma race_fields: "g_bits (m_asid race_start) = 8" "g_count (m_asid race_start) = 256" "g_next (m_asid race_start) = 1"
  "g_generation (m_asid race_start) = 1" "g_paranoid (m_asid race_start) = False" "g_bitmap (m_asid race_start) = replicate ASID_WORDS (-1)"
  "g_cpu_generation (m_asid race_start) = replicate CONFIG_MAX_CPUS 1"
  by (simp_all add: race_start_def demo_boot_fields)

lemma race_full: "t < 256 \<Longrightarrow> taken (m_asid race_start) t"
  using word_index [of t] by (simp add: taken_def race_fields ASID_MAX_def ASID_MAX_BITS_def bit_minus_1_iff)

lemma race_ctx: "m_ctx race_start 1 = \<lparr>cx_asid = 5, cx_asid_gen = 1\<rparr>" "m_ctx race_start 2 = \<lparr>cx_asid = 0, cx_asid_gen = 0\<rparr>"
  "m_ctx race_start 3 = \<lparr>cx_asid = 2, cx_asid_gen = 1\<rparr>"
  by (simp_all add: race_start_def)

lemma race_inv: "minv race_start"
proof -
  have wf: "asid_wf (m_asid race_start)" by (simp add: asid_wf_def race_fields ASID_MAX_BITS_def)
  have c: "current race_start x \<longleftrightarrow> x = 1 \<or> x = 3" for x by (auto simp: current_def race_fields) (auto simp: race_start_def split: if_splits)
  have "cx_asid_gen (m_ctx race_start x) \<le> 1" for x by (simp add: race_start_def)
  then have "tags_ok race_start"
    unfolding tags_ok_def c by (auto simp: race_fields race_full race_ctx simp del: One_nat_def)
  moreover have "cpu_ok race_start cpu" if "cpu < CONFIG_MAX_CPUS" for cpu
    using that by (simp add: cpu_ok_def race_fields c) (auto simp: entries_def race_start_def split: if_splits)
  moreover have "isolated race_start cpu" for cpu by (auto simp: isolated_def entries_def race_start_def split: if_splits)
  ultimately show ?thesis using wf by (simp add: minv_def)
qed

lemma race_none_free: "bitmap_next_free (m_asid race_start) = (m_asid race_start, 0)"
proof -
  have wf: "asid_wf (m_asid race_start)" using race_inv by (simp add: minv_def)
  obtain s' tag where e: "next_free_from 0 (m_asid race_start) = (s', tag)" by (cases "next_free_from 0 (m_asid race_start)")
  have "\<not> found_tag (m_asid race_start) s' tag" using race_full by (auto simp: found_tag_def race_fields)
  then show ?thesis using next_free_from_found [OF wf e] e by (simp add: bitmap_next_free_def)
qed

text \<open>The first two tags of the generation that follows, and the allocator after each.\<close>

definition race_roll :: asid_state where "race_roll = rollover (m_asid race_start)"

definition race_tags :: "nat \<Rightarrow> asid_state" where
  "race_tags n = race_roll\<lparr>g_bitmap := (replicate ASID_WORDS 0)[0 := 2 ^ (n + 1) - 2], g_next := n + 1\<rparr>"

lemma race_first: "bitmap_next_free race_roll = (race_tags 1, 1)"
  by (simp add: bitmap_next_free_def next_free_from.simps race_tags_def race_roll_def rollover_def race_fields bitmap_take_def
      ASID_WORDS_def ASID_MAX_def ASID_MAX_BITS_def)

lemma race_second: "bitmap_next_free ((race_tags 1)\<lparr>g_cpu_generation := b, g_stats := a\<rparr>) =
    ((race_tags 2)\<lparr>g_cpu_generation := b, g_stats := a\<rparr>, 2)"
  by (simp add: bitmap_next_free_def next_free_from.simps race_tags_def race_roll_def rollover_def race_fields bitmap_take_def
      ASID_WORDS_def ASID_MAX_def ASID_MAX_BITS_def)

lemma race_prepare: "switch_prepare race_start 0 (Some 1) = Some (race_start, False)"
  by (simp add: switch_prepare_def asid_switch_prepare_def asid_assign_def asid_stamp_def race_fields race_ctx CONFIG_MAX_CPUS_def
      del: One_nat_def) (simp add: race_start_def fun_eq_iff)

lemma race_roll_fields: "g_generation race_roll = 2" "g_bits race_roll = 8" "g_cpu_generation race_roll = replicate CONFIG_MAX_CPUS 1"
  "g_paranoid race_roll = False"
  by (simp_all add: race_roll_def rollover_def race_fields u64_def)

lemma race_tags_fields: "g_generation (race_tags n) = 2" "g_bits (race_tags n) = 8"
  "g_cpu_generation (race_tags n) = replicate CONFIG_MAX_CPUS 1" "g_paranoid (race_tags n) = False"
  by (simp_all add: race_tags_def race_roll_fields)

lemma race_runs_out:
  obtains m a b where "vm_space_switch race_start 1 (Some 2) = Some m" "m_asid m = (race_tags 1)\<lparr>g_cpu_generation := b, g_stats := a\<rparr>"
    "length b = CONFIG_MAX_CPUS" "m_ctx m 1 = \<lparr>cx_asid = 5, cx_asid_gen = 1\<rparr>" "m_tlb m 0 = {(2, 3)}"
proof -
  have "\<exists>m a b. vm_space_switch race_start 1 (Some 2) = Some m \<and> m_asid m = (race_tags 1)\<lparr>g_cpu_generation := b, g_stats := a\<rparr> \<and>
      length b = CONFIG_MAX_CPUS \<and> m_ctx m 1 = \<lparr>cx_asid = 5, cx_asid_gen = 1\<rparr> \<and> m_tlb m 0 = {(2, 3)}"
    by (simp add: vm_space_switch_def switch_prepare_def asid_switch_prepare_def asid_assign_def asid_stamp_def race_fields race_ctx
        race_none_free race_roll_def [symmetric] race_first race_tags_fields CONFIG_MAX_CPUS_def arch_mmu_activate_def
        del: One_nat_def)
      (auto simp: race_start_def race_tags_def intro!: exI)
  then show ?thesis using that by blast
qed

lemma race_retags:
  assumes "m_asid m = (race_tags 1)\<lparr>g_cpu_generation := b, g_stats := a\<rparr>" "length b = CONFIG_MAX_CPUS"
    "m_ctx m 1 = \<lparr>cx_asid = 5, cx_asid_gen = 1\<rparr>"
  obtains m' where "vm_space_switch m 2 (Some 1) = Some m'" "cx_asid (m_ctx m' 1) = 2" "m_tlb m' 0 = m_tlb m 0"
proof -
  have "\<exists>m'. vm_space_switch m 2 (Some 1) = Some m' \<and> cx_asid (m_ctx m' 1) = 2 \<and> m_tlb m' 0 = m_tlb m 0"
    using assms by (simp add: vm_space_switch_def switch_prepare_def asid_switch_prepare_def asid_assign_def race_tags_fields
        race_second del: One_nat_def) (simp add: asid_stamp_def arch_mmu_activate_def)
  then show ?thesis using that by blast
qed

text \<open>
  C23. Isolation is lost when a switch is interleaved with two others. From a machine that satisfies the
  invariant, CPU 0 prepares a switch to space 1 and is told not to flush; CPU 1 switches to an untagged
  space and, every tag being taken, begins a new generation; CPU 2 switches to space 1 and gives it tag 2;
  CPU 0 then activates space 1 under tag 2 while it still holds the translation of space 3 under that tag.
\<close>

theorem asid_switch_race:
  "minv race_start \<and>
   (\<exists>m1 m2 m3. switch_prepare race_start 0 (Some 1) = Some (m1, False) \<and> vm_space_switch m1 1 (Some 2) = Some m2 \<and>
      vm_space_switch m2 2 (Some 1) = Some m3 \<and>
      m_cur (arch_mmu_activate m3 0 (Some 1) False) 0 = Some (2, 1) \<and> (2, 3) \<in> m_tlb (arch_mmu_activate m3 0 (Some 1) False) 0)"
proof -
  obtain m2 a b where m2: "vm_space_switch race_start 1 (Some 2) = Some m2" "m_asid m2 = (race_tags 1)\<lparr>g_cpu_generation := b, g_stats := a\<rparr>"
    "length b = CONFIG_MAX_CPUS" "m_ctx m2 1 = \<lparr>cx_asid = 5, cx_asid_gen = 1\<rparr>" "m_tlb m2 0 = {(2, 3)}"
    by (rule race_runs_out)
  obtain m3 where m3: "vm_space_switch m2 2 (Some 1) = Some m3" "cx_asid (m_ctx m3 1) = 2" "m_tlb m3 0 = m_tlb m2 0"
    by (rule race_retags [OF m2(2-4)])
  have "m_cur (arch_mmu_activate m3 0 (Some 1) False) 0 = Some (2, 1)" "(2, 3) \<in> m_tlb (arch_mmu_activate m3 0 (Some 1) False) 0"
    using m2(5) m3(2,3) by (simp_all add: arch_mmu_activate_def)
  then show ?thesis using race_inv race_prepare m2(1) m3(1) by blast
qed

end
