(* ===== verification/Fair.thy ===== *)
theory Fair
  imports Prelude
begin

text \<open>
  The virtual time of the fair level (\<open>kernel/scheduler/fair.cee\<close>, \<open>kernel/include/kernel/fair.h\<close>):
  the weights of nice values and the saturating arithmetic that orders the level. A \<open>u64\<close> is a \<open>nat\<close>
  below two to the 64, and the saturating operations are written out.
\<close>

definition FAIR_GRANULARITY_NS :: nat where "FAIR_GRANULARITY_NS = 4 * 1000 * 1000"
definition FAIR_WAKE_BONUS_NS :: nat where "FAIR_WAKE_BONUS_NS = 5 * 1000 * 1000"
definition NICE_0_WEIGHT :: nat where "NICE_0_WEIGHT = 1024"

definition WEIGHTS :: "nat list" where
  "WEIGHTS =
     [88761, 71755, 56483, 46273, 36291,
      29154, 23254, 18705, 14949, 11916,
      9548, 7620, 6100, 4904, 3906,
      3121, 2501, 1991, 1586, 1277,
      1024, 820, 655, 526, 423,
      335, 272, 215, 172, 137,
      110, 87, 70, 56, 45,
      36, 29, 23, 18, 15]"

definition sat_add :: "nat \<Rightarrow> nat \<Rightarrow> nat" where "sat_add a b = min (a + b) (W64 - 1)"
definition sat_mul :: "nat \<Rightarrow> nat \<Rightarrow> nat" where "sat_mul a b = min (a * b) (W64 - 1)"
definition sat_sub :: "nat \<Rightarrow> nat \<Rightarrow> nat" where "sat_sub a b = a - b"

definition fair_weight :: "int \<Rightarrow> nat" where
  "fair_weight nice =
     (if nice \<le> - 20 then WEIGHTS ! 0 else if nice \<ge> 19 then WEIGHTS ! 39 else WEIGHTS ! nat (nice + 20))"

definition fair_charge :: "nat \<Rightarrow> nat \<Rightarrow> nat \<Rightarrow> nat" where
  "fair_charge vruntime delta w =
     (let weight = (if w = 0 then 1 else w); q = delta div weight; r = delta mod weight;
          scaled = sat_add (sat_mul q NICE_0_WEIGHT) (u64 (r * NICE_0_WEIGHT) div weight)
      in sat_add vruntime scaled)"

definition fair_place :: "nat \<Rightarrow> nat \<Rightarrow> nat \<Rightarrow> nat" where
  "fair_place vruntime min_vruntime bonus =
     (let fl = sat_sub min_vruntime bonus in if vruntime < fl then fl else vruntime)"

definition fair_rebase :: "nat \<Rightarrow> nat \<Rightarrow> nat \<Rightarrow> nat" where
  "fair_rebase vruntime from_min to_min =
     (if vruntime \<ge> from_min then sat_add to_min (vruntime - from_min) else sat_sub to_min (from_min - vruntime))"

definition fair_before :: "nat \<Rightarrow> nat \<Rightarrow> bool" where "fair_before a b \<longleftrightarrow> a < b"

definition fair_should_preempt :: "nat \<Rightarrow> nat \<Rightarrow> nat \<Rightarrow> bool" where
  "fair_should_preempt current leftmost granularity \<longleftrightarrow> current > sat_add leftmost granularity"

definition fair_min :: "nat \<Rightarrow> nat option \<Rightarrow> nat option \<Rightarrow> nat" where
  "fair_min min_vruntime current leftmost =
     (let candidate = (case (current, leftmost) of
          (Some c, Some l) \<Rightarrow> (if c < l then c else l)
        | (Some c, None) \<Rightarrow> c
        | (None, Some l) \<Rightarrow> l
        | (None, None) \<Rightarrow> min_vruntime)
      in if candidate > min_vruntime then candidate else min_vruntime)"

section \<open>Properties of the arithmetic\<close>

lemma fair_weight_pos: "15 \<le> fair_weight nice \<and> fair_weight nice \<le> 88761"
proof -
  have "\<forall>w \<in> set WEIGHTS. 15 \<le> w \<and> w \<le> 88761" by (simp add: WEIGHTS_def)
  moreover have "length WEIGHTS = 40" by (simp add: WEIGHTS_def)
  then have "fair_weight nice \<in> set WEIGHTS"
    unfolding fair_weight_def by (auto intro!: nth_mem simp: nat_less_iff)
  ultimately show ?thesis by blast
qed

lemma fair_bounds [simp]:
  "sat_add a b < W64" "sat_mul a b < W64" "fair_charge v d w < W64"
  by (simp_all add: sat_add_def sat_mul_def fair_charge_def Let_def min_def)

lemma fair_place_bound: "v < W64 \<Longrightarrow> m < W64 \<Longrightarrow> fair_place v m b < W64"
  unfolding fair_place_def sat_sub_def Let_def by (auto intro: le_less_trans [OF diff_le_self])

lemma fair_rebase_bound: "t < W64 \<Longrightarrow> fair_rebase v f t < W64"
  unfolding fair_rebase_def sat_sub_def by (auto intro: le_less_trans [OF diff_le_self])

lemma fair_min_ge: "m \<le> fair_min m c l"
  by (simp add: fair_min_def Let_def)

lemma fair_min_bound: "m < W64 \<Longrightarrow> (\<forall>x. c = Some x \<longrightarrow> x < W64) \<Longrightarrow> (\<forall>x. l = Some x \<longrightarrow> x < W64) \<Longrightarrow> fair_min m c l < W64"
  by (auto simp: fair_min_def Let_def split: option.splits)

text \<open>Splitting the run time by the weight loses nothing: the charge is the exact quotient, up to saturation.\<close>

lemma fair_charge_exact:
  assumes "0 < w" and "w < W32" and "v < W64"
  shows "fair_charge v d w = min (v + d * 1024 div w) (W64 - 1)"
proof -
  define q r where "q = d div w" and "r = d mod w"
  have "d = q * w + r" by (simp add: q_def r_def)
  then have d: "d * 1024 = q * 1024 * w + r * 1024" by simp
  have e: "d * 1024 div w = q * 1024 + r * 1024 div w" unfolding d using assms(1) by simp
  have "r < w" using assms(1) by (simp add: r_def)
  then have "r * 1024 < W64" using assms(2) by simp
  then have "fair_charge v d w = sat_add v (sat_add (sat_mul q 1024) (r * 1024 div w))"
    using assms(1) by (simp add: fair_charge_def NICE_0_WEIGHT_def q_def r_def u64_id Let_def)
  also have "\<dots> = min (v + d * 1024 div w) (W64 - 1)" unfolding e sat_add_def sat_mul_def by (simp add: min_def)
  finally show ?thesis .
qed

lemma fair_charge_ge: "v < W64 \<Longrightarrow> v \<le> fair_charge v d w"
  by (simp add: fair_charge_def sat_add_def Let_def)

end
