(* ===== verification/Sched.thy ===== *)
theory Sched
  imports Fair Asid
begin

text \<open>
  The scheduler: the policy (\<open>kernel/scheduler/policy_rr.c\<close>) and the mechanism that drives it
  (\<open>kernel/scheduler/sched.c\<close>): the switch, waking, blocking, priority changes, migration, balancing and
  the tick.

  A thread is named by a number. A level's intrusive list is the sequence of the threads on it, and
  \<open>t_queued\<close> is whether a thread's link is in a list. Each critical section of a run-queue lock is one
  step; the clock is what \<open>clock_now_ns\<close> reads in it. A reschedule IPI only makes another CPU look at
  its \<open>need_resched\<close>, so it has no state here.
\<close>

section \<open>Threads and run queues\<close>

type_synonym tid = nat

definition SCHED_PRIO_COUNT :: int where "SCHED_PRIO_COUNT = 64"
definition SCHED_PRIO_DEFAULT :: int where "SCHED_PRIO_DEFAULT = 32"
definition SCHED_PRIO_LOWEST :: int where "SCHED_PRIO_LOWEST = SCHED_PRIO_COUNT - 1"
definition SCHED_SLICE_NS :: nat where "SCHED_SLICE_NS = 10 * 1000 * 1000"
definition FAIR_LEVEL :: int where "FAIR_LEVEL = SCHED_PRIO_DEFAULT"
definition THREAD_FLAG_PREEMPTED :: "32 word" where "THREAD_FLAG_PREEMPTED = flag 2"
definition CPUMASK_OF :: "nat \<Rightarrow> 64 word" where "CPUMASK_OF c = flag c"

datatype thread_state = THREAD_READY | THREAD_RUNNING | THREAD_BLOCKED | THREAD_EXITED

record thread =
  t_state :: thread_state
  t_priority :: int
  t_nice :: int
  t_affinity :: "64 word"
  t_cpu :: int
  t_slice_left_ns :: nat
  t_run_time_ns :: nat
  t_vruntime :: nat
  t_vruntime_stamp_ns :: nat
  t_yield_pending :: bool
  t_last_start_ns :: nat
  t_ready_since_ns :: nat
  t_switches :: nat
  t_queued :: bool
  t_flags :: "32 word"

record runqueue =
  rq_bitmap :: "64 word"
  rq_ready :: "nat \<Rightarrow> tid list"
  rq_nr_running :: nat
  rq_current :: "tid option"
  rq_idle :: "tid option"
  rq_prev_exited :: "tid option"
  rq_switches :: nat
  rq_fair_min :: nat
  rq_picks :: nat

record sched =
  s_thread :: "tid \<Rightarrow> thread"
  s_rq :: "nat \<Rightarrow> runqueue"
  s_need_resched :: "nat \<Rightarrow> bool"
  s_pc_current :: "nat \<Rightarrow> tid option"
  s_clock :: nat
  s_cpu_count :: nat
  s_online :: "nat \<Rightarrow> bool"
  s_migrations :: nat
  s_pick_rotor :: nat

definition upd_thread :: "tid \<Rightarrow> (thread \<Rightarrow> thread) \<Rightarrow> sched \<Rightarrow> sched" where
  "upd_thread t f s = s\<lparr>s_thread := (s_thread s)(t := f (s_thread s t))\<rparr>"

definition upd_rq :: "nat \<Rightarrow> (runqueue \<Rightarrow> runqueue) \<Rightarrow> sched \<Rightarrow> sched" where
  "upd_rq cpu f s = s\<lparr>s_rq := (s_rq s)(cpu := f (s_rq s cpu))\<rparr>"

definition set_resched :: "nat \<Rightarrow> bool \<Rightarrow> sched \<Rightarrow> sched" where
  "set_resched cpu b s = s\<lparr>s_need_resched := (s_need_resched s)(cpu := b)\<rparr>"

definition level :: "thread \<Rightarrow> nat" where "level th = nat (t_priority th)"

definition clock_delta_ns :: "nat \<Rightarrow> nat \<Rightarrow> nat" where
  "clock_delta_ns now stamp = (if now > stamp then now - stamp else 0)"

section \<open>The policy\<close>

definition fair_vruntime :: "sched \<Rightarrow> tid \<Rightarrow> nat" where
  "fair_vruntime s t = t_vruntime (s_thread s t)"

text \<open>A level's list with a thread put on it; \<open>list_remove\<close> takes a thread off the list it is on.\<close>

definition set_ready :: "nat \<Rightarrow> nat \<Rightarrow> tid list \<Rightarrow> sched \<Rightarrow> sched" where
  "set_ready cpu p ts s = upd_rq cpu (\<lambda>rq. rq\<lparr>rq_ready := (rq_ready rq)(p := ts)\<rparr>) s"

definition unlink_thread :: "tid \<Rightarrow> sched \<Rightarrow> sched" where
  "unlink_thread t s =
     upd_thread t (\<lambda>th. th\<lparr>t_queued := False\<rparr>)
       (s\<lparr>s_rq := (\<lambda>cpu. (s_rq s cpu)\<lparr>rq_ready := (\<lambda>p. remove1 t (rq_ready (s_rq s cpu) p))\<rparr>)\<rparr>)"

text \<open>The walk from the tail over the threads the new one runs before; it goes after the one where the walk ends.\<close>

definition fair_insert :: "(tid \<Rightarrow> nat) \<Rightarrow> nat \<Rightarrow> tid \<Rightarrow> tid list \<Rightarrow> tid list" where
  "fair_insert vr v t q =
     rev (dropWhile (\<lambda>u. fair_before v (vr u)) (rev q)) @ t # rev (takeWhile (\<lambda>u. fair_before v (vr u)) (rev q))"

definition fair_enqueue :: "nat \<Rightarrow> tid \<Rightarrow> sched \<Rightarrow> sched" where
  "fair_enqueue cpu t s =
     (let th = s_thread s t; q = rq_ready (s_rq s cpu) (nat FAIR_LEVEL) in
      if t_yield_pending th
      then let v = (if q \<noteq> [] \<and> fair_before (t_vruntime th) (fair_vruntime s (last q)) then fair_vruntime s (last q) else t_vruntime th)
        in set_ready cpu (nat FAIR_LEVEL) (q @ [t]) (upd_thread t (\<lambda>th. th\<lparr>t_vruntime := v\<rparr>) s)
      else let v = fair_place (t_vruntime th) (rq_fair_min (s_rq s cpu)) FAIR_WAKE_BONUS_NS
        in set_ready cpu (nat FAIR_LEVEL) (fair_insert (fair_vruntime s) v t q) (upd_thread t (\<lambda>th. th\<lparr>t_vruntime := v\<rparr>) s))"

definition rr_enqueue :: "nat \<Rightarrow> tid \<Rightarrow> bool \<Rightarrow> sched \<Rightarrow> sched option" where
  "rr_enqueue cpu t at_head s = do {
     let th = s_thread s t;
     let p = level th;
     kassert (\<not> t_queued th);
     kassert (t_priority th \<ge> 0 \<and> t_priority th < SCHED_PRIO_COUNT);
     let s = (if t_priority th = FAIR_LEVEL then fair_enqueue cpu t s
              else if at_head then set_ready cpu p (t # rq_ready (s_rq s cpu) p) s
              else set_ready cpu p (rq_ready (s_rq s cpu) p @ [t]) s);
     let s = upd_thread t (\<lambda>th. th\<lparr>t_yield_pending := False, t_queued := True, t_ready_since_ns := s_clock s\<rparr>) s;
     Some (upd_rq cpu (\<lambda>rq. rq\<lparr>rq_bitmap := rq_bitmap rq OR flag p, rq_nr_running := u32 (rq_nr_running rq + 1)\<rparr>) s)
   }"

definition rr_dequeue :: "nat \<Rightarrow> tid \<Rightarrow> sched \<Rightarrow> sched option" where
  "rr_dequeue cpu t s = do {
     let p = level (s_thread s t);
     kassert (t_queued (s_thread s t));
     let s = unlink_thread t s;
     let s = (if rq_ready (s_rq s cpu) p = [] then upd_rq cpu (\<lambda>rq. rq\<lparr>rq_bitmap := rq_bitmap rq AND NOT (flag p)\<rparr>) s else s);
     kassert (rq_nr_running (s_rq s cpu) > 0);
     Some (upd_rq cpu (\<lambda>rq. rq\<lparr>rq_nr_running := rq_nr_running rq - 1\<rparr>) s)
   }"

text \<open>The first entry of a list that has none is no thread: the outer \<open>None\<close>.\<close>

definition rr_pick_next :: "nat \<Rightarrow> sched \<Rightarrow> tid option option" where
  "rr_pick_next cpu s =
     (let rq = s_rq s cpu in
      if rq_bitmap rq = 0 then Some None
      else case rq_ready rq (ctz64 (rq_bitmap rq)) of [] \<Rightarrow> None | t # ts \<Rightarrow> Some (Some t))"

definition migratable :: "sched \<Rightarrow> nat \<Rightarrow> 64 word \<Rightarrow> tid \<Rightarrow> bool" where
  "migratable s cpu allowed t \<longleftrightarrow>
     rq_current (s_rq s cpu) \<noteq> Some t \<and> \<not> has (t_flags (s_thread s t)) THREAD_FLAG_PREEMPTED \<and> has (t_affinity (s_thread s t)) allowed"

text \<open>The levels whose bit is set from the lowest priority, the highest number, down; each from its tail.\<close>

fun pick_below :: "nat \<Rightarrow> nat \<Rightarrow> 64 word \<Rightarrow> sched \<Rightarrow> tid option" where
  "pick_below 0 cpu allowed s = None"
| "pick_below (Suc p) cpu allowed s =
     (if bit (rq_bitmap (s_rq s cpu)) p
      then (case find (migratable s cpu allowed) (rev (rq_ready (s_rq s cpu) p)) of
              Some t \<Rightarrow> Some t | None \<Rightarrow> pick_below p cpu allowed s)
      else pick_below p cpu allowed s)"

definition rr_pick_migratable :: "nat \<Rightarrow> 64 word \<Rightarrow> sched \<Rightarrow> tid option" where
  "rr_pick_migratable cpu allowed s = pick_below 64 cpu allowed s"

definition rr_slice_new :: "tid \<Rightarrow> sched \<Rightarrow> sched" where
  "rr_slice_new t s = upd_thread t (\<lambda>th. th\<lparr>t_slice_left_ns := SCHED_SLICE_NS\<rparr>) s"

definition fair_leftmost :: "nat \<Rightarrow> sched \<Rightarrow> tid option" where
  "fair_leftmost cpu s = (case rq_ready (s_rq s cpu) (nat FAIR_LEVEL) of [] \<Rightarrow> None | t # ts \<Rightarrow> Some t)"

definition rr_charge :: "nat \<Rightarrow> tid \<Rightarrow> nat \<Rightarrow> sched \<Rightarrow> sched" where
  "rr_charge cpu t now_ns s =
     (let th = s_thread s t;
          start = (if t_last_start_ns th > t_vruntime_stamp_ns th then t_last_start_ns th else t_vruntime_stamp_ns th);
          v = (if t_priority th = FAIR_LEVEL
               then fair_charge (t_vruntime th) (clock_delta_ns now_ns start) (fair_weight (t_nice th)) else t_vruntime th);
          s = upd_thread t (\<lambda>th. th\<lparr>t_vruntime := v, t_vruntime_stamp_ns := now_ns\<rparr>) s;
          cur = (rq_current (s_rq s cpu) = Some t \<and> t_priority th = FAIR_LEVEL)
      in upd_rq cpu (\<lambda>rq. rq\<lparr>rq_fair_min := fair_min (rq_fair_min rq) (if cur then Some v else None)
           (map_option (fair_vruntime s) (fair_leftmost cpu s))\<rparr>) s)"

definition rr_moved :: "nat \<Rightarrow> nat \<Rightarrow> tid \<Rightarrow> sched \<Rightarrow> sched" where
  "rr_moved from_cpu to_cpu t s =
     upd_thread t (\<lambda>th. th\<lparr>t_vruntime := fair_rebase (t_vruntime th) (rq_fair_min (s_rq s from_cpu)) (rq_fair_min (s_rq s to_cpu))\<rparr>) s"

definition rr_tick :: "nat \<Rightarrow> tid \<Rightarrow> nat \<Rightarrow> sched \<Rightarrow> sched" where
  "rr_tick cpu cur elapsed_ns s =
     (let th = s_thread s cur; bm = rq_bitmap (s_rq s cpu) in
      if t_priority th = FAIR_LEVEL
      then if (bm \<noteq> 0 \<and> ctz64 bm < nat FAIR_LEVEL) \<or>
              (case fair_leftmost cpu s of None \<Rightarrow> False
               | Some l \<Rightarrow> fair_should_preempt (t_vruntime th) (fair_vruntime s l) FAIR_GRANULARITY_NS)
        then set_resched cpu True s else s
      else if t_slice_left_ns th > elapsed_ns
      then upd_thread cur (\<lambda>th. th\<lparr>t_slice_left_ns := t_slice_left_ns th - elapsed_ns\<rparr>) s
      else let s = upd_thread cur (\<lambda>th. th\<lparr>t_slice_left_ns := 0\<rparr>) s in
        if bm \<noteq> 0 \<and> int (ctz64 bm) \<le> t_priority th then set_resched cpu True s else rr_slice_new cur s)"

section \<open>The switch\<close>

definition rq_init :: runqueue where
  "rq_init =
     \<lparr>rq_bitmap = 0, rq_ready = (\<lambda>p. []), rq_nr_running = 0, rq_current = None, rq_idle = None, rq_prev_exited = None,
      rq_switches = 0, rq_fair_min = 0, rq_picks = 0\<rparr>"

definition sched_finish_switch :: "nat \<Rightarrow> sched \<Rightarrow> sched" where
  "sched_finish_switch cpu s = upd_rq cpu (\<lambda>rq. rq\<lparr>rq_prev_exited := None\<rparr>) s"

text \<open>What a pass does with the thread it switches out.\<close>

definition put_prev :: "nat \<Rightarrow> bool \<Rightarrow> tid \<Rightarrow> sched \<Rightarrow> sched option" where
  "put_prev cpu preempt prev s =
     (let st = t_state (s_thread s prev); idle = (rq_idle (s_rq s cpu) = Some prev) in
      if st = THREAD_EXITED then do { kassert (\<not> preempt); Some (upd_rq cpu (\<lambda>rq. rq\<lparr>rq_prev_exited := Some prev\<rparr>) s) }
      else if st = THREAD_READY then Some s
      else if preempt \<or> st = THREAD_RUNNING
      then let s = upd_thread prev (\<lambda>th. th\<lparr>t_state := THREAD_READY\<rparr>) s in
        if \<not> idle then rr_enqueue cpu prev (t_slice_left_ns (s_thread s prev) > 0) s else Some s
      else Some s)"

text \<open>The next thread, taken off its queue, or the idle thread.\<close>

definition take_next :: "nat \<Rightarrow> sched \<Rightarrow> (sched \<times> tid) option" where
  "take_next cpu s = do {
     r \<leftarrow> rr_pick_next cpu s;
     (case r of
        Some t \<Rightarrow> do { s \<leftarrow> rr_dequeue cpu t s; Some (s, t) }
      | None \<Rightarrow> do { i \<leftarrow> rq_idle (s_rq s cpu); Some (s, i) })
   }"

text \<open>The thread that runs next starts, and on a switch it finishes what the one before left.\<close>

definition switch_to :: "nat \<Rightarrow> nat \<Rightarrow> tid \<Rightarrow> tid \<Rightarrow> sched \<Rightarrow> sched" where
  "switch_to cpu now prev nxt s =
     (let s = upd_thread nxt (\<lambda>th. th\<lparr>t_state := THREAD_RUNNING, t_flags := t_flags th AND NOT THREAD_FLAG_PREEMPTED,
                t_yield_pending := False, t_last_start_ns := now\<rparr>) s in
      if nxt = prev then s
      else let s = upd_thread nxt (\<lambda>th. th\<lparr>t_cpu := int cpu, t_switches := u64 (t_switches th + 1)\<rparr>) s;
               s = (if t_slice_left_ns (s_thread s nxt) = 0 then rr_slice_new nxt s else s);
               s = upd_rq cpu (\<lambda>rq. rq\<lparr>rq_current := Some nxt, rq_switches := u64 (rq_switches rq + 1)\<rparr>) s;
               s = s\<lparr>s_pc_current := (s_pc_current s)(cpu := Some nxt)\<rparr>
           in sched_finish_switch cpu s)"

definition schedule_pass :: "nat \<Rightarrow> bool \<Rightarrow> sched \<Rightarrow> sched option" where
  "schedule_pass cpu preempt s = do {
     prev \<leftarrow> rq_current (s_rq s cpu);
     let now = s_clock s;
     let s = upd_thread prev (\<lambda>th. th\<lparr>t_run_time_ns := u64 (t_run_time_ns th + clock_delta_ns now (t_last_start_ns th))\<rparr>) s;
     let s = (if rq_idle (s_rq s cpu) \<noteq> Some prev then rr_charge cpu prev now s else s);
     let s = (if preempt \<and> rq_idle (s_rq s cpu) \<noteq> Some prev
              then upd_thread prev (\<lambda>th. th\<lparr>t_flags := t_flags th OR THREAD_FLAG_PREEMPTED\<rparr>) s else s);
     s \<leftarrow> put_prev cpu preempt prev s;
     (s, nxt) \<leftarrow> take_next cpu s;
     let s = set_resched cpu False s;
     let s = upd_rq cpu (\<lambda>rq. rq\<lparr>rq_picks := u64 (rq_picks rq + 1)\<rparr>) s;
     Some (switch_to cpu now prev nxt s)
   }"

text \<open>A thread that gives way, and one that ends; each makes one pass, on the CPU it runs on.\<close>

definition sched_yield :: "nat \<Rightarrow> sched \<Rightarrow> sched option" where
  "sched_yield cpu s = do {
     self \<leftarrow> s_pc_current s cpu;
     schedule_pass cpu False (upd_thread self (\<lambda>th. th\<lparr>t_slice_left_ns := 0, t_yield_pending := True\<rparr>) s)
   }"

definition thread_exit :: "nat \<Rightarrow> sched \<Rightarrow> sched option" where
  "thread_exit cpu s = do {
     self \<leftarrow> s_pc_current s cpu;
     schedule_pass cpu False (upd_thread self (\<lambda>th. th\<lparr>t_state := THREAD_EXITED\<rparr>) s)
   }"

section \<open>Waking, blocking and priorities\<close>

definition request_resched :: "nat \<Rightarrow> sched \<Rightarrow> sched" where
  "request_resched cpu s = set_resched cpu True s"

definition sched_cpu_load :: "nat \<Rightarrow> sched \<Rightarrow> nat" where
  "sched_cpu_load cpu s =
     (if cpu \<ge> CONFIG_MAX_CPUS then 0
      else let rq = s_rq s cpu in
        u32 (rq_nr_running rq + (if rq_current rq \<noteq> None \<and> rq_current rq \<noteq> rq_idle rq then 1 else 0)))"

fun pick_least :: "64 word \<Rightarrow> nat list \<Rightarrow> nat \<Rightarrow> nat \<Rightarrow> sched \<Rightarrow> nat" where
  "pick_least affinity [] best best_load s = best"
| "pick_least affinity (c # cs) best best_load s =
     (if \<not> has affinity (CPUMASK_OF c) \<or> \<not> s_online s c then pick_least affinity cs best best_load s
      else if sched_cpu_load c s < best_load then pick_least affinity cs c (sched_cpu_load c s) s
      else pick_least affinity cs best best_load s)"

text \<open>\<open>self\<close> is the CPU the code runs on.\<close>

definition pick_cpu :: "nat \<Rightarrow> tid \<Rightarrow> sched \<Rightarrow> sched \<times> nat" where
  "pick_cpu self t s =
     (let n = s_cpu_count s; start = (if n \<noteq> 0 then s_pick_rotor s mod n else 0);
          s = (if n \<noteq> 0 then s\<lparr>s_pick_rotor := u32 (s_pick_rotor s + 1)\<rparr> else s)
      in (s, pick_least (t_affinity (s_thread s t)) (map (\<lambda>i. u32 (start + i) mod n) [0..<n]) self (W32 - 1) s))"

definition sched_enqueue_new :: "nat \<Rightarrow> tid \<Rightarrow> sched \<Rightarrow> sched option" where
  "sched_enqueue_new self t s =
     (case pick_cpu self t s of (s, cpu) \<Rightarrow> do {
        let s = upd_thread t (\<lambda>th. th\<lparr>t_cpu := int cpu, t_state := THREAD_READY\<rparr>) s;
        s \<leftarrow> rr_enqueue cpu t False (rr_slice_new t s);
        Some (if (case rq_current (s_rq s cpu) of None \<Rightarrow> True | Some c \<Rightarrow> t_priority (s_thread s t) < t_priority (s_thread s c))
              then request_resched cpu s else s)
      })"

text \<open>Whether a thread that became ready should take the CPU from the one that runs there.\<close>

definition outranks :: "nat \<Rightarrow> int \<Rightarrow> sched \<Rightarrow> bool" where
  "outranks cpu prio s =
     (let cur = rq_current (s_rq s cpu) in
      cur = rq_idle (s_rq s cpu) \<or> (case cur of None \<Rightarrow> True | Some c \<Rightarrow> prio < t_priority (s_thread s c)))"

definition sched_wake :: "tid \<Rightarrow> sched \<Rightarrow> (sched \<times> bool) option" where
  "sched_wake t s = do {
     kassert (t_cpu (s_thread s t) \<ge> 0);
     let cpu = nat (t_cpu (s_thread s t));
     if t_state (s_thread s t) = THREAD_BLOCKED
     then do {
       s \<leftarrow> rr_enqueue cpu t False (upd_thread t (\<lambda>th. th\<lparr>t_state := THREAD_READY\<rparr>) s);
       Some (if outranks cpu (t_priority (s_thread s t)) s then request_resched cpu s else s, True)
     }
     else Some (s, False)
   }"

definition sched_reprioritize :: "tid \<Rightarrow> int \<Rightarrow> sched \<Rightarrow> sched option" where
  "sched_reprioritize t prio s =
     (let prio = (if prio < 0 then 0 else if prio \<ge> SCHED_PRIO_COUNT then SCHED_PRIO_LOWEST else prio); th = s_thread s t in
      if t_cpu th < 0 then Some (upd_thread t (\<lambda>th. th\<lparr>t_priority := prio\<rparr>) s)
      else if t_priority th \<noteq> prio
      then if t_state th = THREAD_READY \<and> t_queued th
        then do {
          let cpu = nat (t_cpu th);
          s \<leftarrow> rr_dequeue cpu t s;
          s \<leftarrow> rr_enqueue cpu t False (upd_thread t (\<lambda>th. th\<lparr>t_priority := prio\<rparr>) s);
          Some (if outranks cpu prio s then request_resched cpu s else s)
        }
        else Some (upd_thread t (\<lambda>th. th\<lparr>t_priority := prio\<rparr>) s)
      else Some s)"

definition sched_prepare_block_current :: "nat \<Rightarrow> sched \<Rightarrow> sched option" where
  "sched_prepare_block_current cpu s = do {
     cur \<leftarrow> s_pc_current s cpu;
     Some (if t_state (s_thread s cur) \<noteq> THREAD_READY then upd_thread cur (\<lambda>th. th\<lparr>t_state := THREAD_BLOCKED\<rparr>) s else s)
   }"

definition sched_set_running_current :: "nat \<Rightarrow> sched \<Rightarrow> sched option" where
  "sched_set_running_current cpu s = do {
     cur \<leftarrow> s_pc_current s cpu;
     s \<leftarrow> (if t_state (s_thread s cur) = THREAD_READY then rr_dequeue cpu cur s else Some s);
     Some (upd_thread cur (\<lambda>th. th\<lparr>t_state := THREAD_RUNNING\<rparr>) s)
   }"

section \<open>Migration, balancing and the tick\<close>

datatype sched_migrate_result =
    SCHED_MIGRATED | SCHED_MIGRATE_SAME_CPU | SCHED_MIGRATE_NOT_READY | SCHED_MIGRATE_CURRENT | SCHED_MIGRATE_PREEMPTED
  | SCHED_MIGRATE_AFFINITY | SCHED_MIGRATE_OFFLINE | SCHED_MIGRATE_GAP

definition migrate_locked :: "tid \<Rightarrow> nat \<Rightarrow> nat \<Rightarrow> sched \<Rightarrow> sched option" where
  "migrate_locked t from_cpu to_cpu s = do {
     kassert (t_state (s_thread s t) = THREAD_READY \<and> rq_current (s_rq s from_cpu) \<noteq> Some t \<and>
              t_cpu (s_thread s t) = int from_cpu \<and> \<not> has (t_flags (s_thread s t)) THREAD_FLAG_PREEMPTED);
     s \<leftarrow> rr_dequeue from_cpu t s;
     let s = upd_thread t (\<lambda>th. th\<lparr>t_cpu := int to_cpu\<rparr>) s;
     s \<leftarrow> rr_enqueue to_cpu t False (rr_moved from_cpu to_cpu t s);
     let s = (if outranks to_cpu (t_priority (s_thread s t)) s then request_resched to_cpu s else s);
     Some (s\<lparr>s_migrations := u64 (s_migrations s + 1)\<rparr>)
   }"

definition sched_migrate :: "tid \<Rightarrow> nat \<Rightarrow> sched \<Rightarrow> (sched \<times> sched_migrate_result) option" where
  "sched_migrate t to_cpu s =
     (if to_cpu \<ge> s_cpu_count s \<or> \<not> s_online s to_cpu then Some (s, SCHED_MIGRATE_OFFLINE)
      else do {
        let th = s_thread s t;
        kassert (t_cpu th \<ge> 0);
        let from_cpu = nat (t_cpu th);
        if from_cpu = to_cpu then Some (s, SCHED_MIGRATE_SAME_CPU)
        else if t_state th \<noteq> THREAD_READY then Some (s, SCHED_MIGRATE_NOT_READY)
        else if rq_current (s_rq s from_cpu) = Some t then Some (s, SCHED_MIGRATE_CURRENT)
        else if has (t_flags th) THREAD_FLAG_PREEMPTED then Some (s, SCHED_MIGRATE_PREEMPTED)
        else if \<not> has (t_affinity th) (CPUMASK_OF to_cpu) then Some (s, SCHED_MIGRATE_AFFINITY)
        else do { s \<leftarrow> migrate_locked t from_cpu to_cpu s; Some (s, SCHED_MIGRATED) }
      })"

definition load_locked :: "nat \<Rightarrow> sched \<Rightarrow> nat" where
  "load_locked cpu s =
     (let rq = s_rq s cpu in
      u32 (rq_nr_running rq + (if rq_current rq \<noteq> None \<and> rq_current rq \<noteq> rq_idle rq then 1 else 0)))"

text \<open>The debug build's record of the gap on the moved thread is left out.\<close>

definition sched_migrate_from ::
    "nat \<Rightarrow> nat \<Rightarrow> nat \<Rightarrow> sched \<Rightarrow> (sched \<times> sched_migrate_result \<times> tid option) option" where
  "sched_migrate_from from_cpu to_cpu min_gap s =
     (if from_cpu = to_cpu then Some (s, SCHED_MIGRATE_SAME_CPU, None)
      else if from_cpu \<ge> s_cpu_count s \<or> to_cpu \<ge> s_cpu_count s \<or> \<not> s_online s from_cpu \<or> \<not> s_online s to_cpu
      then Some (s, SCHED_MIGRATE_OFFLINE, None)
      else if min_gap \<noteq> 0 \<and> load_locked from_cpu s < u32 (load_locked to_cpu s + min_gap) then Some (s, SCHED_MIGRATE_GAP, None)
      else case rr_pick_migratable from_cpu (CPUMASK_OF to_cpu) s of
             None \<Rightarrow> Some (s, SCHED_MIGRATE_NOT_READY, None)
           | Some t \<Rightarrow> do { s \<leftarrow> migrate_locked t from_cpu to_cpu s; Some (s, SCHED_MIGRATED, Some t) })"

text \<open>The busiest other CPU not tried yet, and its load.\<close>

definition busiest_of :: "nat \<Rightarrow> nat \<Rightarrow> 64 word \<Rightarrow> sched \<Rightarrow> nat \<times> nat" where
  "busiest_of self mine tried s =
     foldl (\<lambda>(busiest, ld) c.
         if c = self \<or> \<not> s_online s c \<or> has tried (CPUMASK_OF c) then (busiest, ld)
         else if sched_cpu_load c s > ld then (c, sched_cpu_load c s) else (busiest, ld))
       (self, mine) [0..<s_cpu_count s]"

definition BALANCE_TRIES :: nat where "BALANCE_TRIES = 3"
definition SCHED_BALANCE_TICKS :: nat where "SCHED_BALANCE_TICKS = 16"

fun balance_try :: "nat \<Rightarrow> nat \<Rightarrow> nat \<Rightarrow> 64 word \<Rightarrow> sched \<Rightarrow> sched option" where
  "balance_try 0 self mine tried s = Some s"
| "balance_try (Suc attempts) self mine tried s =
     (case busiest_of self mine tried s of (busiest, ld) \<Rightarrow>
        if busiest = self \<or> ld < u32 (mine + 2) then Some s
        else do {
          (s, r, moved) \<leftarrow> sched_migrate_from busiest self 2 s;
          let tried = tried OR CPUMASK_OF busiest;
          if r = SCHED_MIGRATED then Some s
          else if r = SCHED_MIGRATE_GAP
          then let now = sched_cpu_load self s in if now > mine then Some s else balance_try attempts self now tried s
          else balance_try attempts self mine tried s
        })"

definition balance_tick :: "nat \<Rightarrow> nat \<Rightarrow> sched \<Rightarrow> sched option" where
  "balance_tick self ticks s =
     (let mine = sched_cpu_load self s; idle_here = (mine = 0 \<and> rq_current (s_rq s self) = rq_idle (s_rq s self)) in
      if s_cpu_count s < 2 \<or> (\<not> idle_here \<and> ticks mod SCHED_BALANCE_TICKS \<noteq> 0) then Some s
      else balance_try BALANCE_TRIES self mine 0 s)"

definition TICK_NS :: nat where "TICK_NS = 4000000"

definition sched_tick :: "nat \<Rightarrow> nat \<Rightarrow> sched \<Rightarrow> sched option" where
  "sched_tick cpu ticks s =
     (let rq = s_rq s cpu;
          s = (case rq_current rq of
                 Some cur \<Rightarrow>
                   if rq_idle rq \<noteq> Some cur then rr_tick cpu cur TICK_NS (rr_charge cpu cur (s_clock s) s)
                   else if rq_bitmap rq \<noteq> 0 then set_resched cpu True s else s
               | None \<Rightarrow> if rq_idle rq = None \<and> rq_bitmap rq \<noteq> 0 then set_resched cpu True s else s)
      in balance_tick cpu ticks s)"

section \<open>Starting\<close>

definition thread_alloc :: "int \<Rightarrow> 32 word \<Rightarrow> thread" where
  "thread_alloc priority flags =
     \<lparr>t_state = THREAD_BLOCKED,
      t_priority = (if priority < 0 then 0 else if priority \<ge> SCHED_PRIO_COUNT then SCHED_PRIO_LOWEST else priority),
      t_nice = 0, t_affinity = - 1, t_cpu = - 1, t_slice_left_ns = 0, t_run_time_ns = 0, t_vruntime = 0, t_vruntime_stamp_ns = 0,
      t_yield_pending = False, t_last_start_ns = 0, t_ready_since_ns = 0, t_switches = 0, t_queued = False, t_flags = flags\<rparr>"

definition THREAD_FLAG_IDLE :: "32 word" where "THREAD_FLAG_IDLE = flag 0"
definition THREAD_FLAG_BOOT :: "32 word" where "THREAD_FLAG_BOOT = flag 1"

definition create_idle :: "nat \<Rightarrow> thread" where
  "create_idle cpu =
     (thread_alloc SCHED_PRIO_LOWEST THREAD_FLAG_IDLE)\<lparr>t_cpu := int cpu, t_affinity := CPUMASK_OF cpu, t_state := THREAD_READY\<rparr>"

text \<open>The boot CPU: thread \<open>boot\<close> is the context that runs, \<open>idle\<close> the idle thread.\<close>

definition sched_init :: "tid \<Rightarrow> tid \<Rightarrow> sched \<Rightarrow> sched" where
  "sched_init boot idle s =
     (let s = upd_rq 0 (\<lambda>rq. rq_init) s;
          s = upd_thread boot (\<lambda>th. (thread_alloc SCHED_PRIO_DEFAULT THREAD_FLAG_BOOT)
                \<lparr>t_state := THREAD_RUNNING, t_cpu := 0, t_last_start_ns := s_clock s\<rparr>) s;
          s = rr_slice_new boot s;
          s = upd_rq 0 (\<lambda>rq. rq\<lparr>rq_current := Some boot\<rparr>) s;
          s = s\<lparr>s_pc_current := (s_pc_current s)(0 := Some boot)\<rparr>;
          s = upd_thread idle (\<lambda>th. create_idle 0) s
      in upd_rq 0 (\<lambda>rq. rq\<lparr>rq_idle := Some idle\<rparr>) s)"

text \<open>A further CPU comes up as its idle thread.\<close>

definition sched_start_cpu :: "nat \<Rightarrow> tid \<Rightarrow> sched \<Rightarrow> sched" where
  "sched_start_cpu cpu idle s =
     (let s = upd_rq cpu (\<lambda>rq. rq_init) s;
          s = upd_thread idle (\<lambda>th. (create_idle cpu)\<lparr>t_state := THREAD_RUNNING, t_last_start_ns := s_clock s\<rparr>) s;
          s = upd_rq cpu (\<lambda>rq. rq\<lparr>rq_idle := Some idle, rq_current := Some idle\<rparr>) s
      in s\<lparr>s_pc_current := (s_pc_current s)(cpu := Some idle), s_online := (s_online s)(cpu := True)\<rparr>)"

end
