(* ===== verification/Sched_Inv.thy ===== *)
theory Sched_Inv
  imports Sched
begin

text \<open>
  The invariant of the scheduler: the run queues hold exactly the queued threads, each once and at its
  level, with the bitmap and the count in step; and the states of the threads agree with what the CPUs run.
\<close>

section \<open>Reading updated states\<close>

lemma upd_thread_fields [simp]:
  "s_thread (upd_thread t f s) = (s_thread s)(t := f (s_thread s t))" "s_rq (upd_thread t f s) = s_rq s"
  "s_need_resched (upd_thread t f s) = s_need_resched s" "s_pc_current (upd_thread t f s) = s_pc_current s"
  "s_clock (upd_thread t f s) = s_clock s" "s_cpu_count (upd_thread t f s) = s_cpu_count s" "s_online (upd_thread t f s) = s_online s"
  by (simp_all add: upd_thread_def)

lemma upd_rq_fields [simp]:
  "s_rq (upd_rq cpu g s) = (s_rq s)(cpu := g (s_rq s cpu))" "s_thread (upd_rq cpu g s) = s_thread s"
  "s_need_resched (upd_rq cpu g s) = s_need_resched s" "s_pc_current (upd_rq cpu g s) = s_pc_current s"
  "s_clock (upd_rq cpu g s) = s_clock s" "s_cpu_count (upd_rq cpu g s) = s_cpu_count s" "s_online (upd_rq cpu g s) = s_online s"
  by (simp_all add: upd_rq_def)

lemma set_resched_fields [simp]:
  "s_rq (set_resched cpu b s) = s_rq s" "s_thread (set_resched cpu b s) = s_thread s" "s_pc_current (set_resched cpu b s) = s_pc_current s"
  "s_clock (set_resched cpu b s) = s_clock s" "s_cpu_count (set_resched cpu b s) = s_cpu_count s" "s_online (set_resched cpu b s) = s_online s"
  by (simp_all add: set_resched_def)

section \<open>The queues\<close>

text \<open>Threads are at most two to the 32 less one: each has a structure and a stack of its own.\<close>

definition MAX_THREADS :: nat where "MAX_THREADS = W32 - 1"

abbreviation ready :: "sched \<Rightarrow> nat \<Rightarrow> nat \<Rightarrow> tid list" where
  "ready s cpu p \<equiv> rq_ready (s_rq s cpu) p"

definition prio_ok :: "thread \<Rightarrow> bool" where
  "prio_ok th \<longleftrightarrow> 0 \<le> t_priority th \<and> t_priority th < SCHED_PRIO_COUNT"

lemma level_ok: "prio_ok th \<Longrightarrow> t_priority th = int (level th)" "prio_ok th \<Longrightarrow> level th < 64"
  by (simp_all add: prio_ok_def level_def SCHED_PRIO_COUNT_def nat_less_iff)

definition on_level :: "thread \<Rightarrow> nat \<Rightarrow> nat \<Rightarrow> bool" where
  "on_level th cpu p \<longleftrightarrow> t_queued th \<and> t_cpu th = int cpu \<and> t_priority th = int p"

definition queued_ok :: "sched \<Rightarrow> tid \<Rightarrow> bool" where
  "queued_ok s u \<longleftrightarrow>
     (t_queued (s_thread s u) \<longrightarrow> t_state (s_thread s u) = THREAD_READY \<and> 0 \<le> t_cpu (s_thread s u) \<and> u < MAX_THREADS)"

definition rq_ok :: "(tid \<Rightarrow> thread) \<Rightarrow> nat \<Rightarrow> runqueue \<Rightarrow> bool" where
  "rq_ok th cpu rq \<longleftrightarrow>
     (\<forall>p u. u \<in> set (rq_ready rq p) \<longleftrightarrow> on_level (th u) cpu p) \<and> (\<forall>p. distinct (rq_ready rq p)) \<and>
     (\<forall>p. bit (rq_bitmap rq) p \<longleftrightarrow> rq_ready rq p \<noteq> []) \<and> rq_nr_running rq = (\<Sum>p<64. length (rq_ready rq p))"

definition qwf :: "sched \<Rightarrow> bool" where
  "qwf s \<longleftrightarrow> (\<forall>cpu. rq_ok (s_thread s) cpu (s_rq s cpu)) \<and> (\<forall>u. queued_ok s u \<and> prio_ok (s_thread s u))"

lemma rq_okD:
  assumes "rq_ok th cpu rq"
  shows "u \<in> set (rq_ready rq p) \<longleftrightarrow> on_level (th u) cpu p" "distinct (rq_ready rq p)"
    "bit (rq_bitmap rq) p \<longleftrightarrow> rq_ready rq p \<noteq> []" "rq_nr_running rq = (\<Sum>p<64. length (rq_ready rq p))"
  using assms by (simp_all add: rq_ok_def)

lemma qwfD:
  assumes "qwf s"
  shows "rq_ok (s_thread s) cpu (s_rq s cpu)" "queued_ok s u" "prio_ok (s_thread s u)"
  using assms by (simp_all add: qwf_def)

lemma qwf_mem: "qwf s \<Longrightarrow> u \<in> set (ready s cpu p) \<longleftrightarrow> on_level (s_thread s u) cpu p"
  using rq_okD(1) qwfD(1) by blast

lemma queued_at: "qwf s \<Longrightarrow> t_queued (s_thread s u) \<Longrightarrow> u \<in> set (ready s (nat (t_cpu (s_thread s u))) (level (s_thread s u)))"
  using qwfD(2) [of s u] qwfD(3) [of s u] by (simp add: qwf_mem on_level_def queued_ok_def prio_ok_def level_def)

text \<open>What the queues do not depend on.\<close>

lemma qwf_rq:
  assumes "qwf s" and "\<And>rq. rq_ready (g rq) = rq_ready rq" "\<And>rq. rq_bitmap (g rq) = rq_bitmap rq" "\<And>rq. rq_nr_running (g rq) = rq_nr_running rq"
  shows "qwf (upd_rq cpu g s)"
  using assms by (simp add: qwf_def rq_ok_def queued_ok_def)

lemma qwf_kept:
  assumes "qwf s" and "t_queued (f (s_thread s t)) = t_queued (s_thread s t)" "t_cpu (f (s_thread s t)) = t_cpu (s_thread s t)"
    "t_priority (f (s_thread s t)) = t_priority (s_thread s t)" "t_state (f (s_thread s t)) = t_state (s_thread s t)"
  shows "qwf (upd_thread t f s)"
  using assms by (simp add: qwf_def rq_ok_def queued_ok_def prio_ok_def on_level_def)

lemma qwf_unqueued:
  assumes "qwf s" and "\<not> t_queued (s_thread s t)" "\<not> t_queued (f (s_thread s t))" "prio_ok (f (s_thread s t))"
  shows "qwf (upd_thread t f s)"
  using assms by (simp add: qwf_def rq_ok_def queued_ok_def prio_ok_def on_level_def)

lemma qwf_others [simp]:
  "qwf (set_resched cpu b s) = qwf s" "qwf (s\<lparr>s_pc_current := pc\<rparr>) = qwf s" "qwf (s\<lparr>s_clock := k\<rparr>) = qwf s"
  "qwf (s\<lparr>s_migrations := k\<rparr>) = qwf s" "qwf (s\<lparr>s_pick_rotor := k\<rparr>) = qwf s"
  by (simp_all add: qwf_def rq_ok_def queued_ok_def)

text \<open>A queue never holds so many threads that the count wraps.\<close>

lemma queue_bound:
  assumes "qwf s" and "\<not> t_queued (s_thread s t)" and "t < MAX_THREADS"
  shows "(\<Sum>p<64. length (ready s cpu p)) < MAX_THREADS"
proof -
  let ?U = "\<Union>p<64. set (ready s cpu p)"
  have "(\<Sum>p<64. length (ready s cpu p)) = (\<Sum>p<64. card (set (ready s cpu p)))"
    using rq_okD(2) [OF qwfD(1) [OF assms(1)]] by (simp add: distinct_card)
  also have "\<dots> = card ?U"
    using assms(1) by (intro card_UN_disjoint [symmetric]) (auto simp: qwf_mem on_level_def)
  also have "\<dots> < card {..<MAX_THREADS}"
  proof (rule psubset_card_mono)
    have "u < MAX_THREADS" if "u \<in> ?U" for u
      using that qwfD(2) [OF assms(1), of u] assms(1) by (auto simp: qwf_mem on_level_def queued_ok_def)
    moreover have "t \<notin> ?U" using assms(1,2) by (auto simp: qwf_mem on_level_def)
    ultimately show "?U \<subset> {..<MAX_THREADS}" using assms(3) by blast
  qed simp
  finally show ?thesis by simp
qed

section \<open>Putting a thread on a queue\<close>

lemma fair_insert_split:
  obtains xs ys where "q = xs @ ys" "fair_insert vr v t q = xs @ t # ys" "\<forall>u \<in> set ys. v < vr u" "xs \<noteq> [] \<longrightarrow> vr (last xs) \<le> v"
proof
  let ?P = "\<lambda>u. fair_before v (vr u)"
  have "rev q = takeWhile ?P (rev q) @ dropWhile ?P (rev q)" by simp
  then show "q = rev (dropWhile ?P (rev q)) @ rev (takeWhile ?P (rev q))" by (metis rev_append rev_rev_ident)
  show "fair_insert vr v t q = rev (dropWhile ?P (rev q)) @ t # rev (takeWhile ?P (rev q))" by (simp add: fair_insert_def)
  show "\<forall>u \<in> set (rev (takeWhile ?P (rev q))). v < vr u" by (auto simp: fair_before_def dest: set_takeWhileD)
  show "rev (dropWhile ?P (rev q)) \<noteq> [] \<longrightarrow> vr (last (rev (dropWhile ?P (rev q)))) \<le> v"
    using hd_dropWhile [of ?P "rev q"] by (auto simp: last_rev fair_before_def not_less)
qed

definition enqueued_thread :: "sched \<Rightarrow> tid \<Rightarrow> nat \<Rightarrow> thread" where
  "enqueued_thread s t v =
     (s_thread s t)\<lparr>t_vruntime := v, t_yield_pending := False, t_queued := True, t_ready_since_ns := s_clock s\<rparr>"

text \<open>The state after \<open>t\<close> went into its level of \<open>cpu\<close> somewhere.\<close>

definition enqueued :: "sched \<Rightarrow> nat \<Rightarrow> tid \<Rightarrow> tid list \<Rightarrow> tid list \<Rightarrow> nat \<Rightarrow> sched" where
  "enqueued s cpu t xs ys v =
     s\<lparr>s_thread := (s_thread s)(t := enqueued_thread s t v),
       s_rq := (s_rq s)(cpu := (s_rq s cpu)\<lparr>rq_ready := (rq_ready (s_rq s cpu))(level (s_thread s t) := xs @ t # ys),
         rq_bitmap := rq_bitmap (s_rq s cpu) OR flag (level (s_thread s t)), rq_nr_running := u32 (rq_nr_running (s_rq s cpu) + 1)\<rparr>)\<rparr>"

lemma rr_enqueue_eq:
  assumes "\<not> t_queued (s_thread s t)" and "prio_ok (s_thread s t)"
  obtains xs ys v where "rr_enqueue cpu t at_head s = Some (enqueued s cpu t xs ys v)" "ready s cpu (level (s_thread s t)) = xs @ ys"
    "t_priority (s_thread s t) \<noteq> FAIR_LEVEL \<longrightarrow> (if at_head then xs = [] else ys = []) \<and> v = t_vruntime (s_thread s t)"
    "t_priority (s_thread s t) = FAIR_LEVEL \<longrightarrow>
       (if t_yield_pending (s_thread s t) then ys = [] \<and> v = (if xs = [] then t_vruntime (s_thread s t) else max (t_vruntime (s_thread s t)) (fair_vruntime s (last xs)))
        else v = fair_place (t_vruntime (s_thread s t)) (rq_fair_min (s_rq s cpu)) FAIR_WAKE_BONUS_NS \<and>
          (\<forall>u \<in> set ys. v < fair_vruntime s u) \<and> (xs \<noteq> [] \<longrightarrow> fair_vruntime s (last xs) \<le> v))"
proof (cases "t_priority (s_thread s t) = FAIR_LEVEL")
  case False
  have "rr_enqueue cpu t at_head s = Some (enqueued s cpu t (if at_head then [] else ready s cpu (level (s_thread s t)))
      (if at_head then ready s cpu (level (s_thread s t)) else []) (t_vruntime (s_thread s t)))"
    using assms False
    by (simp add: rr_enqueue_def prio_ok_def enqueued_def enqueued_thread_def set_ready_def upd_rq_def upd_thread_def Let_def)
  then show ?thesis using that False by (cases at_head) simp_all
next
  case True
  then have l: "level (s_thread s t) = nat FAIR_LEVEL" by (simp add: level_def)
  show ?thesis
  proof (cases "t_yield_pending (s_thread s t)")
    case y: True
    define q where "q = ready s cpu (nat FAIR_LEVEL)"
    define v where "v = (if q = [] then t_vruntime (s_thread s t) else max (t_vruntime (s_thread s t)) (fair_vruntime s (last q)))"
    have "(if q \<noteq> [] \<and> fair_before (t_vruntime (s_thread s t)) (fair_vruntime s (last q)) then fair_vruntime s (last q) else t_vruntime (s_thread s t)) = v"
      by (simp add: v_def fair_before_def max_def)
    then have "fair_enqueue cpu t s = set_ready cpu (nat FAIR_LEVEL) (q @ [t]) (upd_thread t (\<lambda>th. th\<lparr>t_vruntime := v\<rparr>) s)"
      using y by (simp only: fair_enqueue_def Let_def q_def if_True)
    then have "rr_enqueue cpu t at_head s = Some (enqueued s cpu t q [] v)"
      using assms True l by (simp add: rr_enqueue_def prio_ok_def enqueued_def enqueued_thread_def set_ready_def upd_rq_def upd_thread_def Let_def)
    then show ?thesis using that [of q "[]" v] True y l by (simp add: q_def v_def)
  next
    case n: False
    define v where "v = fair_place (t_vruntime (s_thread s t)) (rq_fair_min (s_rq s cpu)) FAIR_WAKE_BONUS_NS"
    obtain xs ys where i: "ready s cpu (nat FAIR_LEVEL) = xs @ ys" "fair_insert (fair_vruntime s) v t (ready s cpu (nat FAIR_LEVEL)) = xs @ t # ys"
      "\<forall>u \<in> set ys. v < fair_vruntime s u" "xs \<noteq> [] \<longrightarrow> fair_vruntime s (last xs) \<le> v"
      by (rule fair_insert_split)
    have "fair_enqueue cpu t s = set_ready cpu (nat FAIR_LEVEL) (xs @ t # ys) (upd_thread t (\<lambda>th. th\<lparr>t_vruntime := v\<rparr>) s)"
      using n i(2) by (simp add: fair_enqueue_def Let_def v_def)
    then have "rr_enqueue cpu t at_head s = Some (enqueued s cpu t xs ys v)"
      using assms True l by (simp add: rr_enqueue_def prio_ok_def enqueued_def enqueued_thread_def set_ready_def upd_rq_def upd_thread_def Let_def)
    then show ?thesis using that [of xs ys v] True n l i by (simp add: v_def)
  qed
qed

lemma enqueued_qwf:
  assumes "qwf s" and "\<not> t_queued (s_thread s t)" and "t < MAX_THREADS" and "t_state (s_thread s t) = THREAD_READY"
    and "t_cpu (s_thread s t) = int cpu" and "ready s cpu (level (s_thread s t)) = xs @ ys"
  shows "qwf (enqueued s cpu t xs ys v)"
proof -
  let ?s = "enqueued s cpu t xs ys v" and ?p = "level (s_thread s t)"
  have p: "t_priority (s_thread s t) = int ?p" "?p < 64"
    using qwfD(3) [OF assms(1), of t] by (simp_all add: level_ok)
  have lv: "on_level (s_thread ?s u) c q \<longleftrightarrow> on_level (s_thread s u) c q \<or> u = t \<and> c = cpu \<and> q = ?p" for u c q
    using assms(2,5) p by (auto simp: enqueued_def enqueued_thread_def on_level_def)
  have rd: "ready ?s c q = (if c = cpu \<and> q = ?p then xs @ t # ys else ready s c q)" for c q by (simp add: enqueued_def)
  have "rq_ok (s_thread ?s) c (s_rq ?s c)" for c
  proof -
    note o = rq_okD [OF qwfD(1) [OF assms(1), of c]]
    have "u \<in> set (ready ?s c q) \<longleftrightarrow> on_level (s_thread ?s u) c q" for u q
      unfolding lv rd using o(1) [of u q] assms(6) by auto
    moreover have "t \<notin> set (ready s cpu ?p)" using assms(1,2) by (simp add: qwf_mem on_level_def)
    then have "distinct (ready ?s c q)" for q unfolding rd using o(2) [of q] assms(6) by auto
    moreover have "bit (rq_bitmap (s_rq ?s c)) q \<longleftrightarrow> ready ?s c q \<noteq> []" for q
      unfolding rd using o(3) [of q] p(2) by (auto simp: enqueued_def flag_simps)
    moreover have "rq_nr_running (s_rq ?s c) = (\<Sum>p<64. length (ready ?s c p))"
    proof (cases "c = cpu")
      case True
      have u: "(\<lambda>q. length (ready ?s c q)) = (\<lambda>q. length (ready s c q))(?p := Suc (length (xs @ ys)))"
        unfolding rd using True by auto
      have "(\<Sum>q<64. length (ready ?s c q)) = Suc (\<Sum>p<64. length (ready s c p))"
        unfolding u using sum_lessThan_upd [OF p(2), of "\<lambda>q. length (ready s c q)" "Suc (length (xs @ ys))"] assms(6) True
        by (simp del: fun_upd_apply)
      moreover have "(\<Sum>p<64. length (ready s c p)) < MAX_THREADS" by (rule queue_bound [OF assms(1-3)])
      moreover have "rq_nr_running (s_rq ?s c) = u32 (rq_nr_running (s_rq s c) + 1)" using True by (simp add: enqueued_def)
      ultimately show ?thesis using o(4) by (simp add: u32_id MAX_THREADS_def)
    next
      case False
      then show ?thesis using o(4) by (simp add: enqueued_def)
    qed
    ultimately show ?thesis by (simp add: rq_ok_def)
  qed
  moreover have "queued_ok ?s u \<and> prio_ok (s_thread ?s u)" for u
    using qwfD(2,3) [OF assms(1), of u] assms(3-5) by (auto simp: enqueued_def enqueued_thread_def queued_ok_def prio_ok_def)
  ultimately show ?thesis by (simp add: qwf_def)
qed

lemma enqueue_ok:
  assumes "qwf s" and "\<not> t_queued (s_thread s t)" and "t < MAX_THREADS" and "t_state (s_thread s t) = THREAD_READY"
    and "t_cpu (s_thread s t) = int cpu"
  obtains xs ys v where "rr_enqueue cpu t at_head s = Some (enqueued s cpu t xs ys v)" "ready s cpu (level (s_thread s t)) = xs @ ys"
    "qwf (enqueued s cpu t xs ys v)"
proof -
  obtain xs ys v where e: "rr_enqueue cpu t at_head s = Some (enqueued s cpu t xs ys v)" "ready s cpu (level (s_thread s t)) = xs @ ys"
    by (rule rr_enqueue_eq [OF assms(2) qwfD(3) [OF assms(1)]])
  show ?thesis by (rule that [OF e enqueued_qwf [OF assms e(2)]])
qed

section \<open>Taking a thread off a queue\<close>

definition dequeued :: "sched \<Rightarrow> nat \<Rightarrow> tid \<Rightarrow> sched" where
  "dequeued s cpu t =
     (let p = level (s_thread s t); ts = remove1 t (ready s cpu p) in
      s\<lparr>s_thread := (s_thread s)(t := (s_thread s t)\<lparr>t_queued := False\<rparr>),
        s_rq := (s_rq s)(cpu := (s_rq s cpu)\<lparr>rq_ready := (rq_ready (s_rq s cpu))(p := ts),
          rq_bitmap := (if ts = [] then rq_bitmap (s_rq s cpu) AND NOT (flag p) else rq_bitmap (s_rq s cpu)),
          rq_nr_running := rq_nr_running (s_rq s cpu) - 1\<rparr>)\<rparr>)"

lemma unlink_eq:
  assumes "qwf s" and "t_queued (s_thread s t)" and "t_cpu (s_thread s t) = int cpu"
  shows "unlink_thread t s =
    s\<lparr>s_thread := (s_thread s)(t := (s_thread s t)\<lparr>t_queued := False\<rparr>),
      s_rq := (s_rq s)(cpu := (s_rq s cpu)\<lparr>rq_ready := (rq_ready (s_rq s cpu))(level (s_thread s t) := remove1 t (ready s cpu (level (s_thread s t))))\<rparr>)\<rparr>"
proof -
  have m: "t \<notin> set (ready s c p)" if "c \<noteq> cpu \<or> p \<noteq> level (s_thread s t)" for c p
    using assms(1,3) that by (auto simp: qwf_mem on_level_def level_def)
  have o: "(s_rq s c)\<lparr>rq_ready := (\<lambda>p. remove1 t (ready s c p))\<rparr> = s_rq s c" if "c \<noteq> cpu" for c
  proof -
    have "(\<lambda>p. remove1 t (ready s c p)) = rq_ready (s_rq s c)" using m that by (auto intro: remove1_idem)
    then show ?thesis by simp
  qed
  have h: "(\<lambda>p. remove1 t (ready s cpu p)) = (rq_ready (s_rq s cpu))(level (s_thread s t) := remove1 t (ready s cpu (level (s_thread s t))))"
    using m by (auto simp: fun_eq_iff intro: remove1_idem)
  have "(\<lambda>c. (s_rq s c)\<lparr>rq_ready := (\<lambda>p. remove1 t (ready s c p))\<rparr>) = (s_rq s)(cpu := (s_rq s cpu)\<lparr>rq_ready :=
      (rq_ready (s_rq s cpu))(level (s_thread s t) := remove1 t (ready s cpu (level (s_thread s t))))\<rparr>)"
    by (rule ext) (simp add: o h)
  then show ?thesis by (simp add: unlink_thread_def upd_thread_def)
qed

lemma queue_length:
  assumes "qwf s" and "t_queued (s_thread s t)" and "t_cpu (s_thread s t) = int cpu"
  shows "(\<Sum>p<64. length (((rq_ready (s_rq s cpu))(level (s_thread s t) := remove1 t (ready s cpu (level (s_thread s t))))) p)) + 1 = rq_nr_running (s_rq s cpu)"
proof -
  let ?p = "level (s_thread s t)"
  have p: "?p < 64" by (rule level_ok(2) [OF qwfD(3) [OF assms(1)]])
  have "t \<in> set (ready s cpu ?p)" using queued_at [OF assms(1,2)] assms(3) by simp
  then have l: "length (remove1 t (ready s cpu ?p)) + 1 = length (ready s cpu ?p)" using length_pos_if_in_set by (fastforce simp: length_remove1)
  have u: "(\<lambda>p. length (((rq_ready (s_rq s cpu))(?p := remove1 t (ready s cpu ?p))) p)) = (\<lambda>p. length (ready s cpu p))(?p := length (remove1 t (ready s cpu ?p)))"
    by auto
  show ?thesis
    unfolding u using sum_lessThan_upd [OF p, of "\<lambda>p. length (ready s cpu p)" "length (remove1 t (ready s cpu ?p))"] l rq_okD(4) [OF qwfD(1) [OF assms(1)], of cpu]
    by (simp del: fun_upd_apply)
qed

lemma rr_dequeue_eq:
  assumes "qwf s" and "t_queued (s_thread s t)" and "t_cpu (s_thread s t) = int cpu"
  shows "rr_dequeue cpu t s = Some (dequeued s cpu t)"
proof -
  have "rq_nr_running (s_rq s cpu) > 0" using queue_length [OF assms] by linarith
  then show ?thesis
    using assms(2) by (simp add: rr_dequeue_def unlink_eq [OF assms] dequeued_def Let_def upd_rq_def)
qed

lemma dequeued_qwf:
  assumes "qwf s" and "t_queued (s_thread s t)" and "t_cpu (s_thread s t) = int cpu"
  shows "qwf (dequeued s cpu t)"
proof -
  let ?s = "dequeued s cpu t" and ?p = "level (s_thread s t)"
  have p: "t_priority (s_thread s t) = int ?p" "?p < 64" by (simp_all add: level_ok [OF qwfD(3) [OF assms(1)]])
  have lv: "on_level (s_thread ?s u) c q \<longleftrightarrow> on_level (s_thread s u) c q \<and> u \<noteq> t" for u c q
    by (auto simp: dequeued_def Let_def on_level_def)
  have rd: "ready ?s c q = (if c = cpu \<and> q = ?p then remove1 t (ready s cpu ?p) else ready s c q)" for c q by (simp add: dequeued_def Let_def)
  have "rq_ok (s_thread ?s) c (s_rq ?s c)" for c
  proof -
    note o = rq_okD [OF qwfD(1) [OF assms(1), of c]]
    have "u \<in> set (ready ?s c q) \<longleftrightarrow> on_level (s_thread ?s u) c q" for u q
    proof (cases "c = cpu \<and> q = ?p")
      case True
      then show ?thesis unfolding lv rd using o(1) [of u q] o(2) [of q] by (auto simp: set_remove1_eq)
    next
      case False
      then have "\<not> on_level (s_thread s t) c q" using assms(3) p by (auto simp: on_level_def)
      then show ?thesis unfolding lv rd using o(1) [of u q] False by auto
    qed
    moreover have "distinct (ready ?s c q)" for q unfolding rd using o(2) [of q] by auto
    moreover have "bit (rq_bitmap (s_rq ?s c)) q \<longleftrightarrow> ready ?s c q \<noteq> []" for q
    proof -
      have b: "bit (rq_bitmap (s_rq ?s c)) q \<longleftrightarrow> bit (rq_bitmap (s_rq s c)) q \<and> \<not> (c = cpu \<and> q = ?p \<and> remove1 t (ready s cpu ?p) = [])"
        using p(2) bit_length [of "rq_bitmap (s_rq s c)" q] by (auto simp: dequeued_def Let_def flag_simps)
      have "ready s cpu ?p \<noteq> []" using queued_at [OF assms(1,2)] assms(3) by auto
      then show ?thesis unfolding rd b using o(3) [of q] by auto
    qed
    moreover have "rq_nr_running (s_rq ?s c) = (\<Sum>p<64. length (ready ?s c p))"
    proof (cases "c = cpu")
      case True
      have "rq_ready (s_rq ?s cpu) = (rq_ready (s_rq s cpu))(?p := remove1 t (ready s cpu ?p))" by (simp add: dequeued_def Let_def)
      moreover have "rq_nr_running (s_rq ?s cpu) = rq_nr_running (s_rq s cpu) - 1" by (simp add: dequeued_def Let_def)
      ultimately show ?thesis using queue_length [OF assms] True by (simp del: fun_upd_apply)
    next
      case False
      then show ?thesis using o(4) by (simp add: dequeued_def Let_def)
    qed
    ultimately show ?thesis by (simp add: rq_ok_def)
  qed
  moreover have "queued_ok ?s u \<and> prio_ok (s_thread ?s u)" for u
    using qwfD(2,3) [OF assms(1), of u] by (auto simp: dequeued_def Let_def queued_ok_def prio_ok_def)
  ultimately show ?thesis by (simp add: qwf_def)
qed

end
