(* ===== verification/Sched_Steps.thy ===== *)
theory Sched_Steps
  imports Sched_Inv
begin

text \<open>
  The operations of the scheduler keep the invariant and never panic, operation by operation.
\<close>

section \<open>Threads and CPUs\<close>

text \<open>
  What a CPU runs is on that CPU; a running thread is what some CPU runs; a ready thread is queued, or is
  an idle thread that does not run; the idle thread of a CPU is never queued.
\<close>

definition cpu_wf :: "sched \<Rightarrow> nat \<Rightarrow> bool" where
  "cpu_wf s cpu \<longleftrightarrow>
     (\<forall>t. rq_current (s_rq s cpu) = Some t \<longrightarrow> t_cpu (s_thread s t) = int cpu \<and> t < MAX_THREADS) \<and>
     s_pc_current s cpu = rq_current (s_rq s cpu) \<and>
     (\<forall>i. rq_idle (s_rq s cpu) = Some i \<longrightarrow> \<not> t_queued (s_thread s i) \<and> t_cpu (s_thread s i) = int cpu \<and> i < MAX_THREADS \<and>
        t_state (s_thread s i) = (if rq_current (s_rq s cpu) = Some i then THREAD_RUNNING else THREAD_READY)) \<and>
     (rq_current (s_rq s cpu) \<noteq> None \<longrightarrow> rq_idle (s_rq s cpu) \<noteq> None)"

definition thread_wf :: "sched \<Rightarrow> tid \<Rightarrow> bool" where
  "thread_wf s t \<longleftrightarrow>
     (t_state (s_thread s t) = THREAD_RUNNING \<longrightarrow> (\<exists>cpu. rq_current (s_rq s cpu) = Some t)) \<and>
     (t_state (s_thread s t) = THREAD_READY \<longrightarrow> t_queued (s_thread s t) \<or> (\<exists>cpu. rq_idle (s_rq s cpu) = Some t))"

definition sched_wf :: "sched \<Rightarrow> bool" where
  "sched_wf s \<longleftrightarrow> qwf s \<and> (\<forall>cpu. cpu_wf s cpu) \<and> (\<forall>t. thread_wf s t)"

lemma cpu_wfD:
  assumes "cpu_wf s cpu"
  shows "rq_current (s_rq s cpu) = Some t \<Longrightarrow> t_cpu (s_thread s t) = int cpu" "rq_current (s_rq s cpu) = Some t \<Longrightarrow> t < MAX_THREADS"
    "s_pc_current s cpu = rq_current (s_rq s cpu)" "rq_idle (s_rq s cpu) = Some i \<Longrightarrow> \<not> t_queued (s_thread s i)"
    "rq_idle (s_rq s cpu) = Some i \<Longrightarrow> t_cpu (s_thread s i) = int cpu" "rq_idle (s_rq s cpu) = Some i \<Longrightarrow> i < MAX_THREADS"
    "rq_idle (s_rq s cpu) = Some i \<Longrightarrow> t_state (s_thread s i) = (if rq_current (s_rq s cpu) = Some i then THREAD_RUNNING else THREAD_READY)"
    "rq_current (s_rq s cpu) = Some t \<Longrightarrow> \<exists>i. rq_idle (s_rq s cpu) = Some i"
  using assms by (auto simp: cpu_wf_def)

lemma sched_wfD:
  assumes "sched_wf s"
  shows "qwf s" "cpu_wf s cpu" "thread_wf s t"
  using assms by (simp_all add: sched_wf_def)

text \<open>What the invariant does not depend on.\<close>

definition agree :: "sched \<Rightarrow> sched \<Rightarrow> bool" where
  "agree s s' \<longleftrightarrow>
     (\<forall>u. t_state (s_thread s' u) = t_state (s_thread s u) \<and> t_queued (s_thread s' u) = t_queued (s_thread s u) \<and>
          t_cpu (s_thread s' u) = t_cpu (s_thread s u) \<and> t_priority (s_thread s' u) = t_priority (s_thread s u)) \<and>
     (\<forall>c. rq_ready (s_rq s' c) = rq_ready (s_rq s c) \<and> rq_bitmap (s_rq s' c) = rq_bitmap (s_rq s c) \<and>
          rq_nr_running (s_rq s' c) = rq_nr_running (s_rq s c) \<and> rq_current (s_rq s' c) = rq_current (s_rq s c) \<and>
          rq_idle (s_rq s' c) = rq_idle (s_rq s c)) \<and> s_pc_current s' = s_pc_current s"

lemma agree_refl [simp]: "agree s s" by (simp add: agree_def)

lemma agree_trans [trans]: "agree a b \<Longrightarrow> agree b c \<Longrightarrow> agree a c" by (simp add: agree_def)

lemma agreeD:
  assumes "agree s s'"
  shows "t_state (s_thread s' u) = t_state (s_thread s u)" "t_queued (s_thread s' u) = t_queued (s_thread s u)"
    "t_cpu (s_thread s' u) = t_cpu (s_thread s u)" "t_priority (s_thread s' u) = t_priority (s_thread s u)"
    "rq_ready (s_rq s' c) = rq_ready (s_rq s c)" "rq_bitmap (s_rq s' c) = rq_bitmap (s_rq s c)"
    "rq_nr_running (s_rq s' c) = rq_nr_running (s_rq s c)" "rq_current (s_rq s' c) = rq_current (s_rq s c)"
    "rq_idle (s_rq s' c) = rq_idle (s_rq s c)" "s_pc_current s' = s_pc_current s"
  using assms by (simp_all add: agree_def)

lemma agree_qwf: "agree s s' \<Longrightarrow> qwf s' = qwf s"
  by (simp add: qwf_def rq_ok_def queued_ok_def prio_ok_def on_level_def agreeD)

lemma agree_wf: "agree s s' \<Longrightarrow> sched_wf s' = sched_wf s"
  unfolding sched_wf_def cpu_wf_def thread_wf_def by (simp add: agree_qwf agreeD)

lemma agree_thread:
  assumes "t_state (f (s_thread s t)) = t_state (s_thread s t)" "t_queued (f (s_thread s t)) = t_queued (s_thread s t)"
    "t_cpu (f (s_thread s t)) = t_cpu (s_thread s t)" "t_priority (f (s_thread s t)) = t_priority (s_thread s t)"
  shows "agree s (upd_thread t f s)"
  using assms by (simp add: agree_def)

lemma agree_rq:
  assumes "rq_ready (g (s_rq s c)) = rq_ready (s_rq s c)" "rq_bitmap (g (s_rq s c)) = rq_bitmap (s_rq s c)"
    "rq_nr_running (g (s_rq s c)) = rq_nr_running (s_rq s c)" "rq_current (g (s_rq s c)) = rq_current (s_rq s c)"
    "rq_idle (g (s_rq s c)) = rq_idle (s_rq s c)"
  shows "agree s (upd_rq c g s)"
  using assms by (simp add: agree_def)

lemma agree_others [simp]: "agree s (set_resched cpu b s)" "agree s (s\<lparr>s_clock := k\<rparr>)" "agree s (s\<lparr>s_migrations := k\<rparr>)"
  "agree s (s\<lparr>s_pick_rotor := k\<rparr>)" "agree s (request_resched cpu s)"
  by (simp_all add: agree_def request_resched_def)

lemma agree_charge: "agree s (rr_charge cpu t now s)"
  unfolding rr_charge_def Let_def by (rule agree_trans [OF agree_thread agree_rq]) simp_all

lemma agree_slice: "agree s (rr_slice_new t s)"
  unfolding rr_slice_new_def by (rule agree_thread) simp_all

lemma agree_tick: "agree s (rr_tick cpu cur el s)"
proof -
  have a: "agree s (upd_thread cur (\<lambda>th. th\<lparr>t_slice_left_ns := v th\<rparr>) s)" for v s by (rule agree_thread) simp_all
  show ?thesis
    unfolding rr_tick_def Let_def
    using a [where v = "\<lambda>th. 0"] a agree_trans [OF a [where v = "\<lambda>th. 0"] agree_others(1)] agree_trans [OF a [where v = "\<lambda>th. 0"] agree_slice] by (simp split: option.splits)
qed

section \<open>Picking and putting back\<close>

text \<open>The policy picks the first thread of the best level that has one.\<close>

lemma rr_pick_next_cases:
  assumes "qwf s"
  shows "(rr_pick_next cpu s = Some None \<and> (\<forall>p. ready s cpu p = [])) \<or>
    (\<exists>t p ts. rr_pick_next cpu s = Some (Some t) \<and> ready s cpu p = t # ts \<and> (\<forall>q<p. ready s cpu q = []) \<and> on_level (s_thread s t) cpu p)"
proof -
  let ?b = "rq_bitmap (s_rq s cpu)"
  note o = rq_okD [OF qwfD(1) [OF assms, of cpu]]
  show ?thesis
  proof (cases "?b = 0")
    case True
    then have "\<forall>p. ready s cpu p = []" using o(3) by simp
    then show ?thesis using True by (simp add: rr_pick_next_def)
  next
    case False
    then have "ready s cpu (ctz64 ?b) \<noteq> []" using ctz64_bit o(3) by blast
    then obtain t ts where t: "ready s cpu (ctz64 ?b) = t # ts" by (cases "ready s cpu (ctz64 ?b)") auto
    have "ready s cpu q = []" if "q < ctz64 ?b" for q using that ctz64_least [of ?b q] o(3) [of q] by auto
    moreover have "on_level (s_thread s t) cpu (ctz64 ?b)" using o(1) [of t "ctz64 ?b"] t by simp
    ultimately show ?thesis using t False by (auto simp: rr_pick_next_def)
  qed
qed

text \<open>A thread switched out: requeued if it can run, and not running in any case.\<close>

lemma put_prev_ok:
  assumes "sched_wf s" and "rq_current (s_rq s cpu) = Some prev" and "preempt \<longrightarrow> t_state (s_thread s prev) \<noteq> THREAD_EXITED"
  obtains s' where "put_prev cpu preempt prev s = Some s'" "qwf s'" "\<forall>u. u \<noteq> prev \<longrightarrow> s_thread s' u = s_thread s u"
    "t_cpu (s_thread s' prev) = int cpu" "t_state (s_thread s' prev) \<noteq> THREAD_RUNNING"
    "t_state (s_thread s' prev) = THREAD_READY \<longrightarrow> t_queued (s_thread s' prev) \<or> rq_idle (s_rq s cpu) = Some prev"
    "rq_idle (s_rq s cpu) = Some prev \<longrightarrow> t_state (s_thread s' prev) = THREAD_READY \<and> \<not> t_queued (s_thread s' prev)"
    "\<forall>c. rq_current (s_rq s' c) = rq_current (s_rq s c) \<and> rq_idle (s_rq s' c) = rq_idle (s_rq s c)" "s_pc_current s' = s_pc_current s"
proof -
  note q = sched_wfD(1) [OF assms(1)] and c = cpu_wfD [OF sched_wfD(2) [OF assms(1), of cpu]]
  let ?st = "t_state (s_thread s prev)" and ?idle = "rq_idle (s_rq s cpu) = Some prev"
  have nq: "\<not> t_queued (s_thread s prev)" if "?st \<noteq> THREAD_READY" using qwfD(2) [OF q, of prev] that by (auto simp: queued_ok_def)
  have iq: "?idle \<longrightarrow> ?st = THREAD_RUNNING \<and> \<not> t_queued (s_thread s prev)" using c(4,7) assms(2) by auto
  consider "?st = THREAD_EXITED" | "?st = THREAD_READY" | "?st \<noteq> THREAD_EXITED" "?st \<noteq> THREAD_READY" "preempt \<or> ?st = THREAD_RUNNING"
    | "?st = THREAD_BLOCKED" "\<not> preempt" by (cases ?st) auto
  then show ?thesis
  proof cases
    case 1
    let ?s = "upd_rq cpu (\<lambda>rq. rq\<lparr>rq_prev_exited := Some prev\<rparr>) s"
    have "put_prev cpu preempt prev s = Some ?s" using 1 assms(3) by (auto simp: put_prev_def)
    moreover have "qwf ?s" by (rule qwf_rq [OF q]) simp_all
    ultimately show ?thesis using that [of ?s] 1 iq c(1) [OF assms(2)] by auto
  next
    case 2
    have "put_prev cpu preempt prev s = Some s" using 2 by (simp add: put_prev_def)
    moreover have "t_queued (s_thread s prev) \<or> ?idle"
    proof -
      have "t_queued (s_thread s prev) \<or> (\<exists>d. rq_idle (s_rq s d) = Some prev)" using sched_wfD(3) [OF assms(1), of prev] 2 by (simp add: thread_wf_def)
      then show ?thesis using cpu_wfD(5) [OF sched_wfD(2) [OF assms(1)], of _ prev] c(1) [OF assms(2)] by auto
    qed
    ultimately show ?thesis using that [of s] 2 q iq c(1) [OF assms(2)] by auto
  next
    case 3
    let ?s = "upd_thread prev (\<lambda>th. th\<lparr>t_state := THREAD_READY\<rparr>) s"
    have s: "qwf ?s" using nq [OF 3(2)] qwfD(3) [OF q, of prev] by (intro qwf_unqueued [OF q]) (simp_all add: prio_ok_def)
    show ?thesis
    proof (cases ?idle)
      case True
      then have "put_prev cpu preempt prev s = Some ?s" using 3 by (simp add: put_prev_def)
      then show ?thesis using that [of ?s] s True nq [OF 3(2)] c(1) [OF assms(2)] by simp
    next
      case False
      obtain xs ys v where e: "rr_enqueue cpu prev (t_slice_left_ns (s_thread ?s prev) > 0) ?s = Some (enqueued ?s cpu prev xs ys v)"
          "qwf (enqueued ?s cpu prev xs ys v)"
        by (rule enqueue_ok [OF s, of prev cpu]) (use nq [OF 3(2)] c(1,2) [OF assms(2)] in auto)
      have "put_prev cpu preempt prev s = Some (enqueued ?s cpu prev xs ys v)" using 3 False e(1) by (simp add: put_prev_def)
      then show ?thesis using that [OF _ e(2)] c(1) [OF assms(2)] False by (simp add: enqueued_def enqueued_thread_def)
    qed
  next
    case 4
    have "put_prev cpu preempt prev s = Some s" using 4 by (simp add: put_prev_def)
    then show ?thesis using that [of s] 4 q iq c(1) [OF assms(2)] by simp
  qed
qed

lemma take_next_ok:
  assumes "qwf s" and "rq_idle (s_rq s cpu) = Some i" and "\<not> t_queued (s_thread s i)" and "t_cpu (s_thread s i) = int cpu" and "i < MAX_THREADS"
  obtains s' nxt where "take_next cpu s = Some (s', nxt)" "qwf s'" "\<forall>u. u \<noteq> nxt \<longrightarrow> s_thread s' u = s_thread s u"
    "s_thread s' nxt = (s_thread s nxt)\<lparr>t_queued := False\<rparr>" "t_cpu (s_thread s nxt) = int cpu" "nxt < MAX_THREADS"
    "t_queued (s_thread s nxt) \<or> nxt = i"
    "\<forall>u q. u \<in> set (ready s' cpu q) \<longrightarrow> t_queued (s_thread s nxt) \<and> t_priority (s_thread s nxt) \<le> int q"
    "\<forall>c. rq_current (s_rq s' c) = rq_current (s_rq s c) \<and> rq_idle (s_rq s' c) = rq_idle (s_rq s c)" "s_pc_current s' = s_pc_current s"
proof -
  consider "rr_pick_next cpu s = Some None" "\<forall>p. ready s cpu p = []"
    | t p where "rr_pick_next cpu s = Some (Some t)" "on_level (s_thread s t) cpu p" "\<forall>q<p. ready s cpu q = []"
    using rr_pick_next_cases [OF assms(1), of cpu] by blast
  then show ?thesis
  proof cases
    case 1
    have "s_thread s i = (s_thread s i)\<lparr>t_queued := False\<rparr>" using assms(3) by (cases "s_thread s i") simp
    then show ?thesis using that [of s i] 1 assms by (simp add: take_next_def)
  next
    case (2 t p)
    then have t: "t_queued (s_thread s t)" "t_cpu (s_thread s t) = int cpu" by (simp_all add: on_level_def)
    have "take_next cpu s = Some (dequeued s cpu t, t)" using 2(1) rr_dequeue_eq [OF assms(1) t] by (simp add: take_next_def)
    moreover have "t < MAX_THREADS" using qwfD(2) [OF assms(1), of t] t(1) by (simp add: queued_ok_def)
    moreover have "t_priority (s_thread s t) \<le> int q" if "u \<in> set (ready (dequeued s cpu t) cpu q)" for u q
    proof -
      have "ready s cpu q \<noteq> []" using that by (auto simp: dequeued_def Let_def split: if_splits)
      then have "\<not> q < p" using 2(3) by auto
      then show ?thesis using 2(2) by (simp add: on_level_def)
    qed
    ultimately show ?thesis using that [of "dequeued s cpu t" t] dequeued_qwf [OF assms(1) t] t by (simp add: dequeued_def Let_def)
  qed
qed

lemma switch_to_fields:
  "s_thread (switch_to cpu now prev nxt s) u = (if u = nxt then s_thread (switch_to cpu now prev nxt s) nxt else s_thread s u)"
  "t_state (s_thread (switch_to cpu now prev nxt s) nxt) = THREAD_RUNNING"
  "t_queued (s_thread (switch_to cpu now prev nxt s) nxt) = t_queued (s_thread s nxt)"
  "t_priority (s_thread (switch_to cpu now prev nxt s) nxt) = t_priority (s_thread s nxt)"
  "t_cpu (s_thread (switch_to cpu now prev nxt s) nxt) = (if nxt = prev then t_cpu (s_thread s nxt) else int cpu)"
  "rq_current (s_rq (switch_to cpu now prev nxt s) c) = (if c = cpu \<and> nxt \<noteq> prev then Some nxt else rq_current (s_rq s c))"
  "rq_idle (s_rq (switch_to cpu now prev nxt s) c) = rq_idle (s_rq s c)"
  "s_pc_current (switch_to cpu now prev nxt s) c = (if c = cpu \<and> nxt \<noteq> prev then Some nxt else s_pc_current s c)"
  by (simp_all add: switch_to_def Let_def sched_finish_switch_def rr_slice_new_def)

lemma switch_to_qwf:
  assumes "qwf s" and "\<not> t_queued (s_thread s nxt)"
  shows "qwf (switch_to cpu now prev nxt s)"
proof -
  let ?s = "upd_thread nxt (\<lambda>th. th\<lparr>t_state := THREAD_RUNNING, t_flags := t_flags th AND NOT THREAD_FLAG_PREEMPTED,
      t_yield_pending := False, t_last_start_ns := now\<rparr>) s"
  have a: "qwf ?s" using assms qwfD(3) [OF assms(1), of nxt] by (intro qwf_unqueued) (simp_all add: prio_ok_def)
  let ?r = "upd_thread nxt (\<lambda>th. th\<lparr>t_cpu := int cpu, t_switches := u64 (t_switches th + 1)\<rparr>) ?s"
  have "qwf ?r" using assms qwfD(3) [OF a, of nxt] by (intro qwf_unqueued [OF a]) (simp_all add: prio_ok_def)
  then have "qwf (if t_slice_left_ns (s_thread ?r nxt) = 0 then rr_slice_new nxt ?r else ?r)"
    using agree_qwf [OF agree_slice, of nxt ?r] by (simp del: upd_thread_fields)
  then show ?thesis unfolding switch_to_def Let_def sched_finish_switch_def using a by (auto intro!: qwf_rq)
qed

text \<open>What a CPU runs is as good as any thread that waits there, and it idles only if none waits.\<close>

definition runs_best :: "sched \<Rightarrow> nat \<Rightarrow> bool" where
  "runs_best s cpu \<longleftrightarrow>
     (\<exists>t. rq_current (s_rq s cpu) = Some t \<and> t_state (s_thread s t) = THREAD_RUNNING \<and>
        (\<forall>u. t_queued (s_thread s u) \<and> t_cpu (s_thread s u) = int cpu \<longrightarrow>
           rq_idle (s_rq s cpu) \<noteq> Some t \<and> t_priority (s_thread s t) \<le> t_priority (s_thread s u)))"

text \<open>The part of a pass before the thread is put back: it is charged and marked.\<close>

definition pass_start :: "nat \<Rightarrow> bool \<Rightarrow> tid \<Rightarrow> sched \<Rightarrow> sched" where
  "pass_start cpu preempt prev s =
     (let now = s_clock s;
          s = upd_thread prev (\<lambda>th. th\<lparr>t_run_time_ns := u64 (t_run_time_ns th + clock_delta_ns now (t_last_start_ns th))\<rparr>) s;
          s = (if rq_idle (s_rq s cpu) \<noteq> Some prev then rr_charge cpu prev now s else s)
      in if preempt \<and> rq_idle (s_rq s cpu) \<noteq> Some prev
         then upd_thread prev (\<lambda>th. th\<lparr>t_flags := t_flags th OR THREAD_FLAG_PREEMPTED\<rparr>) s else s)"

lemma schedule_pass_alt:
  "rq_current (s_rq s cpu) = Some prev \<Longrightarrow> schedule_pass cpu preempt s = do {
     s2 \<leftarrow> put_prev cpu preempt prev (pass_start cpu preempt prev s);
     (s3, nxt) \<leftarrow> take_next cpu s2;
     Some (switch_to cpu (s_clock s) prev nxt (upd_rq cpu (\<lambda>rq. rq\<lparr>rq_picks := u64 (rq_picks rq + 1)\<rparr>) (set_resched cpu False s3)))
   }"
  by (simp add: schedule_pass_def pass_start_def Let_def)

lemma agree_pass_start: "agree s (pass_start cpu preempt prev s)"
proof -
  let ?a = "upd_thread prev (\<lambda>th. th\<lparr>t_run_time_ns := u64 (t_run_time_ns th + clock_delta_ns (s_clock s) (t_last_start_ns th))\<rparr>) s"
  have 1: "agree s ?a" by (rule agree_thread) simp_all
  let ?b = "if rq_idle (s_rq ?a cpu) \<noteq> Some prev then rr_charge cpu prev (s_clock s) ?a else ?a"
  have 2: "agree s ?b" using agree_trans [OF 1 agree_charge] 1 by simp
  have "agree ?b (upd_thread prev (\<lambda>th. th\<lparr>t_flags := t_flags th OR THREAD_FLAG_PREEMPTED\<rparr>) ?b)" by (rule agree_thread) simp_all
  from agree_trans [OF 2 this] 2 show ?thesis unfolding pass_start_def Let_def by presburger
qed

lemma switched_wf:
  assumes wf: "sched_wf s" and cur: "rq_current (s_rq s cpu) = Some prev" and idle: "rq_idle (s_rq s cpu) = Some i"
    and q: "qwf f" and n: "t_state (s_thread f nxt) = THREAD_RUNNING" "\<not> t_queued (s_thread f nxt)" "t_cpu (s_thread f nxt) = int cpu" "nxt < MAX_THREADS"
      "t_cpu (s_thread s nxt) = int cpu"
    and p: "prev \<noteq> nxt \<longrightarrow> t_state (s_thread f prev) \<noteq> THREAD_RUNNING" "t_cpu (s_thread f prev) = int cpu"
      "prev \<noteq> nxt \<longrightarrow> t_state (s_thread f prev) = THREAD_READY \<longrightarrow> t_queued (s_thread f prev) \<or> prev = i"
      "prev \<noteq> nxt \<longrightarrow> prev = i \<longrightarrow> t_state (s_thread f prev) = THREAD_READY \<and> \<not> t_queued (s_thread f prev)"
    and o: "\<And>u. u \<noteq> nxt \<Longrightarrow> u \<noteq> prev \<Longrightarrow> s_thread f u = s_thread s u"
    and c: "\<And>d. rq_current (s_rq f d) = (if d = cpu then Some nxt else rq_current (s_rq s d))" "\<And>d. rq_idle (s_rq f d) = rq_idle (s_rq s d)"
      "\<And>d. s_pc_current f d = rq_current (s_rq f d)"
  shows "sched_wf f"
proof -
  note W = cpu_wfD [OF sched_wfD(2) [OF wf]]
  have pc: "t_cpu (s_thread s prev) = int cpu" by (rule W(1) [OF cur])
  have far: "u \<noteq> nxt" "u \<noteq> prev" "s_thread f u = s_thread s u" if "t_cpu (s_thread s u) = int d" "d \<noteq> cpu" for u d
  proof -
    show "u \<noteq> nxt" "u \<noteq> prev" using that n(5) pc by auto
    then show "s_thread f u = s_thread s u" by (rule o)
  qed
  have "cpu_wf f d" for d
  proof (cases "d = cpu")
    case True
    have "t_cpu (s_thread f i) = int cpu \<and> \<not> t_queued (s_thread f i) \<and> i < MAX_THREADS \<and>
        t_state (s_thread f i) = (if i = nxt then THREAD_RUNNING else THREAD_READY)"
    proof (cases "i = nxt \<or> i = prev")
      case True
      then show ?thesis using n p(2,4) W(6) [OF idle] by auto
    next
      case False
      then show ?thesis using o [of i] W(4,5,6,7) [OF idle] cur by auto
    qed
    then show ?thesis unfolding cpu_wf_def c True using n(3,4) idle by simp
  next
    case False
    then have "t_cpu (s_thread f u) = int d" "u < MAX_THREADS" if "rq_current (s_rq f d) = Some u" for u
      using far(3) [OF W(1) False, of u] W(1,2) [of d u] that c(1) by simp_all
    moreover have "\<not> t_queued (s_thread f j) \<and> t_cpu (s_thread f j) = int d \<and> j < MAX_THREADS \<and>
        t_state (s_thread f j) = (if rq_current (s_rq f d) = Some j then THREAD_RUNNING else THREAD_READY)" if "rq_idle (s_rq f d) = Some j" for j
      using far(3) [OF W(5) False, of j] W(4-7) [of d j] that c(1,2) False by simp
    moreover have "\<exists>j. rq_idle (s_rq f d) = Some j" if "rq_current (s_rq f d) = Some u" for u using that W(8) [of d u] c(1,2) False by simp
    ultimately show ?thesis by (auto simp: cpu_wf_def c(3))
  qed
  moreover have "thread_wf f u" for u
  proof -
    consider "u = nxt" | "u = prev" "u \<noteq> nxt" | "u \<noteq> prev" "u \<noteq> nxt" by blast
    then show ?thesis
    proof cases
      case 1
      have "rq_current (s_rq f cpu) = Some nxt" by (simp add: c)
      then show ?thesis using n 1 by (auto simp: thread_wf_def)
    next
      case 2
      then show ?thesis using p idle c(2) by (auto simp: thread_wf_def)
    next
      case 3
      have w: "thread_wf s u" by (rule sched_wfD(3) [OF wf])
      have "\<exists>d. rq_current (s_rq f d) = Some u" if "rq_current (s_rq s d) = Some u" for d
        using that 3 cur by (intro exI [of _ d]) (auto simp: c)
      then show ?thesis using w o [OF 3(2,1)] by (auto simp: thread_wf_def c(2))
    qed
  qed
  ultimately show ?thesis using q by (simp add: sched_wf_def)
qed

text \<open>
  The stages of a pass, from the state \<open>s1\<close> where the old thread has been charged: it is put back (\<open>s2\<close>), the next one is
  taken (\<open>s3\<close>) and starts (\<open>f\<close>).
\<close>

definition staged :: "sched \<Rightarrow> nat \<Rightarrow> tid \<Rightarrow> tid \<Rightarrow> sched \<Rightarrow> sched \<Rightarrow> tid \<Rightarrow> sched \<Rightarrow> bool" where
  "staged s1 cpu prev i s2 s3 nxt f \<longleftrightarrow>
     (\<forall>u. u \<noteq> prev \<longrightarrow> s_thread s2 u = s_thread s1 u) \<and> t_cpu (s_thread s2 prev) = int cpu \<and> t_state (s_thread s2 prev) \<noteq> THREAD_RUNNING \<and>
     (t_state (s_thread s2 prev) = THREAD_READY \<longrightarrow> t_queued (s_thread s2 prev) \<or> prev = i) \<and>
     (prev = i \<longrightarrow> t_state (s_thread s2 prev) = THREAD_READY \<and> \<not> t_queued (s_thread s2 prev)) \<and> \<not> t_queued (s_thread s2 i) \<and>
     (\<forall>u. u \<noteq> nxt \<longrightarrow> s_thread s3 u = s_thread s2 u) \<and> t_cpu (s_thread s2 nxt) = int cpu \<and> nxt < MAX_THREADS \<and> qwf s3 \<and>
     (\<forall>u q. u \<in> set (ready s3 cpu q) \<longrightarrow> t_queued (s_thread s2 nxt) \<and> t_priority (s_thread s2 nxt) \<le> int q) \<and> qwf f \<and>
     (\<forall>u. u \<noteq> nxt \<longrightarrow> s_thread f u = s_thread s3 u) \<and> t_state (s_thread f nxt) = THREAD_RUNNING \<and> \<not> t_queued (s_thread f nxt) \<and>
     t_cpu (s_thread f nxt) = int cpu \<and> t_priority (s_thread f nxt) = t_priority (s_thread s2 nxt) \<and>
     (\<forall>d. rq_current (s_rq f d) = (if d = cpu then Some nxt else rq_current (s_rq s1 d))) \<and>
     (\<forall>d. rq_idle (s_rq f d) = rq_idle (s_rq s1 d)) \<and> (\<forall>d. s_pc_current f d = rq_current (s_rq f d))"

lemma pass_stages:
  assumes "sched_wf s1" and "rq_current (s_rq s1 cpu) = Some prev" and "preempt \<longrightarrow> t_state (s_thread s1 prev) \<noteq> THREAD_EXITED"
    and i: "rq_idle (s_rq s1 cpu) = Some i"
  obtains s2 s3 nxt where "put_prev cpu preempt prev s1 = Some s2" "take_next cpu s2 = Some (s3, nxt)"
    "staged s1 cpu prev i s2 s3 nxt (switch_to cpu now prev nxt (upd_rq cpu (\<lambda>rq. rq\<lparr>rq_picks := u64 (rq_picks rq + 1)\<rparr>) (set_resched cpu False s3)))"
proof -
  note W = cpu_wfD [OF sched_wfD(2) [OF assms(1), of cpu]]
  obtain s2 where s2: "put_prev cpu preempt prev s1 = Some s2" "qwf s2" "\<forall>u. u \<noteq> prev \<longrightarrow> s_thread s2 u = s_thread s1 u"
    "t_cpu (s_thread s2 prev) = int cpu" "t_state (s_thread s2 prev) \<noteq> THREAD_RUNNING"
    "t_state (s_thread s2 prev) = THREAD_READY \<longrightarrow> t_queued (s_thread s2 prev) \<or> rq_idle (s_rq s1 cpu) = Some prev"
    "rq_idle (s_rq s1 cpu) = Some prev \<longrightarrow> t_state (s_thread s2 prev) = THREAD_READY \<and> \<not> t_queued (s_thread s2 prev)"
    "\<forall>c. rq_current (s_rq s2 c) = rq_current (s_rq s1 c) \<and> rq_idle (s_rq s2 c) = rq_idle (s_rq s1 c)" "s_pc_current s2 = s_pc_current s1"
    by (rule put_prev_ok [OF assms(1-3)])
  have i2: "rq_idle (s_rq s2 cpu) = Some i" "\<not> t_queued (s_thread s2 i)" "t_cpu (s_thread s2 i) = int cpu" "i < MAX_THREADS"
    using i s2(3,4,7,8) W(4-6) [OF i] by (cases "i = prev"; simp)+
  obtain s3 nxt where s3: "take_next cpu s2 = Some (s3, nxt)" "qwf s3" "\<forall>u. u \<noteq> nxt \<longrightarrow> s_thread s3 u = s_thread s2 u"
    "s_thread s3 nxt = (s_thread s2 nxt)\<lparr>t_queued := False\<rparr>" "t_cpu (s_thread s2 nxt) = int cpu" "nxt < MAX_THREADS"
    "\<forall>u q. u \<in> set (ready s3 cpu q) \<longrightarrow> t_queued (s_thread s2 nxt) \<and> t_priority (s_thread s2 nxt) \<le> int q"
    "\<forall>c. rq_current (s_rq s3 c) = rq_current (s_rq s2 c) \<and> rq_idle (s_rq s3 c) = rq_idle (s_rq s2 c)" "s_pc_current s3 = s_pc_current s2"
    by (rule take_next_ok [OF s2(2) i2])
  define s4 where "s4 = upd_rq cpu (\<lambda>rq. rq\<lparr>rq_picks := u64 (rq_picks rq + 1)\<rparr>) (set_resched cpu False s3)"
  define f where "f = switch_to cpu now prev nxt s4"
  have t4: "s_thread s4 = s_thread s3" "\<And>c. rq_current (s_rq s4 c) = rq_current (s_rq s3 c)" "\<And>c. rq_idle (s_rq s4 c) = rq_idle (s_rq s3 c)"
    "s_pc_current s4 = s_pc_current s3"
    by (simp_all add: s4_def)
  note F = switch_to_fields [where cpu = cpu and now = now and prev = prev and nxt = nxt and s = s4, folded f_def]
  have q4: "qwf s4" unfolding s4_def by (rule qwf_rq) (simp_all add: s3(2))
  have qf: "qwf f" unfolding f_def by (rule switch_to_qwf [OF q4]) (simp add: t4 s3(4))
  have "t_cpu (s_thread s4 nxt) = int cpu" using s3(4,5) by (simp add: t4)
  then have nf: "t_cpu (s_thread f nxt) = int cpu" using F(5) by presburger
  have c: "rq_current (s_rq f d) = (if d = cpu then Some nxt else rq_current (s_rq s1 d))" "rq_idle (s_rq f d) = rq_idle (s_rq s1 d)"
    "s_pc_current f d = rq_current (s_rq f d)" for d
    using F(6-8) [of d] s2(8,9) s3(8,9) assms(2) cpu_wfD(3) [OF sched_wfD(2) [OF assms(1), of d]] by (simp_all add: t4)
  have th: "s_thread f u = s_thread s3 u" if "u \<noteq> nxt" for u using F(1) [of u] that by (simp add: t4)
  have fn: "t_state (s_thread f nxt) = THREAD_RUNNING" "\<not> t_queued (s_thread f nxt)" "t_priority (s_thread f nxt) = t_priority (s_thread s2 nxt)"
    using F(2-4) s3(4) by (simp_all add: t4)
  have p2: "t_state (s_thread s2 prev) = THREAD_READY \<longrightarrow> t_queued (s_thread s2 prev) \<or> prev = i"
    "prev = i \<longrightarrow> t_state (s_thread s2 prev) = THREAD_READY \<and> \<not> t_queued (s_thread s2 prev)"
    using s2(6,7) i by auto
  have "staged s1 cpu prev i s2 s3 nxt f"
    unfolding staged_def by (intro conjI allI impI) (use s2(3-5) s3(2,3,5-7) i2(2) p2 th fn qf nf c in auto)
  then show ?thesis using that [OF s2(1) s3(1)] by (simp add: f_def s4_def)
qed

lemma staged_wf:
  assumes "sched_wf s1" and "rq_current (s_rq s1 cpu) = Some prev" and "rq_idle (s_rq s1 cpu) = Some i" and g: "staged s1 cpu prev i s2 s3 nxt f"
  shows "sched_wf f"
proof (rule switched_wf [OF assms(1-3)])
  note G = g [unfolded staged_def]
  have pv: "s_thread f prev = s_thread s2 prev" if "prev \<noteq> nxt" using that G by simp
  have "s_thread s1 nxt = s_thread s2 nxt" if "nxt \<noteq> prev" using that G by simp
  moreover have "t_cpu (s_thread s2 nxt) = int cpu" using G by simp
  ultimately show "t_cpu (s_thread s1 nxt) = int cpu"
    using cpu_wfD(1) [OF sched_wfD(2) [OF assms(1)] assms(2)] by (cases "nxt = prev") simp_all
  show "t_cpu (s_thread f prev) = int cpu" using pv G by (cases "prev = nxt") simp_all
  show "prev \<noteq> nxt \<longrightarrow> t_state (s_thread f prev) \<noteq> THREAD_RUNNING"
    "prev \<noteq> nxt \<longrightarrow> t_state (s_thread f prev) = THREAD_READY \<longrightarrow> t_queued (s_thread f prev) \<or> prev = i"
    "prev \<noteq> nxt \<longrightarrow> prev = i \<longrightarrow> t_state (s_thread f prev) = THREAD_READY \<and> \<not> t_queued (s_thread f prev)"
    using pv G by simp_all
qed (use g in \<open>simp_all add: staged_def\<close>)

lemma staged_best:
  assumes "rq_idle (s_rq s1 cpu) = Some i" and g: "staged s1 cpu prev i s2 s3 nxt f"
  shows "runs_best f cpu"
  unfolding runs_best_def
proof (intro exI conjI allI impI)
  note G = g [unfolded staged_def]
  show "rq_current (s_rq f cpu) = Some nxt" "t_state (s_thread f nxt) = THREAD_RUNNING" using G by simp_all
  fix u
  assume u: "t_queued (s_thread f u) \<and> t_cpu (s_thread f u) = int cpu"
  then have e: "s_thread f u = s_thread s3 u" using G by auto
  have q: "qwf s3" using G by simp
  have "u \<in> set (ready s3 cpu (level (s_thread s3 u)))" using queued_at [OF q, of u] u e by simp
  then have "t_queued (s_thread s2 nxt) \<and> t_priority (s_thread s2 nxt) \<le> t_priority (s_thread s3 u)"
    using G level_ok(1) [OF qwfD(3) [OF q], of u] by simp
  then show "rq_idle (s_rq f cpu) \<noteq> Some nxt" "t_priority (s_thread f nxt) \<le> t_priority (s_thread f u)"
    using G assms(1) e by auto
qed

lemma schedule_pass_wf:
  assumes wf: "sched_wf s" and cur: "rq_current (s_rq s cpu) = Some prev" and ex: "preempt \<longrightarrow> t_state (s_thread s prev) \<noteq> THREAD_EXITED"
  obtains i s2 s3 nxt s' where "schedule_pass cpu preempt s = Some s'" "sched_wf s'" "runs_best s' cpu"
    "put_prev cpu preempt prev (pass_start cpu preempt prev s) = Some s2" "take_next cpu s2 = Some (s3, nxt)"
    "staged (pass_start cpu preempt prev s) cpu prev i s2 s3 nxt s'"
proof -
  define s1 where "s1 = pass_start cpu preempt prev s"
  have a: "agree s s1" unfolding s1_def by (rule agree_pass_start)
  have w1: "sched_wf s1" "rq_current (s_rq s1 cpu) = Some prev" "preempt \<longrightarrow> t_state (s_thread s1 prev) \<noteq> THREAD_EXITED"
    using assms agree_wf [OF a] agreeD [OF a] by simp_all
  obtain i where i: "rq_idle (s_rq s1 cpu) = Some i" using cpu_wfD(8) [OF sched_wfD(2) [OF w1(1)] w1(2)] by blast
  obtain s2 s3 nxt where st: "put_prev cpu preempt prev s1 = Some s2" "take_next cpu s2 = Some (s3, nxt)"
    "staged s1 cpu prev i s2 s3 nxt (switch_to cpu (s_clock s) prev nxt (upd_rq cpu (\<lambda>rq. rq\<lparr>rq_picks := u64 (rq_picks rq + 1)\<rparr>) (set_resched cpu False s3)))"
    by (rule pass_stages [OF w1 i])
  show ?thesis
    by (rule that [of _ s2 s3 nxt i])
      (use schedule_pass_alt [OF cur] st staged_wf [OF w1(1,2) i st(3)] staged_best [OF i st(3)] in \<open>simp_all add: s1_def\<close>)
qed

section \<open>Taking threads off queues and putting them on\<close>

definition wf_but :: "tid \<Rightarrow> sched \<Rightarrow> bool" where
  "wf_but t s \<longleftrightarrow> qwf s \<and> (\<forall>cpu. cpu_wf s cpu) \<and> (\<forall>u. u \<noteq> t \<longrightarrow> thread_wf s u)"

lemma wf_but_wf: "sched_wf s \<Longrightarrow> wf_but t s" by (simp add: wf_but_def sched_wf_def)

lemma wf_butD: "wf_but t s \<Longrightarrow> qwf s" "wf_but t s \<Longrightarrow> cpu_wf s cpu" "wf_but t s \<Longrightarrow> u \<noteq> t \<Longrightarrow> thread_wf s u"
  by (simp_all add: wf_but_def)

lemma not_idle:
  assumes "cpu_wf s d" and "t_queued (s_thread s t) \<or> t_state (s_thread s t) = THREAD_BLOCKED"
  shows "rq_idle (s_rq s d) \<noteq> Some t"
  using cpu_wfD(4,7) [OF assms(1), of t] assms(2) by (auto split: if_splits)

lemma blocked_free: "qwf s \<Longrightarrow> t_state (s_thread s t) \<noteq> THREAD_READY \<Longrightarrow> \<not> t_queued (s_thread s t)"
  using qwfD(2) [of s t] by (auto simp: queued_ok_def)

lemma enqueue_wf:
  assumes wf: "wf_but t s" and nq: "\<not> t_queued (s_thread s t)" and ni: "\<forall>d. rq_idle (s_rq s d) \<noteq> Some t" and mx: "t < MAX_THREADS"
    and cur: "\<forall>d. rq_current (s_rq s d) = Some t \<longrightarrow> d = cpu"
    and f: "t_state (f (s_thread s t)) = THREAD_READY" "t_cpu (f (s_thread s t)) = int cpu" "\<not> t_queued (f (s_thread s t))" "prio_ok (f (s_thread s t))"
  obtains s' where "rr_enqueue cpu t h (upd_thread t f s) = Some s'" "sched_wf s'" "\<forall>u. u \<noteq> t \<longrightarrow> s_thread s' u = s_thread s u"
    "t_priority (s_thread s' t) = t_priority (f (s_thread s t))" "t_queued (s_thread s' t)" "t_cpu (s_thread s' t) = int cpu"
proof -
  let ?s = "upd_thread t f s"
  have q: "qwf ?s" using wf_butD(1) [OF wf] nq f(3,4) by (intro qwf_unqueued)
  obtain xs ys v where e: "rr_enqueue cpu t h ?s = Some (enqueued ?s cpu t xs ys v)" "qwf (enqueued ?s cpu t xs ys v)"
    by (rule enqueue_ok [OF q, of t cpu]) (use f mx in auto)
  let ?e = "enqueued ?s cpu t xs ys v"
  have th: "s_thread ?e u = s_thread s u" if "u \<noteq> t" for u using that by (simp add: enqueued_def)
  have tt: "t_queued (s_thread ?e t)" "t_cpu (s_thread ?e t) = int cpu" "t_state (s_thread ?e t) = THREAD_READY"
    "t_priority (s_thread ?e t) = t_priority (f (s_thread s t))"
    using f by (simp_all add: enqueued_def enqueued_thread_def)
  have rq: "rq_current (s_rq ?e d) = rq_current (s_rq s d)" "rq_idle (s_rq ?e d) = rq_idle (s_rq s d)" "s_pc_current ?e = s_pc_current s" for d
    by (simp_all add: enqueued_def)
  have "cpu_wf ?e d" for d
  proof -
    note W = cpu_wfD [OF wf_butD(2) [OF wf, of d]]
    have "t_cpu (s_thread ?e u) = int d" "u < MAX_THREADS" if "rq_current (s_rq s d) = Some u" for u
      using W(1,2) [OF that] th [of u] tt(2) cur that by (cases "u = t"; auto)+
    moreover have "\<not> t_queued (s_thread ?e i) \<and> t_cpu (s_thread ?e i) = int d \<and> i < MAX_THREADS \<and>
        t_state (s_thread ?e i) = (if rq_current (s_rq s d) = Some i then THREAD_RUNNING else THREAD_READY)" if "rq_idle (s_rq s d) = Some i" for i
    proof -
      have "i \<noteq> t" using ni that by auto
      then show ?thesis using W(4-7) [OF that] th [of i] by simp
    qed
    ultimately show ?thesis using W(3,8) by (auto simp: cpu_wf_def rq)
  qed
  moreover have "thread_wf ?e u" for u
  proof (cases "u = t")
    case True
    then show ?thesis using tt by (simp add: thread_wf_def)
  next
    case False
    then show ?thesis using wf_butD(3) [OF wf False] th [OF False] by (simp add: thread_wf_def rq)
  qed
  ultimately have "sched_wf ?e" using e(2) by (simp add: sched_wf_def)
  then show ?thesis using that [OF e(1)] th tt by simp
qed

lemma dequeue_wf:
  assumes wf: "sched_wf s" and q: "t_queued (s_thread s t)" and cpu: "t_cpu (s_thread s t) = int cpu"
  shows "rr_dequeue cpu t s = Some (dequeued s cpu t)" "wf_but t (dequeued s cpu t)"
    "s_thread (dequeued s cpu t) = (s_thread s)(t := (s_thread s t)\<lparr>t_queued := False\<rparr>)"
    "rq_current (s_rq (dequeued s cpu t) d) = rq_current (s_rq s d)" "rq_idle (s_rq (dequeued s cpu t) d) = rq_idle (s_rq s d)"
    "s_pc_current (dequeued s cpu t) = s_pc_current s"
proof -
  let ?e = "dequeued s cpu t"
  have qw: "qwf s" by (rule sched_wfD(1) [OF wf])
  show "rr_dequeue cpu t s = Some ?e" by (rule rr_dequeue_eq [OF qw q cpu])
  show th: "s_thread ?e = (s_thread s)(t := (s_thread s t)\<lparr>t_queued := False\<rparr>)" by (simp add: dequeued_def Let_def)
  show rq: "rq_current (s_rq ?e d) = rq_current (s_rq s d)" "rq_idle (s_rq ?e d) = rq_idle (s_rq s d)" "s_pc_current ?e = s_pc_current s" for d
    by (simp_all add: dequeued_def Let_def)
  have "cpu_wf ?e d" for d using sched_wfD(2) [OF wf, of d] not_idle [OF sched_wfD(2) [OF wf], of t d] q by (auto simp: cpu_wf_def rq th)
  moreover have "thread_wf ?e u" if "u \<noteq> t" for u using sched_wfD(3) [OF wf, of u] that by (simp add: thread_wf_def rq th)
  ultimately show "wf_but t ?e" using dequeued_qwf [OF qw q cpu] by (simp add: wf_but_def)
qed

lemma wf_unqueued:
  assumes wf: "wf_but t s" and nq: "\<not> t_queued (s_thread s t)" "\<not> t_queued (f (s_thread s t))" and p: "prio_ok (f (s_thread s t))"
    and c: "t_cpu (f (s_thread s t)) = t_cpu (s_thread s t)"
    and st: "t_state (f (s_thread s t)) = THREAD_RUNNING \<longrightarrow> (\<exists>d. rq_current (s_rq s d) = Some t)"
      "t_state (f (s_thread s t)) = THREAD_READY \<longrightarrow> (\<exists>d. rq_idle (s_rq s d) = Some t)"
      "\<forall>d. rq_idle (s_rq s d) = Some t \<longrightarrow> t_state (f (s_thread s t)) = t_state (s_thread s t)"
  shows "sched_wf (upd_thread t f s)"
proof -
  let ?e = "upd_thread t f s"
  have "qwf ?e" using wf_butD(1) [OF wf] nq p by (intro qwf_unqueued)
  moreover have "cpu_wf ?e d" for d
    using wf_butD(2) [OF wf, of d] c st(3) nq by (auto simp: cpu_wf_def)
  moreover have "thread_wf ?e u" for u
  proof (cases "u = t")
    case True
    then show ?thesis using st(1,2) by (simp add: thread_wf_def)
  next
    case False
    then show ?thesis using wf_butD(3) [OF wf False] by (simp add: thread_wf_def)
  qed
  ultimately show ?thesis by (simp add: sched_wf_def)
qed

end
