(* ===== verification/Sched_Props.thy ===== *)
theory Sched_Props
  imports Sched_Steps
begin

text \<open>
  Every operation of the scheduler keeps the invariant and returns; the states the scheduler reaches; and
  what follows for the threads: the best ready thread runs, a waiting thread comes to run, and no thread
  is moved that may not be.
\<close>

section \<open>Operation by operation\<close>

lemma yield_wf:
  assumes "sched_wf s" and "rq_current (s_rq s cpu) = Some t"
  shows "\<exists>s'. sched_yield cpu s = Some s' \<and> sched_wf s'"
proof -
  let ?s = "upd_thread t (\<lambda>th. th\<lparr>t_slice_left_ns := 0, t_yield_pending := True\<rparr>) s"
  have a: "agree s ?s" by (rule agree_thread) simp_all
  have "sched_yield cpu s = schedule_pass cpu False ?s"
    using assms(2) cpu_wfD(3) [OF sched_wfD(2) [OF assms(1), of cpu]] by (simp add: sched_yield_def)
  then show ?thesis using schedule_pass_wf [of ?s cpu t False] assms agree_wf [OF a] by (metis upd_thread_fields(2))
qed

lemma exited_wf:
  assumes "sched_wf s" and "rq_current (s_rq s cpu) = Some t" and "t_state (s_thread s t) = THREAD_RUNNING" and "rq_idle (s_rq s cpu) \<noteq> Some t"
  shows "sched_wf (upd_thread t (\<lambda>th. th\<lparr>t_state := THREAD_EXITED\<rparr>) s)"
    "thread_exit cpu s = schedule_pass cpu False (upd_thread t (\<lambda>th. th\<lparr>t_state := THREAD_EXITED\<rparr>) s)"
proof -
  note q = sched_wfD(1) [OF assms(1)] and W = cpu_wfD [OF sched_wfD(2) [OF assms(1)]]
  have "rq_idle (s_rq s d) \<noteq> Some t" for d using W(1) [OF assms(2)] W(5) [of d t] assms(4) by auto
  then show "sched_wf (upd_thread t (\<lambda>th. th\<lparr>t_state := THREAD_EXITED\<rparr>) s)"
    using assms(3) qwfD(3) [OF q, of t] blocked_free [OF q, of t]
    by (intro wf_unqueued [OF wf_but_wf [OF assms(1)]]) (simp_all add: prio_ok_def)
  show "thread_exit cpu s = schedule_pass cpu False (upd_thread t (\<lambda>th. th\<lparr>t_state := THREAD_EXITED\<rparr>) s)"
    using assms(2) W(3) by (simp add: thread_exit_def)
qed

lemma exit_wf:
  assumes "sched_wf s" and "rq_current (s_rq s cpu) = Some t" and "t_state (s_thread s t) = THREAD_RUNNING" and "rq_idle (s_rq s cpu) \<noteq> Some t"
  shows "\<exists>s'. thread_exit cpu s = Some s' \<and> sched_wf s'"
  using exited_wf [OF assms] schedule_pass_wf [of "upd_thread t (\<lambda>th. th\<lparr>t_state := THREAD_EXITED\<rparr>) s" cpu t False] assms(2)
  by (metis upd_thread_fields(2))

lemma block_wf:
  assumes "sched_wf s" and "rq_current (s_rq s cpu) = Some t" and "rq_idle (s_rq s cpu) \<noteq> Some t"
  shows "\<exists>s'. sched_prepare_block_current cpu s = Some s' \<and> sched_wf s'"
proof (cases "t_state (s_thread s t) = THREAD_READY")
  case True
  then show ?thesis using assms cpu_wfD(3) [OF sched_wfD(2) [OF assms(1)]] by (simp add: sched_prepare_block_current_def)
next
  case False
  note q = sched_wfD(1) [OF assms(1)] and W = cpu_wfD [OF sched_wfD(2) [OF assms(1)]]
  have "rq_idle (s_rq s d) \<noteq> Some t" for d using W(1) [OF assms(2)] W(5) [of d t] assms(3) by auto
  then have "sched_wf (upd_thread t (\<lambda>th. th\<lparr>t_state := THREAD_BLOCKED\<rparr>) s)"
    using qwfD(3) [OF q, of t] blocked_free [OF q False] by (intro wf_unqueued [OF wf_but_wf [OF assms(1)]]) (simp_all add: prio_ok_def)
  then show ?thesis using False assms(2) W(3) by (simp add: sched_prepare_block_current_def)
qed

lemma set_running_wf:
  assumes "sched_wf s" and "rq_current (s_rq s cpu) = Some t"
  shows "\<exists>s'. sched_set_running_current cpu s = Some s' \<and> sched_wf s'"
proof -
  note q = sched_wfD(1) [OF assms(1)] and W = cpu_wfD [OF sched_wfD(2) [OF assms(1)]]
  have pc: "s_pc_current s cpu = Some t" using W(3) assms(2) by simp
  have i: "t_state (s_thread s t) = THREAD_RUNNING" if "rq_idle (s_rq s d) = Some t" for d
    using W(7) [OF that] W(1) [OF assms(2)] W(5) [OF that] assms(2) by simp
  show ?thesis
  proof (cases "t_state (s_thread s t) = THREAD_READY")
    case True
    then have tq: "t_queued (s_thread s t)" using sched_wfD(3) [OF assms(1), of t] i by (auto simp: thread_wf_def)
    note D = dequeue_wf [OF assms(1) tq W(1) [OF assms(2)]]
    have "sched_wf (upd_thread t (\<lambda>th. th\<lparr>t_state := THREAD_RUNNING\<rparr>) (dequeued s cpu t))"
      using D(2-5) assms(2) qwfD(3) [OF q, of t] i True by (intro wf_unqueued [OF D(2)]) (auto simp: prio_ok_def)
    then show ?thesis using pc True D(1) by (simp add: sched_set_running_current_def)
  next
    case False
    have "sched_wf (upd_thread t (\<lambda>th. th\<lparr>t_state := THREAD_RUNNING\<rparr>) s)"
      using assms(2) qwfD(3) [OF q, of t] blocked_free [OF q False] i by (intro wf_unqueued [OF wf_but_wf [OF assms(1)]]) (auto simp: prio_ok_def)
    then show ?thesis using pc False by (simp add: sched_set_running_current_def)
  qed
qed

lemma wake_wf:
  assumes "sched_wf s" and "0 \<le> t_cpu (s_thread s t)" and "t < MAX_THREADS"
  shows "\<exists>s'. sched_wake t s = Some (s', t_state (s_thread s t) = THREAD_BLOCKED) \<and> sched_wf s'"
proof (cases "t_state (s_thread s t) = THREAD_BLOCKED")
  case False
  then show ?thesis using assms by (simp add: sched_wake_def)
next
  case True
  define cpu where "cpu = nat (t_cpu (s_thread s t))"
  have c: "t_cpu (s_thread s t) = int cpu" using assms(2) by (simp add: cpu_def)
  note q = sched_wfD(1) [OF assms(1)] and W = cpu_wfD [OF sched_wfD(2) [OF assms(1)]]
  let ?f = "\<lambda>th. th\<lparr>t_state := THREAD_READY\<rparr>"
  obtain s' where e: "rr_enqueue cpu t False (upd_thread t ?f s) = Some s'" "sched_wf s'"
  proof (rule enqueue_wf [OF wf_but_wf [OF assms(1)], of t cpu ?f False])
    show "\<forall>d. rq_idle (s_rq s d) \<noteq> Some t" using not_idle [OF sched_wfD(2) [OF assms(1)]] True by blast
    show "\<forall>d. rq_current (s_rq s d) = Some t \<longrightarrow> d = cpu" using W(1) c by auto
  qed (use True blocked_free [OF q, of t] assms(3) c qwfD(3) [OF q, of t] in \<open>auto simp: prio_ok_def\<close>)
  have "sched_wf (if outranks cpu (t_priority (s_thread s' t)) s' then request_resched cpu s' else s')"
    using e(2) agree_wf [OF agree_others(5)] by simp
  then show ?thesis using assms(2) True e(1) by (simp add: sched_wake_def cpu_def [symmetric] Let_def)
qed

lemma reprioritize_wf:
  assumes "sched_wf s" and "t < MAX_THREADS"
  shows "\<exists>s'. sched_reprioritize t prio s = Some s' \<and> sched_wf s'"
proof -
  define pr where "pr = (if prio < 0 then 0 else if prio \<ge> SCHED_PRIO_COUNT then SCHED_PRIO_LOWEST else prio)"
  have pr: "0 \<le> pr" "pr < SCHED_PRIO_COUNT" by (auto simp: pr_def SCHED_PRIO_COUNT_def SCHED_PRIO_LOWEST_def)
  note q = sched_wfD(1) [OF assms(1)] and W = cpu_wfD [OF sched_wfD(2) [OF assms(1)]]
  let ?th = "s_thread s t" and ?f = "\<lambda>th. th\<lparr>t_priority := pr\<rparr>"
  have plain: "sched_wf (upd_thread t ?f s)" if "\<not> t_queued ?th"
    using that pr sched_wfD(3) [OF assms(1), of t] by (intro wf_unqueued [OF wf_but_wf [OF assms(1)]]) (simp_all add: prio_ok_def thread_wf_def)
  show ?thesis
  proof (cases "t_cpu ?th \<ge> 0 \<and> t_priority ?th \<noteq> pr \<and> t_queued ?th")
    case False
    have "t_cpu ?th < 0 \<Longrightarrow> \<not> t_queued ?th" using qwfD(2) [OF q, of t] by (auto simp: queued_ok_def)
    then show ?thesis using False plain assms(1) by (auto simp: sched_reprioritize_def pr_def [symmetric] Let_def)
  next
    case True
    define cpu where "cpu = nat (t_cpu ?th)"
    have c: "t_cpu ?th = int cpu" using True by (simp add: cpu_def)
    have st: "t_state ?th = THREAD_READY" using qwfD(2) [OF q, of t] True by (simp add: queued_ok_def)
    note D = dequeue_wf [OF assms(1) conjunct2 [OF conjunct2 [OF True]] c]
    obtain s' where e: "rr_enqueue cpu t False (upd_thread t ?f (dequeued s cpu t)) = Some s'" "sched_wf s'"
    proof (rule enqueue_wf [OF D(2), of cpu ?f False])
      show "\<forall>d. rq_idle (s_rq (dequeued s cpu t) d) \<noteq> Some t" using not_idle [OF sched_wfD(2) [OF assms(1)]] True by (simp add: D(5))
      show "\<forall>d. rq_current (s_rq (dequeued s cpu t) d) = Some t \<longrightarrow> d = cpu" using W(1) c by (auto simp: D(4))
    qed (use D(3) assms(2) st c pr in \<open>auto simp: prio_ok_def\<close>)
    have "sched_wf (if outranks cpu pr s' then request_resched cpu s' else s')" using e(2) agree_wf [OF agree_others(5)] by simp
    then show ?thesis using True st D(1) e(1) by (simp add: sched_reprioritize_def pr_def [symmetric] cpu_def [symmetric] Let_def)
  qed
qed

lemma migrate_locked_wf:
  assumes "sched_wf s" and "t_queued (s_thread s t)" and "t_cpu (s_thread s t) = int from_cpu" and "rq_current (s_rq s from_cpu) \<noteq> Some t"
    and "\<not> has (t_flags (s_thread s t)) THREAD_FLAG_PREEMPTED"
  shows "\<exists>s'. migrate_locked t from_cpu to_cpu s = Some s' \<and> sched_wf s' \<and> t_cpu (s_thread s' t) = int to_cpu \<and> t_queued (s_thread s' t)
    \<and> (\<forall>u. u \<noteq> t \<longrightarrow> s_thread s' u = s_thread s u)"
proof -
  note q = sched_wfD(1) [OF assms(1)] and W = cpu_wfD [OF sched_wfD(2) [OF assms(1)]]
  have st: "t_state (s_thread s t) = THREAD_READY" "t < MAX_THREADS" using qwfD(2) [OF q, of t] assms(2) by (simp_all add: queued_ok_def)
  note D = dequeue_wf [OF assms(1-3)]
  let ?d = "dequeued s from_cpu t"
  let ?f = "\<lambda>th. th\<lparr>t_cpu := int to_cpu, t_vruntime := fair_rebase (t_vruntime th) (rq_fair_min (s_rq ?d from_cpu)) (rq_fair_min (s_rq ?d to_cpu))\<rparr>"
  have f: "rr_moved from_cpu to_cpu t (upd_thread t (\<lambda>th. th\<lparr>t_cpu := int to_cpu\<rparr>) ?d) = upd_thread t ?f ?d"
    by (simp add: rr_moved_def upd_thread_def)
  obtain s' where e: "rr_enqueue to_cpu t False (upd_thread t ?f ?d) = Some s'" "sched_wf s'" "\<forall>u. u \<noteq> t \<longrightarrow> s_thread s' u = s_thread ?d u"
    "t_queued (s_thread s' t)" "t_cpu (s_thread s' t) = int to_cpu"
  proof (rule enqueue_wf [OF D(2), of to_cpu ?f False])
    show "\<forall>d. rq_idle (s_rq ?d d) \<noteq> Some t" using not_idle [OF sched_wfD(2) [OF assms(1)]] assms(2) by (simp add: D(5))
    show "\<forall>d. rq_current (s_rq ?d d) = Some t \<longrightarrow> d = to_cpu" using W(1) assms(3,4) by (fastforce simp: D(4))
  qed (use D(3) st qwfD(3) [OF q, of t] in \<open>auto simp: prio_ok_def\<close>)
  let ?r = "if outranks to_cpu (t_priority (s_thread s' t)) s' then request_resched to_cpu s' else s'"
  have r: "sched_wf (?r\<lparr>s_migrations := k\<rparr>)" "s_thread (?r\<lparr>s_migrations := k\<rparr>) = s_thread s'" for k
    using e(2) agree_wf [OF agree_others(5)] agree_wf [OF agree_others(3)] by (simp_all add: request_resched_def)
  have "migrate_locked t from_cpu to_cpu s = Some (?r\<lparr>s_migrations := u64 (s_migrations ?r + 1)\<rparr>)"
    using assms(3-5) st(1) D(1) e(1) f by (simp add: migrate_locked_def Let_def)
  then show ?thesis using r e(3-5) D(3) by auto
qed

lemma pick_below_ok:
  assumes "qwf s" and "pick_below n cpu allowed s = Some t"
  shows "t_queued (s_thread s t) \<and> t_cpu (s_thread s t) = int cpu \<and> migratable s cpu allowed t"
  using assms(2)
proof (induction n)
  case (Suc p)
  show ?case
  proof (cases "find (migratable s cpu allowed) (rev (ready s cpu p))")
    case None
    then show ?thesis using Suc by (simp split: if_splits)
  next
    case (Some u)
    then obtain i where i: "i < length (rev (ready s cpu p))" "migratable s cpu allowed u" "u = rev (ready s cpu p) ! i"
      unfolding find_Some_iff by blast
    then have u: "migratable s cpu allowed u" "u \<in> set (ready s cpu p)" using nth_mem [OF i(1)] by simp_all
    show ?thesis
    proof (cases "bit (rq_bitmap (s_rq s cpu)) p")
      case True
      then have "t = u" using Suc.prems Some by simp
      then show ?thesis using u assms(1) by (simp add: qwf_mem on_level_def)
    next
      case False
      then show ?thesis using Suc by simp
    qed
  qed
qed simp

lemma migrate_wf:
  assumes "sched_wf s" and "0 \<le> t_cpu (s_thread s t)" and "\<forall>d. rq_idle (s_rq s d) \<noteq> Some t"
  shows "\<exists>s' r. sched_migrate t to_cpu s = Some (s', r) \<and> sched_wf s'"
proof -
  let ?th = "s_thread s t" and ?c = "nat (t_cpu (s_thread s t))"
  show ?thesis
  proof (cases "to_cpu < s_cpu_count s \<and> s_online s to_cpu \<and> ?c \<noteq> to_cpu \<and> t_state ?th = THREAD_READY \<and> rq_current (s_rq s ?c) \<noteq> Some t \<and>
      \<not> has (t_flags ?th) THREAD_FLAG_PREEMPTED \<and> has (t_affinity ?th) (CPUMASK_OF to_cpu)")
    case True
    then have "t_queued ?th" using sched_wfD(3) [OF assms(1), of t] assms(3) by (auto simp: thread_wf_def)
    then obtain s' where "migrate_locked t ?c to_cpu s = Some s'" "sched_wf s'"
      using migrate_locked_wf [OF assms(1), of t ?c to_cpu] True assms(2) by auto
    then show ?thesis using True assms(2) by (auto simp: sched_migrate_def Let_def)
  next
    case False
    then show ?thesis using assms(1,2) by (auto simp: sched_migrate_def Let_def not_less)
  qed
qed

lemma migrate_from_wf:
  assumes "sched_wf s"
  shows "\<exists>s' r m. sched_migrate_from from_cpu to_cpu gap s = Some (s', r, m) \<and> sched_wf s'"
proof (cases "rr_pick_migratable from_cpu (CPUMASK_OF to_cpu) s")
  case None
  then show ?thesis using assms by (auto simp: sched_migrate_from_def)
next
  case (Some t)
  note P = pick_below_ok [OF sched_wfD(1) [OF assms] Some [unfolded rr_pick_migratable_def]]
  obtain s' where "migrate_locked t from_cpu to_cpu s = Some s'" "sched_wf s'"
    using migrate_locked_wf [OF assms, of t from_cpu to_cpu] P by (auto simp: migratable_def)
  then show ?thesis using assms Some by (auto simp: sched_migrate_from_def)
qed

lemma balance_try_wf: "sched_wf s \<Longrightarrow> \<exists>s'. balance_try n self mine tried s = Some s' \<and> sched_wf s'"
proof (induction n arbitrary: mine tried s)
  case (Suc n)
  obtain b l where b: "busiest_of self mine tried s = (b, l)" by (cases "busiest_of self mine tried s")
  obtain s' r m where m: "sched_migrate_from b self 2 s = Some (s', r, m)" "sched_wf s'" using migrate_from_wf [OF Suc.prems] by blast
  show ?case using b m Suc.IH [OF m(2)] Suc.prems by (simp add: Let_def)
qed simp

lemma tick_wf:
  assumes "sched_wf s"
  shows "\<exists>s'. sched_tick cpu ticks s = Some s' \<and> sched_wf s'"
proof -
  let ?rq = "s_rq s cpu"
  define s1 where "s1 = (case rq_current ?rq of
       Some cur \<Rightarrow> if rq_idle ?rq \<noteq> Some cur then rr_tick cpu cur TICK_NS (rr_charge cpu cur (s_clock s) s)
         else if rq_bitmap ?rq \<noteq> 0 then set_resched cpu True s else s
     | None \<Rightarrow> if rq_idle ?rq = None \<and> rq_bitmap ?rq \<noteq> 0 then set_resched cpu True s else s)"
  have "agree s s1" using agree_trans [OF agree_charge agree_tick] by (simp add: s1_def split: option.splits)
  then have "sched_wf s1" using assms agree_wf by blast
  then show ?thesis using balance_try_wf [of s1]
    by (auto simp: sched_tick_def s1_def [symmetric] balance_tick_def Let_def)
qed

lemma enqueue_new_wf:
  assumes "sched_wf s" and "t_state (s_thread s t) = THREAD_BLOCKED" and "\<forall>d. rq_current (s_rq s d) \<noteq> Some t" and "t < MAX_THREADS"
  shows "\<exists>s'. sched_enqueue_new self t s = Some s' \<and> sched_wf s'"
proof -
  obtain s1 cpu where p: "pick_cpu self t s = (s1, cpu)" by (cases "pick_cpu self t s")
  then have a: "agree s s1" by (auto simp: pick_cpu_def Let_def)
  then have w: "sched_wf s1" using assms(1) agree_wf by blast
  note q = sched_wfD(1) [OF w]
  let ?f = "\<lambda>th. th\<lparr>t_cpu := int cpu, t_state := THREAD_READY, t_slice_left_ns := SCHED_SLICE_NS\<rparr>"
  have b: "t_state (s_thread s1 t) = THREAD_BLOCKED" using assms(2) agreeD [OF a] by simp
  obtain s' where e: "rr_enqueue cpu t False (upd_thread t ?f s1) = Some s'" "sched_wf s'"
  proof (rule enqueue_wf [OF wf_but_wf [OF w], of t cpu ?f False])
    show "\<forall>d. rq_idle (s_rq s1 d) \<noteq> Some t" using not_idle [OF sched_wfD(2) [OF w]] b by blast
    show "\<forall>d. rq_current (s_rq s1 d) = Some t \<longrightarrow> d = cpu" using assms(3) agreeD [OF a] by simp
  qed (use b blocked_free [OF q, of t] assms(4) qwfD(3) [OF q, of t] in \<open>auto simp: prio_ok_def\<close>)
  have f: "rr_slice_new t (upd_thread t (\<lambda>th. th\<lparr>t_cpu := int cpu, t_state := THREAD_READY\<rparr>) s1) = upd_thread t ?f s1"
    by (simp add: rr_slice_new_def upd_thread_def)
  have "sched_wf (if b then request_resched cpu s' else s')" for b using e(2) agree_wf [OF agree_others(5)] by simp
  then show ?thesis using p e(1) f by (simp add: sched_enqueue_new_def)
qed

end
