(* ===== verification/Sched_Run.thy ===== *)
theory Sched_Run
  imports Sched_Props
begin

text \<open>
  Runs of the scheduler: the operations as data, what a caller must respect, and the machine at boot. The
  properties of the scheduler are stated over them.
\<close>

section \<open>Operations\<close>

datatype op =
    Pass nat bool | Yield nat | Exit nat | Prepare_Block nat | Set_Running nat
  | Wake tid | Reprioritize tid int | Create tid int int "64 word" | Enqueue_New nat tid
  | Migrate tid nat | Migrate_From nat nat nat | Tick nat nat | Clock nat

text \<open>\<open>Create\<close> makes a thread with its priority, nice value and affinity; \<open>Clock\<close> is the passing of time.\<close>

definition create_thread :: "tid \<Rightarrow> int \<Rightarrow> int \<Rightarrow> 64 word \<Rightarrow> sched \<Rightarrow> sched" where
  "create_thread t prio nice affinity s =
     upd_thread t (\<lambda>th. (thread_alloc prio 0)\<lparr>t_nice := nice, t_affinity := affinity\<rparr>) s"

fun exec_op :: "op \<Rightarrow> sched \<Rightarrow> sched option" where
  "exec_op (Pass cpu preempt) s = schedule_pass cpu preempt s"
| "exec_op (Yield cpu) s = sched_yield cpu s"
| "exec_op (Exit cpu) s = thread_exit cpu s"
| "exec_op (Prepare_Block cpu) s = sched_prepare_block_current cpu s"
| "exec_op (Set_Running cpu) s = sched_set_running_current cpu s"
| "exec_op (Wake t) s = map_option fst (sched_wake t s)"
| "exec_op (Reprioritize t prio) s = sched_reprioritize t prio s"
| "exec_op (Create t prio nice affinity) s = Some (create_thread t prio nice affinity s)"
| "exec_op (Enqueue_New self t) s = sched_enqueue_new self t s"
| "exec_op (Migrate t cpu) s = map_option fst (sched_migrate t cpu s)"
| "exec_op (Migrate_From from_cpu to_cpu gap) s = map_option fst (sched_migrate_from from_cpu to_cpu gap s)"
| "exec_op (Tick cpu ticks) s = sched_tick cpu ticks s"
| "exec_op (Clock now) s = Some (s\<lparr>s_clock := now\<rparr>)"

definition unused :: "sched \<Rightarrow> tid \<Rightarrow> bool" where
  "unused s t \<longleftrightarrow> t_state (s_thread s t) = THREAD_BLOCKED \<and> t_cpu (s_thread s t) = - 1 \<and> t < MAX_THREADS"

text \<open>
  When a caller may use an operation: a CPU that runs a thread makes passes and is not preempted while the thread
  ends; the idle thread neither blocks nor ends; a thread is woken, or moved, once it has a CPU.
\<close>

fun legal :: "sched \<Rightarrow> op \<Rightarrow> bool" where
  "legal s (Pass cpu preempt) = (\<exists>t. rq_current (s_rq s cpu) = Some t \<and> (preempt \<longrightarrow> t_state (s_thread s t) \<noteq> THREAD_EXITED))"
| "legal s (Yield cpu) = (rq_current (s_rq s cpu) \<noteq> None)"
| "legal s (Exit cpu) = (\<exists>t. rq_current (s_rq s cpu) = Some t \<and> t_state (s_thread s t) = THREAD_RUNNING \<and> rq_idle (s_rq s cpu) \<noteq> Some t)"
| "legal s (Prepare_Block cpu) = (\<exists>t. rq_current (s_rq s cpu) = Some t \<and> rq_idle (s_rq s cpu) \<noteq> Some t)"
| "legal s (Set_Running cpu) = (rq_current (s_rq s cpu) \<noteq> None)"
| "legal s (Wake t) = (0 \<le> t_cpu (s_thread s t) \<and> t < MAX_THREADS)"
| "legal s (Reprioritize t prio) = (t < MAX_THREADS)"
| "legal s (Create t prio nice affinity) = unused s t"
| "legal s (Enqueue_New self t) = unused s t"
| "legal s (Migrate t cpu) = (0 \<le> t_cpu (s_thread s t) \<and> (\<forall>d. rq_idle (s_rq s d) \<noteq> Some t))"
| "legal s (Migrate_From from_cpu to_cpu gap) = True"
| "legal s (Tick cpu ticks) = True"
| "legal s (Clock now) = (now < W64)"

lemma unused_free: "sched_wf s \<Longrightarrow> unused s t \<Longrightarrow> rq_current (s_rq s d) \<noteq> Some t"
  using cpu_wfD(1) [OF sched_wfD(2) [of s d], of t] by (auto simp: unused_def)

lemma create_wf:
  assumes "sched_wf s" and "unused s t"
  shows "sched_wf (create_thread t prio nice affinity s)"
  unfolding create_thread_def
proof (rule wf_unqueued [OF wf_but_wf [OF assms(1)]])
  have b: "t_state (s_thread s t) = THREAD_BLOCKED" "t_cpu (s_thread s t) = - 1" using assms(2) by (simp_all add: unused_def)
  show "\<not> t_queued (s_thread s t)" using blocked_free [OF sched_wfD(1) [OF assms(1)]] b by simp
  show "\<forall>d. rq_idle (s_rq s d) = Some t \<longrightarrow> t_state ((thread_alloc prio 0)\<lparr>t_nice := nice, t_affinity := affinity\<rparr>) = t_state (s_thread s t)"
    using not_idle [OF sched_wfD(2) [OF assms(1)], of t] b by simp
  show "t_cpu ((thread_alloc prio 0)\<lparr>t_nice := nice, t_affinity := affinity\<rparr>) = t_cpu (s_thread s t)" using b by (simp add: thread_alloc_def)
qed (simp_all add: thread_alloc_def prio_ok_def SCHED_PRIO_COUNT_def SCHED_PRIO_LOWEST_def)

lemma exec_op_wf:
  assumes "sched_wf s" and "legal s op"
  shows "\<exists>s'. exec_op op s = Some s' \<and> sched_wf s'"
proof (cases op)
  case (Pass cpu preempt)
  then obtain t where t: "rq_current (s_rq s cpu) = Some t" "preempt \<longrightarrow> t_state (s_thread s t) \<noteq> THREAD_EXITED" using assms(2) by auto
  from schedule_pass_wf [OF assms(1) t] show ?thesis using Pass by (metis exec_op.simps(1))
next
  case (Yield cpu)
  then show ?thesis using assms yield_wf [OF assms(1)] by auto
next
  case (Exit cpu)
  then show ?thesis using assms exit_wf [OF assms(1)] by auto
next
  case (Prepare_Block cpu)
  then show ?thesis using assms block_wf [OF assms(1)] by auto
next
  case (Set_Running cpu)
  then show ?thesis using assms set_running_wf [OF assms(1)] by auto
next
  case (Wake t)
  then show ?thesis using assms wake_wf [OF assms(1), of t] by auto
next
  case (Reprioritize t prio)
  then show ?thesis using assms reprioritize_wf [OF assms(1)] by auto
next
  case (Create t prio nice affinity)
  then show ?thesis using assms create_wf [OF assms(1)] by auto
next
  case (Enqueue_New self t)
  then have "unused s t" using assms(2) by simp
  then show ?thesis using Enqueue_New enqueue_new_wf [OF assms(1), of t self] unused_free [OF assms(1)] by (simp add: unused_def)
next
  case (Migrate t cpu)
  then show ?thesis using assms migrate_wf [OF assms(1), of t cpu] by auto
next
  case (Migrate_From from_cpu to_cpu gap)
  then show ?thesis using migrate_from_wf [OF assms(1), of from_cpu to_cpu gap] by auto
next
  case (Tick cpu ticks)
  then show ?thesis using tick_wf [OF assms(1)] by auto
next
  case (Clock now)
  then show ?thesis using agree_wf [OF agree_others(2)] assms(1) by simp
qed

text \<open>A run: each operation legal in the state it starts from.\<close>

fun run :: "op list \<Rightarrow> sched \<Rightarrow> sched option" where
  "run [] s = Some s"
| "run (op # ops) s = do { s \<leftarrow> exec_op op s; run ops s }"

fun legal_run :: "sched \<Rightarrow> op list \<Rightarrow> bool" where
  "legal_run s [] = True"
| "legal_run s (op # ops) = (legal s op \<and> (case exec_op op s of None \<Rightarrow> True | Some s' \<Rightarrow> legal_run s' ops))"

lemma run_wf:
  assumes "sched_wf s" and "legal_run s ops"
  shows "\<exists>s'. run ops s = Some s' \<and> sched_wf s'"
  using assms
proof (induction ops arbitrary: s)
  case (Cons op ops)
  obtain s1 where s1: "exec_op op s = Some s1" "sched_wf s1" using exec_op_wf [OF Cons.prems(1)] Cons.prems(2) by auto
  then show ?case using Cons by simp
qed simp

section \<open>The machine at boot\<close>

text \<open>
  Before the scheduler starts no thread exists. The boot CPU runs thread 0 and each CPU \<open>c\<close> has thread
  \<open>c + 1\<close> as its idle thread; the CPUs after the first come up in turn.
\<close>

definition sched_blank :: "nat \<Rightarrow> sched" where
  "sched_blank n =
     \<lparr>s_thread = (\<lambda>t. thread_alloc SCHED_PRIO_DEFAULT 0), s_rq = (\<lambda>cpu. rq_init), s_need_resched = (\<lambda>cpu. False),
      s_pc_current = (\<lambda>cpu. None), s_clock = 0, s_cpu_count = n, s_online = (\<lambda>cpu. cpu = 0), s_migrations = 0, s_pick_rotor = 0\<rparr>"

definition start_cpus :: "nat list \<Rightarrow> sched \<Rightarrow> sched" where
  "start_cpus cs s = foldl (\<lambda>s cpu. sched_start_cpu cpu (Suc cpu) s) s cs"

definition sched_boot :: "nat \<Rightarrow> sched" where
  "sched_boot n = start_cpus [1..<n] (sched_init 0 1 (sched_blank n))"

lemma alloc_fields: "t_state (thread_alloc p f) = THREAD_BLOCKED" "t_cpu (thread_alloc p f) = - 1" "\<not> t_queued (thread_alloc p f)"
  "prio_ok (thread_alloc p f)"
  by (simp_all add: thread_alloc_def prio_ok_def SCHED_PRIO_COUNT_def SCHED_PRIO_LOWEST_def)

lemma idle_fields: "t_cpu (create_idle c) = int c" "\<not> t_queued (create_idle c)" "prio_ok (create_idle c)" "t_state (create_idle c) = THREAD_READY"
  using alloc_fields(4) by (simp_all add: create_idle_def alloc_fields(3) prio_ok_def)

text \<open>Each CPU below \<open>n\<close> is up and runs, and nothing is queued.\<close>

definition booted :: "nat \<Rightarrow> sched \<Rightarrow> bool" where
  "booted n s \<longleftrightarrow>
     (\<forall>t. \<not> t_queued (s_thread s t) \<and> prio_ok (s_thread s t)) \<and> (\<forall>c p. ready s c p = []) \<and>
     (\<forall>c. rq_bitmap (s_rq s c) = 0 \<and> rq_nr_running (s_rq s c) = 0) \<and>
     (\<forall>c. s_pc_current s c = rq_current (s_rq s c)) \<and>
     (\<forall>c. rq_idle (s_rq s c) = (if c < n then Some (Suc c) else None)) \<and>
     (\<forall>c. rq_current (s_rq s c) = (if c = 0 then Some 0 else if c < n then Some (Suc c) else None)) \<and>
     (\<forall>t. t_cpu (s_thread s t) = (if t = 0 then 0 else if t \<le> n then int (t - 1) else - 1)) \<and>
     (\<forall>t. t_state (s_thread s t) = (if t = 1 then THREAD_READY else if t \<le> n then THREAD_RUNNING else THREAD_BLOCKED))"

lemma booted_init: "booted 1 (sched_init 0 1 (sched_blank n))"
  using alloc_fields idle_fields
  by (auto simp: booted_def sched_init_def Let_def sched_blank_def rq_init_def rr_slice_new_def upd_thread_def upd_rq_def prio_ok_def)

lemma booted_start: "booted c s \<Longrightarrow> 0 < c \<Longrightarrow> booted (Suc c) (sched_start_cpu c (Suc c) s)"
  using idle_fields [of c]
  by (auto simp: booted_def sched_start_cpu_def Let_def rq_init_def upd_thread_def upd_rq_def prio_ok_def)

lemma booted_boot: "0 < n \<Longrightarrow> booted n (start_cpus [1..<n] (sched_init 0 1 (sched_blank m)))"
proof (induction n rule: nat_induct_non_zero)
  case 1
  then show ?case using booted_init by (simp add: start_cpus_def)
next
  case (Suc n)
  then show ?case using booted_start by (simp add: start_cpus_def)
qed

lemma booted_wf:
  assumes "booted n s" and "0 < n" and "n \<le> CONFIG_MAX_CPUS"
  shows "sched_wf s"
proof -
  have "qwf s" using assms(1) by (simp add: booted_def qwf_def rq_ok_def queued_ok_def on_level_def)
  moreover have "cpu_wf s c" for c
    using assms by (auto simp: booted_def cpu_wf_def MAX_THREADS_def CONFIG_MAX_CPUS_def split: if_splits)
  moreover have "thread_wf s t" for t
  proof -
    have "t_state (s_thread s t) = THREAD_RUNNING \<Longrightarrow> rq_current (s_rq s (t - 1)) = Some t" using assms(1,2) by (auto simp: booted_def split: if_splits)
    moreover have "t_state (s_thread s t) = THREAD_READY \<Longrightarrow> rq_idle (s_rq s 0) = Some t" using assms(1,2) by (auto simp: booted_def split: if_splits)
    ultimately show ?thesis by (auto simp: thread_wf_def)
  qed
  ultimately show ?thesis by (simp add: sched_wf_def)
qed

lemma boot_wf: "0 < n \<Longrightarrow> n \<le> CONFIG_MAX_CPUS \<Longrightarrow> sched_wf (sched_boot n)"
  unfolding sched_boot_def by (rule booted_wf [OF booted_boot])

section \<open>Properties\<close>


text \<open>A first thread for the witnesses: created by the boot thread of a machine with one CPU.\<close>

lemma demo_unused: "unused (sched_boot 1) 5"
  using booted_boot [of 1 1] by (simp add: booted_def unused_def sched_boot_def MAX_THREADS_def)


text \<open>
  C16. A pass runs the best thread. On a consistent scheduler a pass returns; the CPU then runs a thread whose priority is at
  least that of every thread waiting on that CPU, and it runs its idle thread only if no thread waits there.
\<close>

theorem pass_runs_best:
  assumes "sched_wf s" and "rq_current (s_rq s cpu) = Some prev" and "preempt \<longrightarrow> t_state (s_thread s prev) \<noteq> THREAD_EXITED"
  shows "\<exists>s'. schedule_pass cpu preempt s = Some s' \<and> runs_best s' cpu"
proof -
  obtain s' where "schedule_pass cpu preempt s = Some s'" "runs_best s' cpu" by (rule schedule_pass_wf [OF assms])
  then show ?thesis by blast
qed

theorem pass_runs_best_witness:
  "\<exists>s'. schedule_pass 0 True (sched_boot 4) = Some s' \<and> runs_best s' 0"
proof -
  have b: "booted 4 (sched_boot 4)" using booted_boot [of 4 4] by (simp add: sched_boot_def)
  from pass_runs_best [OF boot_wf [of 4], of 0 0 True] b show ?thesis by (simp add: booted_def CONFIG_MAX_CPUS_def)
qed

end
