(* ===== verification/Sched_Moves.thy ===== *)
theory Sched_Moves
  imports Sched_Run
begin

text \<open>
  What the scheduler may do to a thread's CPU: only a thread that waits in a queue, that was not preempted
  and whose affinity allows it moves from one CPU to another.
\<close>

definition movable :: "sched \<Rightarrow> tid \<Rightarrow> nat \<Rightarrow> bool" where
  "movable s t cpu \<longleftrightarrow>
     t_queued (s_thread s t) \<and> t_state (s_thread s t) = THREAD_READY \<and> (\<forall>d. rq_current (s_rq s d) \<noteq> Some t) \<and>
     \<not> has (t_flags (s_thread s t)) THREAD_FLAG_PREEMPTED \<and> has (t_affinity (s_thread s t)) (CPUMASK_OF cpu)"

definition moves_ok :: "sched \<Rightarrow> sched \<Rightarrow> bool" where
  "moves_ok s s' \<longleftrightarrow>
     (\<forall>t. 0 \<le> t_cpu (s_thread s t) \<longrightarrow> t_cpu (s_thread s' t) = t_cpu (s_thread s t) \<or>
        (\<exists>cpu. t_cpu (s_thread s' t) = int cpu \<and> movable s t cpu))"

definition same_cpus :: "sched \<Rightarrow> sched \<Rightarrow> bool" where
  "same_cpus s s' \<longleftrightarrow> (\<forall>t. t_cpu (s_thread s' t) = t_cpu (s_thread s t))"

lemma same_cpus_moves: "same_cpus s s' \<Longrightarrow> moves_ok s s'" by (simp add: same_cpus_def moves_ok_def)

lemma moves_refl [simp]: "moves_ok s s" by (simp add: moves_ok_def)

lemma same_cpus_trans: "same_cpus a b \<Longrightarrow> same_cpus b c \<Longrightarrow> same_cpus a c" by (simp add: same_cpus_def)

lemma enqueue_same: "rr_enqueue cpu t h s = Some s' \<Longrightarrow> same_cpus s s'"
  by (auto simp: rr_enqueue_def same_cpus_def fair_enqueue_def set_ready_def Let_def)

lemma dequeue_same: "rr_dequeue cpu t s = Some s' \<Longrightarrow> same_cpus s s'"
  by (auto simp: rr_dequeue_def same_cpus_def unlink_thread_def Let_def)

lemma upd_same: "t_cpu (f (s_thread s t)) = t_cpu (s_thread s t) \<Longrightarrow> same_cpus s (upd_thread t f s)"
  by (simp add: same_cpus_def)

lemma resched_same: "same_cpus s (if b then request_resched cpu s else s)"
  by (simp add: same_cpus_def request_resched_def)

lemma pass_same:
  assumes "sched_wf s" and "rq_current (s_rq s cpu) = Some prev" and "preempt \<longrightarrow> t_state (s_thread s prev) \<noteq> THREAD_EXITED"
    and "schedule_pass cpu preempt s = Some s'"
  shows "same_cpus s s'"
proof -
  define s1 where "s1 = pass_start cpu preempt prev s"
  have a: "agree s s1" unfolding s1_def by (rule agree_pass_start)
  obtain i s2 s3 nxt s'' where "schedule_pass cpu preempt s = Some s''" "staged s1 cpu prev i s2 s3 nxt s''"
    unfolding s1_def by (rule schedule_pass_wf [OF assms(1-3)])
  then have g: "staged s1 cpu prev i s2 s3 nxt s'" using assms(4) by simp
  note G = g [unfolded staged_def]
  have p: "t_cpu (s_thread s prev) = int cpu" by (rule cpu_wfD(1) [OF sched_wfD(2) [OF assms(1)] assms(2)])
  have "t_cpu (s_thread s2 u) = t_cpu (s_thread s u)" for u using G p agreeD(3) [OF a, of u] by (cases "u = prev") auto
  moreover have "t_cpu (s_thread s' u) = t_cpu (s_thread s2 u)" for u using G by (cases "u = nxt") auto
  ultimately show ?thesis by (simp add: same_cpus_def)
qed

lemma migrate_locked_moves:
  assumes "sched_wf s" and "migrate_locked t from_cpu to_cpu s = Some s'" and "t_queued (s_thread s t)" and "has (t_affinity (s_thread s t)) (CPUMASK_OF to_cpu)"
  shows "moves_ok s s'"
proof -
  have k: "t_state (s_thread s t) = THREAD_READY" "rq_current (s_rq s from_cpu) \<noteq> Some t" "t_cpu (s_thread s t) = int from_cpu"
    "\<not> has (t_flags (s_thread s t)) THREAD_FLAG_PREEMPTED"
    using assms(2) by (simp_all add: migrate_locked_def)
  have "rq_current (s_rq s d) \<noteq> Some t" for d using cpu_wfD(1) [OF sched_wfD(2) [OF assms(1)], of d t] k(2,3) by auto
  then have "movable s t to_cpu" using k assms(3,4) by (simp add: movable_def)
  then show ?thesis
    using migrate_locked_wf [OF assms(1,3) k(3,2,4), of to_cpu] assms(2) by (auto simp: moves_ok_def)
qed

lemma migrate_from_moves:
  assumes "sched_wf s" and "sched_migrate_from from_cpu to_cpu gap s = Some (s', r, m)"
  shows "moves_ok s s'" "r \<noteq> SCHED_MIGRATED \<Longrightarrow> s' = s"
proof -
  have "r = SCHED_MIGRATED \<longrightarrow> moves_ok s s'" "r \<noteq> SCHED_MIGRATED \<longrightarrow> s' = s"
    using assms pick_below_ok [OF sched_wfD(1) [OF assms(1)], of 64 from_cpu "CPUMASK_OF to_cpu"] migrate_locked_moves [OF assms(1)]
    by (auto simp: sched_migrate_from_def bind_eq_Some_conv migratable_def rr_pick_migratable_def split: if_splits option.splits)
  then show "moves_ok s s'" "r \<noteq> SCHED_MIGRATED \<Longrightarrow> s' = s" by (auto simp: moves_ok_def)
qed

lemma balance_try_moves: "sched_wf s \<Longrightarrow> balance_try n self mine tried s = Some s' \<Longrightarrow> moves_ok s s'"
proof (induction n arbitrary: mine tried)
  case 0
  then show ?case by simp
next
  case (Suc n)
  obtain b l where b: "busiest_of self mine tried s = (b, l)" by (cases "busiest_of self mine tried s")
  obtain s1 r m where m: "sched_migrate_from b self 2 s = Some (s1, r, m)" using migrate_from_wf [OF Suc.prems(1)] by blast
  note M = migrate_from_moves [OF Suc.prems(1) m]
  show ?case
  proof (cases "r = SCHED_MIGRATED")
    case True
    then show ?thesis using Suc.prems b m M(1) by (auto simp: Let_def split: if_splits)
  next
    case False
    then have "s1 = s" by (rule M(2))
    then show ?thesis using Suc.prems(2) b m False Suc.IH [OF Suc.prems(1)] by (auto simp: Let_def split: if_splits)
  qed
qed

text \<open>The tick charges and marks, which does not touch what a move depends on, and then balances.\<close>

lemma charge_tick_keeps:
  "t_flags (s_thread (rr_charge cpu t now s) u) = t_flags (s_thread s u)" "t_affinity (s_thread (rr_charge cpu t now s) u) = t_affinity (s_thread s u)"
  "t_flags (s_thread (rr_tick cpu t el s) u) = t_flags (s_thread s u)" "t_affinity (s_thread (rr_tick cpu t el s) u) = t_affinity (s_thread s u)"
  by (auto simp: rr_charge_def rr_tick_def rr_slice_new_def Let_def split: option.splits)

lemma moves_agree:
  assumes "agree s s1" and "\<And>u. t_flags (s_thread s1 u) = t_flags (s_thread s u)" "\<And>u. t_affinity (s_thread s1 u) = t_affinity (s_thread s u)"
    and "moves_ok s1 s'"
  shows "moves_ok s s'"
  using assms(4) agreeD [OF assms(1)] by (simp add: moves_ok_def movable_def assms(2,3))

lemma tick_moves:
  assumes "sched_wf s" and "sched_tick cpu ticks s = Some s'"
  shows "moves_ok s s'"
proof -
  let ?rq = "s_rq s cpu"
  define s1 where "s1 = (case rq_current ?rq of
       Some cur \<Rightarrow> if rq_idle ?rq \<noteq> Some cur then rr_tick cpu cur TICK_NS (rr_charge cpu cur (s_clock s) s)
         else if rq_bitmap ?rq \<noteq> 0 then set_resched cpu True s else s
     | None \<Rightarrow> if rq_idle ?rq = None \<and> rq_bitmap ?rq \<noteq> 0 then set_resched cpu True s else s)"
  have a: "agree s s1" using agree_trans [OF agree_charge agree_tick] by (simp add: s1_def split: option.splits)
  have k: "t_flags (s_thread s1 u) = t_flags (s_thread s u)" "t_affinity (s_thread s1 u) = t_affinity (s_thread s u)" for u
    by (simp_all add: s1_def charge_tick_keeps split: option.splits)
  have "sched_wf s1" using assms(1) agree_wf [OF a] by blast
  then have "moves_ok s1 s'"
    using assms(2) balance_try_moves by (auto simp: sched_tick_def s1_def [symmetric] balance_tick_def Let_def split: if_splits)
  then show ?thesis by (rule moves_agree [OF a k])
qed

lemma migrate_moves:
  assumes "sched_wf s" and "\<forall>d. rq_idle (s_rq s d) \<noteq> Some t" and "sched_migrate t cpu s = Some (s', r)"
  shows "moves_ok s s'"
proof (cases "s' = s")
  case False
  then obtain c where m: "migrate_locked t c cpu s = Some s'" "has (t_affinity (s_thread s t)) (CPUMASK_OF cpu)"
    using assms(3) by (auto simp: sched_migrate_def bind_eq_Some_conv Let_def split: if_splits)
  then have "t_queued (s_thread s t)" using sched_wfD(3) [OF assms(1), of t] assms(2) by (auto simp: migrate_locked_def thread_wf_def)
  then show ?thesis by (rule migrate_locked_moves [OF assms(1) m(1) _ m(2)])
qed simp

lemma yield_same:
  assumes "sched_wf s" and "rq_current (s_rq s cpu) = Some t" and "sched_yield cpu s = Some s'"
  shows "same_cpus s s'"
proof -
  let ?s = "upd_thread t (\<lambda>th. th\<lparr>t_slice_left_ns := 0, t_yield_pending := True\<rparr>) s"
  have a: "agree s ?s" by (rule agree_thread) simp_all
  have "schedule_pass cpu False ?s = Some s'"
    using assms(2,3) cpu_wfD(3) [OF sched_wfD(2) [OF assms(1), of cpu]] by (simp add: sched_yield_def)
  then have "same_cpus ?s s'" using assms(1,2) agree_wf [OF a] by (intro pass_same [of ?s cpu t False]) simp_all
  then show ?thesis by (simp add: same_cpus_def split: if_splits)
qed

lemma exit_same:
  assumes "sched_wf s" and "rq_current (s_rq s cpu) = Some t" and "t_state (s_thread s t) = THREAD_RUNNING" and "rq_idle (s_rq s cpu) \<noteq> Some t"
    and "thread_exit cpu s = Some s'"
  shows "same_cpus s s'"
proof -
  let ?s = "upd_thread t (\<lambda>th. th\<lparr>t_state := THREAD_EXITED\<rparr>) s"
  have "same_cpus ?s s'" using exited_wf [OF assms(1-4)] assms(2,5) by (intro pass_same [of ?s cpu t False]) simp_all
  then show ?thesis by (simp add: same_cpus_def split: if_splits)
qed

lemma wake_same: "sched_wake t s = Some (s', w) \<Longrightarrow> same_cpus s s'"
  by (auto simp: sched_wake_def Let_def bind_eq_Some_conv split: if_splits dest!: enqueue_same)
    (auto simp: same_cpus_def request_resched_def split: if_splits)

lemma reprioritize_same: "sched_reprioritize t prio s = Some s' \<Longrightarrow> same_cpus s s'"
  by (auto simp: sched_reprioritize_def Let_def bind_eq_Some_conv split: if_splits dest!: enqueue_same dequeue_same)
    (auto simp: same_cpus_def request_resched_def split: if_splits)

lemma block_same:
  "sched_prepare_block_current cpu s = Some s' \<Longrightarrow> same_cpus s s'"
  "sched_set_running_current cpu s = Some s' \<Longrightarrow> same_cpus s s'"
  by (auto simp: sched_prepare_block_current_def sched_set_running_current_def bind_eq_Some_conv split: if_splits dest!: dequeue_same)
    (auto simp: same_cpus_def)

lemma new_moves:
  assumes "unused s t" and "sched_enqueue_new self t s = Some s'"
  shows "moves_ok s s'"
proof -
  obtain s1 cpu where p: "pick_cpu self t s = (s1, cpu)" by (cases "pick_cpu self t s")
  then have "s_thread s1 = s_thread s" by (auto simp: pick_cpu_def Let_def split: if_splits)
  then have "t_cpu (s_thread s' u) = t_cpu (s_thread s u)" if "u \<noteq> t" for u
    using assms(2) p that
    by (auto simp: sched_enqueue_new_def Let_def bind_eq_Some_conv rr_slice_new_def dest!: enqueue_same) (auto simp: same_cpus_def request_resched_def)
  moreover have "u \<noteq> t" if "0 \<le> t_cpu (s_thread s u)" for u using that assms(1) by (auto simp: unused_def)
  ultimately show ?thesis by (simp add: moves_ok_def)
qed

text \<open>
  C12. Migration is safe. Whatever operation the scheduler makes, a thread that has a CPU is on another CPU
  afterwards only if it was waiting in a queue, was not what any CPU ran, had not been preempted, and its affinity allows the
  new CPU: a thread stopped in the middle of a per-CPU access resumes where it was.
\<close>

theorem moves_only_waiting:
  assumes "sched_wf s" and "legal s op" and "exec_op op s = Some s'"
  shows "moves_ok s s'"
proof (cases op)
  case (Pass cpu preempt)
  then obtain t where "rq_current (s_rq s cpu) = Some t" "preempt \<longrightarrow> t_state (s_thread s t) \<noteq> THREAD_EXITED" using assms(2) by auto
  from pass_same [OF assms(1) this] show ?thesis using Pass assms(3) by (intro same_cpus_moves) simp
next
  case (Yield cpu)
  then show ?thesis using assms yield_same [OF assms(1)] by (auto intro: same_cpus_moves)
next
  case (Exit cpu)
  then show ?thesis using assms exit_same [OF assms(1)] by (auto intro: same_cpus_moves)
next
  case (Create t prio nice affinity)
  then have u: "unused s t" "s' = create_thread t prio nice affinity s" using assms(2,3) by simp_all
  then have "t_cpu (s_thread s' x) = t_cpu (s_thread s x)" for x by (simp add: create_thread_def unused_def thread_alloc_def)
  then show ?thesis by (intro same_cpus_moves) (simp add: same_cpus_def)
next
  case (Enqueue_New self t)
  then show ?thesis using assms(2,3) new_moves [of s t self s'] by simp
next
  case (Migrate t cpu)
  then show ?thesis using assms migrate_moves [OF assms(1), of t cpu] by auto
next
  case (Migrate_From from_cpu to_cpu gap)
  then show ?thesis using assms(3) migrate_from_moves(1) [OF assms(1)] by auto
next
  case (Tick cpu ticks)
  then show ?thesis using assms(3) tick_moves [OF assms(1)] by simp
next
  case (Clock now)
  then show ?thesis using assms(3) by (auto simp: moves_ok_def)
qed (use assms(3) block_same wake_same reprioritize_same in \<open>auto intro!: same_cpus_moves\<close>)

theorem moves_only_waiting_witness:
  "\<exists>s'. exec_op (Migrate_From 0 1 0) (sched_boot 2) = Some s' \<and> moves_ok (sched_boot 2) s'"
proof -
  have w: "sched_wf (sched_boot 2)" by (rule boot_wf) (simp_all add: CONFIG_MAX_CPUS_def)
  obtain s' where e: "exec_op (Migrate_From 0 1 0) (sched_boot 2) = Some s'" using exec_op_wf [OF w, of "Migrate_From 0 1 0"] by auto
  have "moves_ok (sched_boot 2) s'" by (rule moves_only_waiting [OF w _ e]) simp
  then show ?thesis using e by blast
qed

end
