(* ===== verification/Sched_Types.thy ===== *)
theory Sched_Types
  imports Sched_Run
begin

text \<open>
  Every counter and time of the scheduler stays within the width the code gives it, whatever its callers
  do. Where the code's own arithmetic could leave its width, the model writes out the wrap or the saturation; the property says that
  all the values the model computes without one stay in range too.
\<close>

definition thread_typed :: "thread \<Rightarrow> bool" where
  "thread_typed th \<longleftrightarrow>
     t_slice_left_ns th < W64 \<and> t_run_time_ns th < W64 \<and> t_vruntime th < W64 \<and> t_vruntime_stamp_ns th < W64 \<and>
     t_last_start_ns th < W64 \<and> t_ready_since_ns th < W64 \<and> t_switches th < W64"

definition rq_typed :: "runqueue \<Rightarrow> bool" where
  "rq_typed rq \<longleftrightarrow> rq_nr_running rq < W32 \<and> rq_switches rq < W64 \<and> rq_fair_min rq < W64 \<and> rq_picks rq < W64"

definition sched_typed :: "sched \<Rightarrow> bool" where
  "sched_typed s \<longleftrightarrow>
     (\<forall>t. thread_typed (s_thread s t)) \<and> (\<forall>c. rq_typed (s_rq s c)) \<and> s_clock s < W64 \<and> s_migrations s < W64 \<and> s_pick_rotor s < W32"

lemma typedD: "sched_typed s \<Longrightarrow> thread_typed (s_thread s t)" "sched_typed s \<Longrightarrow> rq_typed (s_rq s c)" "sched_typed s \<Longrightarrow> s_clock s < W64"
  by (simp_all add: sched_typed_def)

lemma typed_thread: "sched_typed s \<Longrightarrow> thread_typed (f (s_thread s t)) \<Longrightarrow> sched_typed (upd_thread t f s)"
  by (simp add: sched_typed_def upd_thread_def)

lemma typed_rq: "sched_typed s \<Longrightarrow> rq_typed (g (s_rq s c)) \<Longrightarrow> sched_typed (upd_rq c g s)"
  by (simp add: sched_typed_def upd_rq_def)

lemma typed_plain [simp]:
  "sched_typed (set_resched c b s) = sched_typed s" "sched_typed (request_resched c s) = sched_typed s"
  "sched_typed (s\<lparr>s_pc_current := pc\<rparr>) = sched_typed s"
  by (simp_all add: sched_typed_def set_resched_def request_resched_def)

lemma typed_slice: "sched_typed s \<Longrightarrow> sched_typed (rr_slice_new t s)"
  unfolding rr_slice_new_def by (rule typed_thread) (use typedD(1) in \<open>auto simp: thread_typed_def SCHED_SLICE_NS_def\<close>)

lemma typed_ready: "sched_typed s \<Longrightarrow> sched_typed (set_ready c p ts s)"
  unfolding set_ready_def by (rule typed_rq) (use typedD(2) in \<open>auto simp: rq_typed_def\<close>)

lemma typed_vruntime: "sched_typed s \<Longrightarrow> v < W64 \<Longrightarrow> sched_typed (upd_thread t (\<lambda>th. th\<lparr>t_vruntime := v\<rparr>) s)"
  by (rule typed_thread) (use typedD(1) in \<open>auto simp: thread_typed_def\<close>)

lemma typed_fair_enqueue:
  assumes "sched_typed s"
  shows "sched_typed (fair_enqueue c t s)"
proof -
  have v: "t_vruntime (s_thread s u) < W64" for u using typedD(1) [OF assms] by (simp add: thread_typed_def)
  have "fair_place (t_vruntime (s_thread s t)) (rq_fair_min (s_rq s c)) b < W64" for b
    using typedD(2) [OF assms, of c] v by (intro fair_place_bound) (simp_all add: rq_typed_def)
  then show ?thesis unfolding fair_enqueue_def Let_def
    using v by (auto intro!: typed_ready typed_vruntime assms simp: fair_vruntime_def)
qed

lemma typed_enqueue:
  assumes "sched_typed s" and "rr_enqueue c t h s = Some s'"
  shows "sched_typed s'"
proof -
  define s1 where "s1 = (if t_priority (s_thread s t) = FAIR_LEVEL then fair_enqueue c t s
      else if h then set_ready c (level (s_thread s t)) (t # ready s c (level (s_thread s t))) s
      else set_ready c (level (s_thread s t)) (ready s c (level (s_thread s t)) @ [t]) s)"
  have 1: "sched_typed s1" unfolding s1_def using typed_fair_enqueue typed_ready assms(1) by auto
  have 2: "sched_typed (upd_thread t (\<lambda>th. th\<lparr>t_yield_pending := False, t_queued := True, t_ready_since_ns := s_clock s1\<rparr>) s1)"
    by (rule typed_thread [OF 1]) (use typedD(1,3) [OF 1] in \<open>auto simp: thread_typed_def\<close>)
  have "sched_typed (upd_rq c (\<lambda>rq. rq\<lparr>rq_bitmap := rq_bitmap rq OR flag (level (s_thread s t)), rq_nr_running := u32 (rq_nr_running rq + 1)\<rparr>)
      (upd_thread t (\<lambda>th. th\<lparr>t_yield_pending := False, t_queued := True, t_ready_since_ns := s_clock s1\<rparr>) s1))"
    by (rule typed_rq [OF 2]) (use typedD(2) [OF 2] in \<open>auto simp: rq_typed_def\<close>)
  then show ?thesis using assms(2) by (simp add: rr_enqueue_def s1_def Let_def)
qed

lemma typed_dequeue:
  assumes "sched_typed s" and "rr_dequeue c t s = Some s'"
  shows "sched_typed s'"
proof -
  have 1: "sched_typed (unlink_thread t s)" using assms(1) unfolding unlink_thread_def sched_typed_def upd_thread_def by (auto simp: thread_typed_def rq_typed_def)
  define s1 where "s1 = (if ready (unlink_thread t s) c (level (s_thread s t)) = []
      then upd_rq c (\<lambda>rq. rq\<lparr>rq_bitmap := rq_bitmap rq AND NOT (flag (level (s_thread s t)))\<rparr>) (unlink_thread t s) else unlink_thread t s)"
  have 2: "sched_typed s1" unfolding s1_def using 1 typedD(2) [OF 1, of c] by (auto intro!: typed_rq simp: rq_typed_def)
  have "sched_typed (upd_rq c (\<lambda>rq. rq\<lparr>rq_nr_running := rq_nr_running rq - 1\<rparr>) s1)"
    by (rule typed_rq [OF 2]) (use typedD(2) [OF 2, of c] in \<open>auto simp: rq_typed_def\<close>)
  then show ?thesis using assms(2) by (simp add: rr_dequeue_def s1_def Let_def)
qed

lemma typed_charge:
  assumes "sched_typed s" and "now < W64"
  shows "sched_typed (rr_charge c t now s)"
proof -
  define th where "th = s_thread s t"
  define v where "v = (if t_priority th = FAIR_LEVEL then fair_charge (t_vruntime th)
      (clock_delta_ns now (if t_last_start_ns th > t_vruntime_stamp_ns th then t_last_start_ns th else t_vruntime_stamp_ns th))
      (fair_weight (t_nice th)) else t_vruntime th)"
  have v: "v < W64" using typedD(1) [OF assms(1), of t] by (simp add: v_def th_def thread_typed_def)
  define s1 where "s1 = upd_thread t (\<lambda>th. th\<lparr>t_vruntime := v, t_vruntime_stamp_ns := now\<rparr>) s"
  have 1: "sched_typed s1" unfolding s1_def by (rule typed_thread [OF assms(1)]) (use typedD(1) [OF assms(1)] v assms(2) in \<open>auto simp: thread_typed_def\<close>)
  have w: "fair_vruntime s1 u < W64" for u using typedD(1) [OF 1, of u] by (simp add: fair_vruntime_def thread_typed_def)
  have "sched_typed (upd_rq c (\<lambda>rq. rq\<lparr>rq_fair_min := fair_min (rq_fair_min rq) x (map_option (fair_vruntime s1) (fair_leftmost c s1))\<rparr>) s1)"
    if "x = Some v \<or> x = None" for x
    by (rule typed_rq [OF 1]) (use typedD(2) [OF 1, of c] v w that in \<open>auto simp: rq_typed_def intro!: fair_min_bound\<close>)
  then show ?thesis unfolding rr_charge_def Let_def th_def [symmetric] v_def [symmetric] s1_def [symmetric] by presburger
qed

lemma typed_tick: "sched_typed s \<Longrightarrow> sched_typed (rr_tick c t el s)"
proof -
  assume s: "sched_typed s"
  have a: "sched_typed (upd_thread t (\<lambda>th. th\<lparr>t_slice_left_ns := t_slice_left_ns th - el\<rparr>) s)"
    by (rule typed_thread [OF s]) (use typedD(1) [OF s, of t] in \<open>auto simp: thread_typed_def\<close>)
  have b: "sched_typed (upd_thread t (\<lambda>th. th\<lparr>t_slice_left_ns := 0\<rparr>) s)"
    by (rule typed_thread [OF s]) (use typedD(1) [OF s, of t] in \<open>auto simp: thread_typed_def\<close>)
  show ?thesis unfolding rr_tick_def Let_def using s a b typed_slice [OF b] by (simp split: option.split)
qed

lemma typed_state: "sched_typed s \<Longrightarrow> sched_typed (upd_thread t (\<lambda>th. th\<lparr>t_state := st\<rparr>) s)"
  "sched_typed s \<Longrightarrow> sched_typed (upd_thread t (\<lambda>th. th\<lparr>t_priority := p\<rparr>) s)"
  "sched_typed s \<Longrightarrow> sched_typed (upd_thread t (\<lambda>th. th\<lparr>t_cpu := k\<rparr>) s)"
  "sched_typed s \<Longrightarrow> sched_typed (upd_thread t (\<lambda>th. th\<lparr>t_cpu := k, t_state := st\<rparr>) s)"
  "sched_typed s \<Longrightarrow> sched_typed (upd_thread t (\<lambda>th. th\<lparr>t_slice_left_ns := 0, t_yield_pending := b\<rparr>) s)"
  by (rule typed_thread, assumption, use typedD(1) in \<open>fastforce simp: thread_typed_def\<close>)+

lemma typed_switch:
  assumes s: "sched_typed s" and "now < W64"
  shows "sched_typed (switch_to c now prev nxt s)"
proof -
  let ?a = "upd_thread nxt (\<lambda>th. th\<lparr>t_state := THREAD_RUNNING, t_flags := t_flags th AND NOT THREAD_FLAG_PREEMPTED,
      t_yield_pending := False, t_last_start_ns := now\<rparr>) s"
  have a: "sched_typed ?a" by (rule typed_thread [OF s]) (use typedD(1) [OF s, of nxt] assms(2) in \<open>auto simp: thread_typed_def\<close>)
  let ?b = "upd_thread nxt (\<lambda>th. th\<lparr>t_cpu := int c, t_switches := u64 (t_switches th + 1)\<rparr>) ?a"
  have b: "sched_typed ?b" by (rule typed_thread [OF a]) (use typedD(1) [OF a, of nxt] in \<open>auto simp: thread_typed_def\<close>)
  define d where "d = (if t_slice_left_ns (s_thread ?b nxt) = 0 then rr_slice_new nxt ?b else ?b)"
  have d: "sched_typed d" using b typed_slice [OF b] by (simp add: d_def)
  have e: "sched_typed (upd_rq c (\<lambda>rq. rq\<lparr>rq_current := Some nxt, rq_switches := u64 (rq_switches rq + 1)\<rparr>) d)"
    by (rule typed_rq [OF d]) (use typedD(2) [OF d, of c] in \<open>auto simp: rq_typed_def\<close>)
  have "sched_typed (sched_finish_switch c x)" if "sched_typed x" for x
    unfolding sched_finish_switch_def by (rule typed_rq [OF that]) (use typedD(2) [OF that, of c] in \<open>auto simp: rq_typed_def\<close>)
  then show ?thesis unfolding switch_to_def Let_def d_def [symmetric] using a e by auto
qed

lemma typed_put_prev: "sched_typed s \<Longrightarrow> put_prev c preempt prev s = Some s' \<Longrightarrow> sched_typed s'"
proof -
  assume s: "sched_typed s" and p: "put_prev c preempt prev s = Some s'"
  have "sched_typed (upd_rq c (\<lambda>rq. rq\<lparr>rq_prev_exited := x\<rparr>) s)" for x
    by (rule typed_rq [OF s]) (use typedD(2) [OF s, of c] in \<open>auto simp: rq_typed_def\<close>)
  then show ?thesis using p s typed_state(1) [OF s] typed_enqueue [OF typed_state(1) [OF s]]
    by (auto simp: put_prev_def Let_def split: if_splits)
qed

lemma typed_take_next: "sched_typed s \<Longrightarrow> take_next c s = Some (s', t) \<Longrightarrow> sched_typed s'"
  by (auto simp: take_next_def bind_eq_Some_conv split: option.splits dest: typed_dequeue)

lemma typed_pass:
  assumes s: "sched_typed s" and "schedule_pass c preempt s = Some s'"
  shows "sched_typed s'"
proof -
  obtain prev where prev: "rq_current (s_rq s c) = Some prev" using assms(2) by (auto simp: schedule_pass_def bind_eq_Some_conv)
  have k: "s_clock s < W64" by (rule typedD(3) [OF s])
  let ?a = "upd_thread prev (\<lambda>th. th\<lparr>t_run_time_ns := u64 (t_run_time_ns th + clock_delta_ns (s_clock s) (t_last_start_ns th))\<rparr>) s"
  have a: "sched_typed ?a" by (rule typed_thread [OF s]) (use typedD(1) [OF s, of prev] in \<open>auto simp: thread_typed_def\<close>)
  have f: "sched_typed (upd_thread prev (\<lambda>th. th\<lparr>t_flags := t_flags th OR THREAD_FLAG_PREEMPTED\<rparr>) x)" if "sched_typed x" for x
    by (rule typed_thread [OF that]) (use typedD(1) [OF that, of prev] in \<open>auto simp: thread_typed_def\<close>)
  have 1: "sched_typed (pass_start c preempt prev s)"
    unfolding pass_start_def Let_def using a typed_charge [OF a k] f [OF a] f [OF typed_charge [OF a k]] by simp
  obtain s2 s3 nxt where p: "put_prev c preempt prev (pass_start c preempt prev s) = Some s2" "take_next c s2 = Some (s3, nxt)"
    "s' = switch_to c (s_clock s) prev nxt (upd_rq c (\<lambda>rq. rq\<lparr>rq_picks := u64 (rq_picks rq + 1)\<rparr>) (set_resched c False s3))"
    using assms(2) schedule_pass_alt [OF prev] by (auto simp: bind_eq_Some_conv)
  have 3: "sched_typed s3" by (rule typed_take_next [OF typed_put_prev [OF 1 p(1)] p(2)])
  have "sched_typed (upd_rq c (\<lambda>rq. rq\<lparr>rq_picks := u64 (rq_picks rq + 1)\<rparr>) (set_resched c False s3))"
    by (rule typed_rq) (use 3 typedD(2) [OF 3, of c] in \<open>auto simp: rq_typed_def\<close>)
  then show ?thesis unfolding p(3) by (rule typed_switch [OF _ k])
qed

lemma typed_migrate_locked:
  assumes s: "sched_typed s" and m: "migrate_locked t from_cpu to_cpu s = Some s'"
  shows "sched_typed s'"
proof -
  obtain s1 s2 where p: "rr_dequeue from_cpu t s = Some s1"
      "rr_enqueue to_cpu t False (rr_moved from_cpu to_cpu t (upd_thread t (\<lambda>th. th\<lparr>t_cpu := int to_cpu\<rparr>) s1)) = Some s2"
      "\<exists>b. s' = (if b then request_resched to_cpu s2 else s2)\<lparr>s_migrations := u64 (s_migrations (if b then request_resched to_cpu s2 else s2) + 1)\<rparr>"
    using m by (auto simp: migrate_locked_def bind_eq_Some_conv Let_def)
  let ?a = "upd_thread t (\<lambda>th. th\<lparr>t_cpu := int to_cpu\<rparr>) s1"
  have a: "sched_typed ?a" by (rule typed_state(3) [OF typed_dequeue [OF s p(1)]])
  have "sched_typed (rr_moved from_cpu to_cpu t ?a)"
    unfolding rr_moved_def by (rule typed_thread [OF a])
      (use typedD(1) [OF a, of t] typedD(2) [OF a, of to_cpu] in \<open>auto simp: thread_typed_def rq_typed_def intro!: fair_rebase_bound\<close>)
  then have "sched_typed s2" using p(2) by (rule typed_enqueue)
  then have "sched_typed (if b then request_resched to_cpu s2 else s2)" for b by simp
  then show ?thesis using p(3) unfolding sched_typed_def by auto
qed

lemma typed_migrate_from: "sched_typed s \<Longrightarrow> sched_migrate_from from_cpu to_cpu gap s = Some (s', r, m) \<Longrightarrow> sched_typed s'"
  by (auto simp: sched_migrate_from_def bind_eq_Some_conv split: if_splits option.splits dest: typed_migrate_locked)

lemma typed_balance: "sched_typed s \<Longrightarrow> balance_try n self mine tried s = Some s' \<Longrightarrow> sched_typed s'"
proof (induction n arbitrary: mine tried s)
  case (Suc n)
  obtain b l where b: "busiest_of self mine tried s = (b, l)" by (cases "busiest_of self mine tried s")
  show ?case
  proof (cases "b = self \<or> l < u32 (mine + 2)")
    case True
    then show ?thesis using Suc.prems b by auto
  next
    case False
    then obtain s1 r m where m: "sched_migrate_from b self 2 s = Some (s1, r, m)" using Suc.prems(2) b by (auto simp: bind_eq_Some_conv)
    then show ?thesis using Suc.prems(2) b False typed_migrate_from [OF Suc.prems(1) m] Suc.IH [OF typed_migrate_from [OF Suc.prems(1) m]]
      by (auto simp: Let_def split: if_splits)
  qed
qed simp

lemma typed_sched_tick:
  assumes s: "sched_typed s" and "sched_tick c ticks s = Some s'"
  shows "sched_typed s'"
proof -
  let ?rq = "s_rq s c"
  define s1 where "s1 = (case rq_current ?rq of
       Some cur \<Rightarrow> if rq_idle ?rq \<noteq> Some cur then rr_tick c cur TICK_NS (rr_charge c cur (s_clock s) s)
         else if rq_bitmap ?rq \<noteq> 0 then set_resched c True s else s
     | None \<Rightarrow> if rq_idle ?rq = None \<and> rq_bitmap ?rq \<noteq> 0 then set_resched c True s else s)"
  have "sched_typed s1" using s typed_tick [OF typed_charge [OF s typedD(3) [OF s]]] by (simp add: s1_def split: option.splits)
  then show ?thesis using assms(2) typed_balance by (auto simp: sched_tick_def s1_def [symmetric] balance_tick_def Let_def split: if_splits)
qed

lemma typed_wake: "sched_typed s \<Longrightarrow> sched_wake t s = Some (s', w) \<Longrightarrow> sched_typed s'"
  by (auto simp: sched_wake_def bind_eq_Some_conv Let_def split: if_splits dest: typed_enqueue [OF typed_state(1)])

lemma typed_reprioritize: "sched_typed s \<Longrightarrow> sched_reprioritize t prio s = Some s' \<Longrightarrow> sched_typed s'"
  by (auto simp: sched_reprioritize_def bind_eq_Some_conv Let_def split: if_splits intro: typed_state(2)
      dest: typed_enqueue [OF typed_state(2) [OF typed_dequeue]])

lemma typed_new:
  assumes "sched_typed s" and "sched_enqueue_new self t s = Some s'"
  shows "sched_typed s'"
proof -
  obtain s1 c where p: "pick_cpu self t s = (s1, c)" by (cases "pick_cpu self t s")
  then have 1: "sched_typed s1" using assms(1) by (auto simp: pick_cpu_def Let_def sched_typed_def)
  show ?thesis using assms(2) p typed_enqueue [OF typed_slice [OF typed_state(4) [OF 1]]]
    by (auto simp: sched_enqueue_new_def bind_eq_Some_conv Let_def)
qed

lemma typed_exec:
  assumes "sched_typed s" and "legal s op" and "exec_op op s = Some s'"
  shows "sched_typed s'"
proof (cases op)
  case (Pass cpu preempt)
  then show ?thesis using assms typed_pass by simp
next
  case (Yield cpu)
  then show ?thesis using assms(3) typed_pass [OF typed_state(5) [OF assms(1)]] by (auto simp: sched_yield_def bind_eq_Some_conv)
next
  case (Exit cpu)
  then show ?thesis using assms(3) typed_pass [OF typed_state(1) [OF assms(1)]] by (auto simp: thread_exit_def bind_eq_Some_conv)
next
  case (Prepare_Block cpu)
  then show ?thesis using assms(1,3) typed_state(1) [OF assms(1)] by (auto simp: sched_prepare_block_current_def bind_eq_Some_conv)
next
  case (Set_Running cpu)
  then show ?thesis using assms(1,3) typed_state(1) [OF assms(1)] typed_state(1) [OF typed_dequeue [OF assms(1)]]
    by (auto simp: sched_set_running_current_def bind_eq_Some_conv split: if_splits)
next
  case (Create t prio nice affinity)
  have "sched_typed (create_thread t prio nice affinity s)"
    unfolding create_thread_def by (rule typed_thread [OF assms(1)]) (simp add: thread_typed_def thread_alloc_def)
  then show ?thesis using Create assms(3) by simp
next
  case (Migrate t cpu)
  then show ?thesis using assms(1,3) typed_migrate_locked [OF assms(1)]
    by (auto simp: sched_migrate_def bind_eq_Some_conv Let_def split: if_splits)
next
  case (Clock now)
  then show ?thesis using assms by (auto simp: sched_typed_def)
next
  case (Wake t)
  then show ?thesis using assms(3) typed_wake [OF assms(1)] by auto
next
  case (Reprioritize t prio)
  then show ?thesis using assms(3) typed_reprioritize [OF assms(1)] by simp
next
  case (Enqueue_New self t)
  then show ?thesis using assms(3) typed_new [OF assms(1)] by simp
next
  case (Migrate_From from_cpu to_cpu gap)
  then show ?thesis using assms(3) typed_migrate_from [OF assms(1)] by auto
next
  case (Tick cpu ticks)
  then show ?thesis using assms(3) typed_sched_tick [OF assms(1)] by simp
qed

lemma typed_run:
  assumes "sched_wf s" and "sched_typed s" and "legal_run s ops"
  shows "\<exists>s'. run ops s = Some s' \<and> sched_typed s'"
  using assms
proof (induction ops arbitrary: s)
  case (Cons op ops)
  obtain s1 where s1: "exec_op op s = Some s1" "sched_wf s1" using exec_op_wf [OF Cons.prems(1)] Cons.prems(3) by auto
  moreover have "legal s op" using Cons.prems(3) by simp
  ultimately show ?case using Cons typed_exec [OF Cons.prems(2)] by auto
qed simp

lemma typed_start: "sched_typed s \<Longrightarrow> sched_typed (sched_start_cpu c i s)"
  by (simp add: sched_start_cpu_def Let_def upd_thread_def upd_rq_def sched_typed_def thread_typed_def rq_typed_def rq_init_def
      thread_alloc_def create_idle_def)

lemma typed_boot: "sched_typed (start_cpus cs (sched_init 0 1 (sched_blank n)))"
proof (induction cs rule: rev_induct)
  case Nil
  show ?case by (simp add: start_cpus_def sched_init_def sched_blank_def Let_def upd_thread_def upd_rq_def rr_slice_new_def sched_typed_def
        thread_typed_def rq_typed_def rq_init_def thread_alloc_def create_idle_def SCHED_SLICE_NS_def)
next
  case (snoc c cs)
  then show ?case using typed_start by (simp add: start_cpus_def)
qed



end
