(* ===== verification/Sched_Live.thy ===== *)
theory Sched_Live
  imports Sched_Run
begin

text \<open>
  A thread that waits at the best level of its CPU comes to run. The measure is the number of
  threads before it in the list of its level: a thread that gives way goes behind it, and so does one that wakes.
\<close>

section \<open>Priorities stay\<close>

definition same_prios :: "sched \<Rightarrow> sched \<Rightarrow> bool" where
  "same_prios s s' \<longleftrightarrow> (\<forall>t. t_priority (s_thread s' t) = t_priority (s_thread s t))"

lemma same_prios_trans: "same_prios a b \<Longrightarrow> same_prios b c \<Longrightarrow> same_prios a c" by (simp add: same_prios_def)

lemma enqueue_prios: "rr_enqueue cpu t h s = Some s' \<Longrightarrow> same_prios s s'"
  by (auto simp: rr_enqueue_def same_prios_def fair_enqueue_def set_ready_def Let_def)

lemma dequeue_prios: "rr_dequeue cpu t s = Some s' \<Longrightarrow> same_prios s s'"
  by (auto simp: rr_dequeue_def same_prios_def unlink_thread_def Let_def)

lemma put_prev_prios: "put_prev cpu preempt prev s = Some s' \<Longrightarrow> same_prios s s'"
  by (auto simp: put_prev_def Let_def split: if_splits dest!: enqueue_prios) (auto simp: same_prios_def split: if_splits)

lemma take_next_prios: "take_next cpu s = Some (s', t) \<Longrightarrow> same_prios s s'"
  by (auto simp: take_next_def bind_eq_Some_conv split: option.splits dest: dequeue_prios) (simp_all add: same_prios_def)

lemma pass_prios: "schedule_pass cpu preempt s = Some s' \<Longrightarrow> same_prios s s'"
proof -
  assume p: "schedule_pass cpu preempt s = Some s'"
  then obtain prev where prev: "rq_current (s_rq s cpu) = Some prev" by (auto simp: schedule_pass_def bind_eq_Some_conv)
  obtain s2 s3 nxt where g: "put_prev cpu preempt prev (pass_start cpu preempt prev s) = Some s2" "take_next cpu s2 = Some (s3, nxt)"
    "s' = switch_to cpu (s_clock s) prev nxt (upd_rq cpu (\<lambda>rq. rq\<lparr>rq_picks := u64 (rq_picks rq + 1)\<rparr>) (set_resched cpu False s3))"
    using p schedule_pass_alt [OF prev] by (auto simp: bind_eq_Some_conv)
  have "same_prios s (pass_start cpu preempt prev s)" using agreeD(4) [OF agree_pass_start] by (simp add: same_prios_def)
  moreover have "same_prios s3 s'" unfolding g(3) same_prios_def by (simp add: switch_to_def Let_def sched_finish_switch_def rr_slice_new_def)
  ultimately show ?thesis using put_prev_prios [OF g(1)] take_next_prios [OF g(2)] by (meson same_prios_trans)
qed

section \<open>A pass by a thread that gives way\<close>

lemma pass_start_yield: "t_yield_pending (s_thread (pass_start cpu False prev s) u) = t_yield_pending (s_thread s u)"
  "t_slice_left_ns (s_thread (pass_start cpu False prev s) u) = t_slice_left_ns (s_thread s u)"
  by (simp_all add: pass_start_def rr_charge_def Let_def)

lemma enqueue_tail:
  assumes "\<not> t_queued (s_thread s t)" and "prio_ok (s_thread s t)" and "t_yield_pending (s_thread s t) \<or> t_priority (s_thread s t) \<noteq> FAIR_LEVEL"
  obtains v where "rr_enqueue cpu t False s = Some (enqueued s cpu t (ready s cpu (level (s_thread s t))) [] v)"
proof -
  obtain xs ys v where e: "rr_enqueue cpu t False s = Some (enqueued s cpu t xs ys v)" "ready s cpu (level (s_thread s t)) = xs @ ys" "ys = []"
    by (rule rr_enqueue_eq [OF assms(1,2), of cpu False]) (use assms(3) in \<open>cases "t_priority (s_thread s t) = FAIR_LEVEL"; simp\<close>)
  then show ?thesis using that by simp
qed

lemma put_prev_tail:
  assumes "sched_wf s" and "rq_current (s_rq s cpu) = Some prev" and "t_state (s_thread s prev) = THREAD_RUNNING"
    and "t_slice_left_ns (s_thread s prev) = 0" and "t_yield_pending (s_thread s prev)"
  obtains s2 where "put_prev cpu False prev s = Some s2"
    "\<And>q. ready s2 cpu q = ready s cpu q @ (if rq_idle (s_rq s cpu) \<noteq> Some prev \<and> q = level (s_thread s prev) then [prev] else [])"
proof (cases "rq_idle (s_rq s cpu) = Some prev")
  case True
  then show ?thesis using that [of "upd_thread prev (\<lambda>th. th\<lparr>t_state := THREAD_READY\<rparr>) s"] assms(3) by (simp add: put_prev_def)
next
  case False
  let ?s = "upd_thread prev (\<lambda>th. th\<lparr>t_state := THREAD_READY\<rparr>) s"
  have p: "prio_ok (s_thread ?s prev)" "\<not> t_queued (s_thread ?s prev)"
    using qwfD(2,3) [OF sched_wfD(1) [OF assms(1)], of prev] assms(3) by (auto simp: prio_ok_def queued_ok_def)
  obtain v where e: "rr_enqueue cpu prev False ?s = Some (enqueued ?s cpu prev (ready ?s cpu (level (s_thread ?s prev))) [] v)"
    by (rule enqueue_tail [OF p(2,1), of cpu]) (use assms(5) in auto)
  then have "put_prev cpu False prev s = Some (enqueued ?s cpu prev (ready ?s cpu (level (s_thread ?s prev))) [] v)"
    using assms(3,4) False by (simp add: put_prev_def)
  then show ?thesis using that False by (simp add: enqueued_def level_def)
qed

section \<open>The measure\<close>

text \<open>Thread \<open>t\<close> waits behind \<open>k\<close> others at level \<open>p\<close> of \<open>cpu\<close>, no better level has a thread, and a thread runs that is no better.\<close>

definition waits :: "sched \<Rightarrow> nat \<Rightarrow> nat \<Rightarrow> tid \<Rightarrow> nat \<Rightarrow> bool" where
  "waits s cpu p t k \<longleftrightarrow>
     sched_wf s \<and> (\<exists>xs ys. ready s cpu p = xs @ t # ys \<and> length xs = k) \<and> (\<forall>q<p. ready s cpu q = []) \<and>
     (\<exists>u. rq_current (s_rq s cpu) = Some u \<and> t_state (s_thread s u) = THREAD_RUNNING \<and> int p \<le> t_priority (s_thread s u))"

lemma take_next_first:
  assumes "qwf s" and "ready s cpu p = h # ts" and "\<forall>q<p. ready s cpu q = []" and "take_next cpu s = Some (s', nxt)"
  shows "nxt = h" "ready s' cpu p = ts" "\<forall>q<p. ready s' cpu q = []" "t_priority (s_thread s h) = int p"
proof -
  have l: "on_level (s_thread s h) cpu p" using qwf_mem [OF assms(1), of h cpu p] assms(2) by simp
  obtain t r us where r: "rr_pick_next cpu s = Some (Some t)" "ready s cpu r = t # us" "\<forall>q<r. ready s cpu q = []"
    using rr_pick_next_cases [OF assms(1), of cpu] assms(2) by auto
  have "r = p" using r(2,3) assms(2,3) by (metis linorder_neqE_nat list.distinct(1))
  then have t: "t = h" "us = ts" using r(2) assms(2) by simp_all
  have q: "t_queued (s_thread s h)" "t_cpu (s_thread s h) = int cpu" "level (s_thread s h) = p" using l by (simp_all add: on_level_def level_def)
  have d: "s' = dequeued s cpu h" "nxt = h" using assms(4) r(1) t rr_dequeue_eq [OF assms(1) q(1,2)] by (auto simp: take_next_def)
  show "nxt = h" "t_priority (s_thread s h) = int p" using d l by (simp_all add: on_level_def)
  show "ready s' cpu p = ts" "\<forall>q<p. ready s' cpu q = []" using d q(3) assms(2,3) by (simp_all add: dequeued_def Let_def)
qed

lemma yield_progress:
  assumes w: "waits s cpu p t k"
  shows "\<exists>s'. sched_yield cpu s = Some s' \<and> same_prios s s' \<and>
    (if k = 0 then rq_current (s_rq s' cpu) = Some t else waits s' cpu p t (k - 1))"
proof -
  obtain xs ys prev where x: "ready s cpu p = xs @ t # ys" "length xs = k" "\<forall>q<p. ready s cpu q = []" "sched_wf s"
    "rq_current (s_rq s cpu) = Some prev" "t_state (s_thread s prev) = THREAD_RUNNING" "int p \<le> t_priority (s_thread s prev)"
    using w by (auto simp: waits_def)
  define s0 where "s0 = upd_thread prev (\<lambda>th. th\<lparr>t_slice_left_ns := 0, t_yield_pending := True\<rparr>) s"
  define s1 where "s1 = pass_start cpu False prev s0"
  have a0: "agree s s0" unfolding s0_def by (rule agree_thread) simp_all
  have a1: "agree s s1" unfolding s1_def by (rule agree_trans [OF a0 agree_pass_start])
  note A = agreeD [OF a1] and A0 = agreeD [OF a0]
  have w0: "sched_wf s0" "sched_wf s1" using x(4) agree_wf [OF a0] agree_wf [OF a1] by simp_all
  obtain i s2 s3 nxt s' where g: "schedule_pass cpu False s0 = Some s'" "sched_wf s'" "put_prev cpu False prev s1 = Some s2"
      "take_next cpu s2 = Some (s3, nxt)" "staged s1 cpu prev i s2 s3 nxt s'"
    unfolding s1_def by (rule schedule_pass_wf [OF w0(1), of cpu prev False]) (use x(5) A0 in auto)
  note G = g(5) [unfolded staged_def]
  obtain s2' where "put_prev cpu False prev s1 = Some s2'"
      "\<And>q. ready s2' cpu q = ready s1 cpu q @ (if rq_idle (s_rq s1 cpu) \<noteq> Some prev \<and> q = level (s_thread s1 prev) then [prev] else [])"
    by (rule put_prev_tail [OF w0(2), of cpu prev]) (use x(5,6) A in \<open>auto simp: s1_def pass_start_yield s0_def\<close>)
  then have r2: "ready s2 cpu q = ready s cpu q @ (if rq_idle (s_rq s1 cpu) \<noteq> Some prev \<and> q = level (s_thread s1 prev) then [prev] else [])" for q
    using g(3) A(5) by simp
  have lv: "p \<le> level (s_thread s1 prev)" using x(7) A(4) by (simp add: level_def le_nat_iff)
  have z: "\<forall>q<p. ready s2 cpu q = []" using r2 x(3) lv by simp
  obtain zs where zs: "ready s2 cpu p = xs @ t # zs" using r2 [of p] x(1) by simp
  have q2: "qwf s2" using put_prev_ok [OF w0(2), of cpu prev False] g(3) x(5) A(8) by (metis option.inject)
  have y: "sched_yield cpu s = Some s'" using g(1) x(5) cpu_wfD(3) [OF sched_wfD(2) [OF x(4), of cpu]] by (simp add: sched_yield_def s0_def)
  have sp: "same_prios s s'" using pass_prios [OF g(1)] A0(4) by (simp add: same_prios_def)
  have cur: "rq_current (s_rq s' cpu) = Some nxt" "t_state (s_thread s' nxt) = THREAD_RUNNING" using G by simp_all
  show ?thesis
  proof (cases xs)
    case Nil
    then have "nxt = t" using take_next_first(1) [OF q2 _ z g(4)] zs by simp
    then show ?thesis using y sp cur x(2) Nil by simp
  next
    case (Cons h us)
    note T = take_next_first [OF q2 _ z g(4), of h "us @ t # zs"]
    have e: "rq_ready (s_rq s' cpu) = rq_ready (s_rq s3 cpu)"
      using g(1,3,4) schedule_pass_alt [of s0 cpu prev False] x(5) A0(8)
      by (auto simp: s1_def [symmetric] switch_to_def Let_def sched_finish_switch_def rr_slice_new_def)
    have "t_priority (s_thread s' nxt) = int p" using G T(1,4) zs Cons by simp
    then have "waits s' cpu p t (k - 1)" unfolding waits_def e using g(2) T(2,3) zs Cons x(2) cur by fastforce
    then show ?thesis using y sp x(2) Cons by auto
  qed
qed

lemma wake_progress:
  assumes w: "waits s cpu p t k" and l: "0 \<le> t_cpu (s_thread s u)" "u < MAX_THREADS"
    and b: "int p \<le> t_priority (s_thread s u)" "t_priority (s_thread s u) = FAIR_LEVEL \<longrightarrow> int p \<noteq> FAIR_LEVEL"
  shows "\<exists>s'. map_option fst (sched_wake u s) = Some s' \<and> same_prios s s' \<and> waits s' cpu p t k"
proof (cases "t_state (s_thread s u) = THREAD_BLOCKED")
  case False
  then show ?thesis using w l(1) by (simp add: sched_wake_def same_prios_def)
next
  case True
  have wf: "sched_wf s" using w by (simp add: waits_def)
  let ?s = "upd_thread u (\<lambda>th. th\<lparr>t_state := THREAD_READY\<rparr>) s" and ?c = "nat (t_cpu (s_thread s u))"
  have nq: "\<not> t_queued (s_thread ?s u)" "prio_ok (s_thread ?s u)"
    using blocked_free [OF sched_wfD(1) [OF wf], of u] True qwfD(3) [OF sched_wfD(1) [OF wf], of u] by (simp_all add: prio_ok_def)
  obtain xs ys v where e: "rr_enqueue ?c u False ?s = Some (enqueued ?s ?c u xs ys v)" "ready ?s ?c (level (s_thread ?s u)) = xs @ ys"
      "t_priority (s_thread ?s u) \<noteq> FAIR_LEVEL \<longrightarrow> ys = []"
    by (rule rr_enqueue_eq [OF nq, of ?c False]) auto
  obtain s' where s': "sched_wake u s = Some (s', True)" "sched_wf s'" using wake_wf [OF wf l] True by auto
  let ?e = "enqueued ?s ?c u xs ys v"
  have s'e: "s_thread s' = s_thread ?e" "s_rq s' = s_rq ?e"
    using s'(1) e(1) True l(1) by (auto simp: sched_wake_def Let_def request_resched_def)
  have th: "s_thread s' x = s_thread s x" if "x \<noteq> u" for x using that by (simp add: s'e enqueued_def)
  have pr: "t_priority (s_thread s' x) = t_priority (s_thread s x)" for x by (simp add: s'e enqueued_def enqueued_thread_def)
  have rd: "ready s' cpu q = (if ?c = cpu \<and> q = level (s_thread s u) then xs @ u # ys else ready s cpu q)" for q
    by (simp add: s'e enqueued_def level_def)
  have old: "ready s ?c (level (s_thread s u)) = xs @ ys" using e(2) by (simp add: level_def)
  have lp: "p \<le> level (s_thread s u)" using b(1) by (simp add: level_def le_nat_iff)
  obtain as bs where ab: "ready s cpu p = as @ t # bs" "length as = k" using w by (auto simp: waits_def)
  have "\<exists>as bs. ready s' cpu p = as @ t # bs \<and> length as = k"
  proof (cases "?c = cpu \<and> p = level (s_thread s u)")
    case True
    then have "int p = t_priority (s_thread s u)" using level_ok(1) [OF qwfD(3) [OF sched_wfD(1) [OF wf]], of u] by simp
    then have "ys = []" using e(3) b(2) by auto
    then have "ready s' cpu p = as @ t # (bs @ [u])" using True rd old ab(1) by auto
    then show ?thesis using ab(2) by blast
  qed (use ab rd in auto)
  moreover have "\<forall>q<p. ready s' cpu q = []" using rd lp w by (auto simp: waits_def)
  moreover have "\<exists>x. rq_current (s_rq s' cpu) = Some x \<and> t_state (s_thread s' x) = THREAD_RUNNING \<and> int p \<le> t_priority (s_thread s' x)"
  proof -
    obtain x where x: "rq_current (s_rq s cpu) = Some x" "t_state (s_thread s x) = THREAD_RUNNING" "int p \<le> t_priority (s_thread s x)"
      using w by (auto simp: waits_def)
    then have "x \<noteq> u" using True by auto
    moreover have "rq_current (s_rq s' cpu) = Some x" using x(1) by (auto simp: s'e enqueued_def)
    ultimately show ?thesis using x(2,3) th [of x] by auto
  qed
  ultimately have "waits s' cpu p t k" using s'(2) by (simp add: waits_def)
  then show ?thesis using s'(1) pr by (simp add: same_prios_def)
qed

text \<open>The operations in between: the CPU's threads give way, others wake that are no better, and time passes.\<close>

fun gives_way :: "nat \<Rightarrow> nat \<Rightarrow> sched \<Rightarrow> op \<Rightarrow> bool" where
  "gives_way cpu p s (Yield c) = (c = cpu)"
| "gives_way cpu p s (Wake u) = (int p \<le> t_priority (s_thread s u) \<and> (t_priority (s_thread s u) = FAIR_LEVEL \<longrightarrow> int p \<noteq> FAIR_LEVEL))"
| "gives_way cpu p s (Clock now) = True"
| "gives_way cpu p s _ = False"

definition yields :: "op list \<Rightarrow> nat" where
  "yields ops = length (filter (\<lambda>op. case op of Yield c \<Rightarrow> True | _ \<Rightarrow> False) ops)"

lemma gives_way_same: "same_prios s s' \<Longrightarrow> gives_way cpu p s' op = gives_way cpu p s op"
  by (cases op) (simp_all add: same_prios_def)

lemma waits_clock: "waits s cpu p t k \<Longrightarrow> waits (s\<lparr>s_clock := now\<rparr>) cpu p t k"
  using agree_wf [OF agree_others(2)] by (simp add: waits_def)

lemma comes_to_run:
  assumes "waits s cpu p t k" and "legal_run s ops" and "\<forall>op \<in> set ops. gives_way cpu p s op" and "k < yields ops"
  shows "\<exists>pre post s'. ops = pre @ post \<and> run pre s = Some s' \<and> rq_current (s_rq s' cpu) = Some t"
  using assms
proof (induction ops arbitrary: s k)
  case Nil
  then show ?case by (simp add: yields_def)
next
  case (Cons op ops)
  have next_step: "\<exists>pre post s'. op # ops = pre @ post \<and> run pre s = Some s' \<and> rq_current (s_rq s' cpu) = Some t"
    if e: "exec_op op s = Some s1" "same_prios s s1" "waits s1 cpu p t j" "j < yields ops" for s1 j
  proof -
    have "legal_run s1 ops" "\<forall>op \<in> set ops. gives_way cpu p s1 op" using Cons.prems(2,3) e(1,2) gives_way_same by auto
    then obtain pre post s' where "ops = pre @ post" "run pre s1 = Some s'" "rq_current (s_rq s' cpu) = Some t"
      using Cons.IH [OF e(3)] e(4) by blast
    then have "op # ops = (op # pre) @ post" "run (op # pre) s = Some s'" "rq_current (s_rq s' cpu) = Some t" using e(1) by simp_all
    then show ?thesis by blast
  qed
  have g: "gives_way cpu p s op" "legal s op" using Cons.prems(2,3) by simp_all
  show ?case
  proof (cases op)
    case (Yield c)
    then obtain s1 where s1: "sched_yield cpu s = Some s1" "same_prios s s1" "if k = 0 then rq_current (s_rq s1 cpu) = Some t else waits s1 cpu p t (k - 1)"
      using yield_progress [OF Cons.prems(1)] by blast
    have e: "exec_op op s = Some s1" using Yield g(1) s1(1) by simp
    show ?thesis
    proof (cases "k = 0")
      case True
      then show ?thesis using e s1(3) by (intro exI [of _ "[op]"] exI [of _ ops] exI [of _ s1]) simp
    next
      case False
      then show ?thesis using next_step [OF e s1(2)] s1(3) Cons.prems(4) Yield by (simp add: yields_def)
    qed
  next
    case (Wake u)
    then obtain s1 where "exec_op op s = Some s1" "same_prios s s1" "waits s1 cpu p t k"
      using wake_progress [OF Cons.prems(1), of u] g by auto
    then show ?thesis using next_step Cons.prems(4) Wake by (simp add: yields_def)
  next
    case (Clock now)
    then show ?thesis using next_step [OF _ _ waits_clock [OF Cons.prems(1)]] Cons.prems(4) by (simp add: yields_def same_prios_def)
  qed (use g in auto)
qed

section \<open>Property\<close>


text \<open>The boot thread of a machine with one CPU creates thread 5 at its own level.\<close>

definition demo_new :: sched where
  "demo_new = create_thread 5 SCHED_PRIO_DEFAULT 0 (- 1) (sched_boot 1)"

definition demo_two :: sched where
  "demo_two = the (sched_enqueue_new 0 5 demo_new)"

lemma demo_new_ok: "sched_wf demo_new" "unused demo_new 5" "rq_current (s_rq demo_new 0) = Some 0" "rq_idle (s_rq demo_new 0) = Some 1"
  "rq_nr_running (s_rq demo_new 0) = 0" "\<And>q. ready demo_new 0 q = []" "s_online demo_new = (\<lambda>c. c = 0)" "s_cpu_count demo_new = 1" "s_pick_rotor demo_new = 0"
  "s_thread demo_new 5 = thread_alloc SCHED_PRIO_DEFAULT 0" "t_state (s_thread demo_new 0) = THREAD_RUNNING" "t_priority (s_thread demo_new 0) = 32"
proof -
  have b: "booted 1 (sched_boot 1)" using booted_boot [of 1 1] by (simp add: sched_boot_def)
  show "sched_wf demo_new" unfolding demo_new_def by (rule create_wf [OF boot_wf demo_unused]) (simp_all add: CONFIG_MAX_CPUS_def)
  show "unused demo_new 5" by (simp add: demo_new_def create_thread_def unused_def thread_alloc_def MAX_THREADS_def)
  show "rq_current (s_rq demo_new 0) = Some 0" "rq_idle (s_rq demo_new 0) = Some 1" "rq_nr_running (s_rq demo_new 0) = 0" "ready demo_new 0 q = []"
      "t_state (s_thread demo_new 0) = THREAD_RUNNING" for q
    using b by (simp_all add: demo_new_def create_thread_def booted_def)
  show "s_online demo_new = (\<lambda>c. c = 0)" "s_cpu_count demo_new = 1" "s_pick_rotor demo_new = 0" "t_priority (s_thread demo_new 0) = 32"
    by (simp_all add: demo_new_def create_thread_def upd_thread_def sched_boot_def start_cpus_def sched_init_def sched_blank_def Let_def upd_rq_def
        rr_slice_new_def thread_alloc_def SCHED_PRIO_DEFAULT_def SCHED_PRIO_COUNT_def)
  show "s_thread demo_new 5 = thread_alloc SCHED_PRIO_DEFAULT 0" by (simp add: demo_new_def create_thread_def thread_alloc_def)
qed

lemma demo_two_ok: "sched_wf demo_two" "ready demo_two 0 32 = [5]" "\<forall>q<32. ready demo_two 0 q = []"
  "rq_current (s_rq demo_two 0) = Some 0" "t_state (s_thread demo_two 0) = THREAD_RUNNING" "t_priority (s_thread demo_two 0) = 32"
proof -
  note N = demo_new_ok
  define s1 where "s1 = demo_new\<lparr>s_pick_rotor := 1\<rparr>"
  have p: "pick_cpu 0 5 demo_new = (s1, 0)"
    using N(3-5,7-9) by (simp add: pick_cpu_def Let_def s1_def sched_cpu_load_def u32_def thread_alloc_def)
  let ?s = "rr_slice_new 5 (upd_thread 5 (\<lambda>th. th\<lparr>t_cpu := 0, t_state := THREAD_READY\<rparr>) s1)"
  have th: "\<not> t_queued (s_thread ?s 5)" "prio_ok (s_thread ?s 5)" "level (s_thread ?s 5) = 32"
    using N(10) by (simp_all add: rr_slice_new_def s1_def thread_alloc_def prio_ok_def SCHED_PRIO_COUNT_def SCHED_PRIO_DEFAULT_def level_def)
  have rd: "ready ?s 0 q = []" for q using N(6) by (simp add: rr_slice_new_def s1_def)
  obtain v where e: "rr_enqueue 0 5 False ?s = Some (enqueued ?s 0 5 [] [] v)"
    by (rule rr_enqueue_eq [OF th(1,2), of 0 False]) (use rd th(3) in auto)
  have t: "s_thread demo_two = s_thread (enqueued ?s 0 5 [] [] v)" "s_rq demo_two = s_rq (enqueued ?s 0 5 [] [] v)"
    using p e by (simp_all add: demo_two_def sched_enqueue_new_def Let_def request_resched_def)
  show "sched_wf demo_two" using enqueue_new_wf [OF N(1), of 5 0] N(2) unused_free [OF N(1,2)] by (auto simp: demo_two_def unused_def)
  show "ready demo_two 0 32 = [5]" "\<forall>q<32. ready demo_two 0 q = []" "rq_current (s_rq demo_two 0) = Some 0"
      "t_state (s_thread demo_two 0) = THREAD_RUNNING" "t_priority (s_thread demo_two 0) = 32"
    using rd N(3,11,12) th(3) by (simp_all add: t enqueued_def) (simp_all add: rr_slice_new_def s1_def)
qed


end
