(* ===== verification/Sched_Order.thy ===== *)
theory Sched_Order
  imports Sched_Run
begin

text \<open>
  The order of the fair level. Putting a thread on the level keeps its list in the order of virtual run time; but a
  thread that was woken before it blocked is on the list while it still runs, and charging it does not move it.
\<close>

section \<open>Enqueueing keeps the order\<close>

definition fair_sorted :: "sched \<Rightarrow> nat \<Rightarrow> bool" where
  "fair_sorted s cpu \<longleftrightarrow> sorted (map (fair_vruntime s) (ready s cpu (nat FAIR_LEVEL)))"

lemma sorted_insert:
  assumes "sorted (map f (xs @ ys))" and "\<forall>u \<in> set ys. v \<le> f u" and "xs \<noteq> [] \<longrightarrow> f (last xs) \<le> v"
  shows "sorted (map f xs @ v # map f ys)"
proof -
  have "f u \<le> v" if "u \<in> set xs" for u
  proof -
    have "xs \<noteq> []" using that by auto
    then have "xs = butlast xs @ [last xs]" by simp
    then have "sorted (map f (butlast xs) @ [f (last xs)])" using assms(1) by (metis (no_types, lifting) list.simps(8,9) map_append sorted_append)
    then have "\<forall>u \<in> set (butlast xs). f u \<le> f (last xs)" by (auto simp: sorted_append)
    then have "f u \<le> f (last xs)" using that \<open>xs = butlast xs @ [last xs]\<close> by (metis UnE empty_iff list.set(1,2) order_refl insert_iff set_append)
    then show ?thesis using assms(3) \<open>xs \<noteq> []\<close> by auto
  qed
  then show ?thesis using assms(1,2) by (auto simp: sorted_append)
qed

text \<open>
  C24. The fair level is kept in order. Putting a thread on the queue of a CPU whose fair level is in the order of virtual run
  time, whether it yielded or comes from elsewhere, at any level, leaves the fair level in that order.
\<close>

theorem enqueue_keeps_order:
  assumes "sched_wf s" and "\<not> t_queued (s_thread s t)" and "fair_sorted s cpu" and "rr_enqueue cpu t at_head s = Some s'"
  shows "fair_sorted s' cpu"
proof -
  note q = sched_wfD(1) [OF assms(1)]
  let ?th = "s_thread s t"
  obtain xs ys v where e: "rr_enqueue cpu t at_head s = Some (enqueued s cpu t xs ys v)" "ready s cpu (level ?th) = xs @ ys"
    "t_priority ?th = FAIR_LEVEL \<longrightarrow>
       (if t_yield_pending ?th then ys = [] \<and> v = (if xs = [] then t_vruntime ?th else max (t_vruntime ?th) (fair_vruntime s (last xs)))
        else v = fair_place (t_vruntime ?th) (rq_fair_min (s_rq s cpu)) FAIR_WAKE_BONUS_NS \<and>
          (\<forall>u \<in> set ys. v < fair_vruntime s u) \<and> (xs \<noteq> [] \<longrightarrow> fair_vruntime s (last xs) \<le> v))"
    by (rule rr_enqueue_eq [OF assms(2) qwfD(3) [OF q]])
  have s': "s' = enqueued s cpu t xs ys v" using assms(4) e(1) by simp
  have nt: "t \<notin> set (ready s cpu p)" for p using qwf_mem [OF q] assms(2) by (simp add: on_level_def)
  have vr: "fair_vruntime s' u = fair_vruntime s u" if "u \<in> set (ready s cpu p)" for u p
  proof -
    have "u \<noteq> t" using that nt [of p] by blast
    then show ?thesis by (simp add: s' enqueued_def fair_vruntime_def)
  qed
  have vt: "fair_vruntime s' t = v" by (simp add: s' enqueued_def enqueued_thread_def fair_vruntime_def)
  show ?thesis
  proof (cases "t_priority ?th = FAIR_LEVEL")
    case False
    moreover have "int (nat FAIR_LEVEL) = FAIR_LEVEL" by (simp add: FAIR_LEVEL_def SCHED_PRIO_DEFAULT_def)
    ultimately have "nat FAIR_LEVEL \<noteq> level ?th" using level_ok(1) [OF qwfD(3) [OF q], of t] by metis
    then have "ready s' cpu (nat FAIR_LEVEL) = ready s cpu (nat FAIR_LEVEL)" by (simp add: s' enqueued_def)
    moreover have "map (fair_vruntime s') (ready s cpu (nat FAIR_LEVEL)) = map (fair_vruntime s) (ready s cpu (nat FAIR_LEVEL))"
      using vr [of _ "nat FAIR_LEVEL"] by simp
    ultimately show ?thesis using assms(3) unfolding fair_sorted_def by argo
  next
    case True
    then have l: "level ?th = nat FAIR_LEVEL" by (simp add: level_def)
    have m: "map (fair_vruntime s') xs = map (fair_vruntime s) xs" "map (fair_vruntime s') ys = map (fair_vruntime s) ys"
      using vr [of _ "level ?th"] e(2) by simp_all
    have "sorted (map (fair_vruntime s) xs @ v # map (fair_vruntime s) ys)"
      using e(3) True assms(3) e(2) l by (intro sorted_insert) (auto simp: fair_sorted_def split: if_splits)
    moreover have "ready s' cpu (nat FAIR_LEVEL) = xs @ t # ys" using l by (simp add: s' enqueued_def)
    ultimately show ?thesis by (simp add: fair_sorted_def m vt)
  qed
qed

theorem enqueue_keeps_order_witness:
  "\<exists>s'. rr_enqueue 0 5 False (sched_boot 1) = Some s' \<and> fair_sorted s' 0"
proof -
  have b: "booted 1 (sched_boot 1)" using booted_boot [of 1 1] by (simp add: sched_boot_def)
  have w: "sched_wf (sched_boot 1)" by (rule boot_wf) (simp_all add: CONFIG_MAX_CPUS_def)
  have n: "\<not> t_queued (s_thread (sched_boot 1) 5)" "fair_sorted (sched_boot 1) 0" using b by (simp_all add: booted_def fair_sorted_def)
  obtain s' where "rr_enqueue 0 5 False (sched_boot 1) = Some s'" by (rule rr_enqueue_eq [OF n(1) qwfD(3) [OF sched_wfD(1) [OF w]]])
  with enqueue_keeps_order [OF w n this] show ?thesis by blast
qed

section \<open>Charging a queued thread\<close>

text \<open>
  On a machine with two CPUs the boot thread is about to block and is woken first, so it is queued while it still runs; a
  thread for its CPU is created on the other; the tick then charges the boot thread for a second of run time.
\<close>

definition order_ops :: "op list" where
  "order_ops = [Create 5 SCHED_PRIO_DEFAULT 0 (CPUMASK_OF 0), Prepare_Block 0, Wake 0, Enqueue_New 1 5, Clock 1000000000, Tick 0 1]"

definition order_start :: sched where
  "order_start = create_thread 5 SCHED_PRIO_DEFAULT 0 (CPUMASK_OF 0) (sched_boot 2)"

definition order_blocked :: sched where
  "order_blocked = upd_thread 0 (\<lambda>th. th\<lparr>t_state := THREAD_BLOCKED\<rparr>) order_start"

lemma order_boot: "booted 2 (sched_boot 2)" "unused (sched_boot 2) 5"
  using booted_boot [of 2 2] by (simp_all add: sched_boot_def booted_def unused_def MAX_THREADS_def)

lemma order_facts:
  "rq_current (s_rq order_start 0) = Some 0" "rq_idle (s_rq order_start 0) = Some 1" "s_pc_current order_start 0 = Some 0"
  "rq_current (s_rq order_start 1) = Some 2" "rq_nr_running (s_rq order_start 0) = 0" "ready order_start 0 q = []" "rq_fair_min (s_rq order_start 0) = 0"
  "t_state (s_thread order_start 0) = THREAD_RUNNING" "t_cpu (s_thread order_start 0) = 0" "\<not> t_queued (s_thread order_start 0)" "t_nice (s_thread order_start 0) = 0"
  "t_priority (s_thread order_start 0) = 32" "t_vruntime (s_thread order_start 0) = 0" "t_last_start_ns (s_thread order_start 0) = 0"
  "t_vruntime_stamp_ns (s_thread order_start 0) = 0" "\<not> t_yield_pending (s_thread order_start 0)"
  "s_thread order_start 5 = (thread_alloc SCHED_PRIO_DEFAULT 0)\<lparr>t_affinity := CPUMASK_OF 0\<rparr>"
  "s_cpu_count order_start = 2" "s_online order_start 0" "s_clock order_start = 0" "s_pick_rotor order_start = 0"
  using order_boot(1)
  by (simp_all add: order_start_def create_thread_def booted_def)
    (simp_all add: sched_boot_def start_cpus_def sched_start_cpu_def sched_init_def sched_blank_def rq_init_def Let_def upd_thread_def upd_rq_def
      rr_slice_new_def thread_alloc_def SCHED_PRIO_DEFAULT_def SCHED_PRIO_COUNT_def numeral_2_eq_2)

text \<open>The boot thread's state while it is queued: what the rest of the run reads.\<close>

definition boot_queued :: "sched \<Rightarrow> tid list \<Rightarrow> bool" where
  "boot_queued s ts \<longleftrightarrow>
     ready s 0 32 = ts \<and> rq_current (s_rq s 0) = Some 0 \<and> rq_idle (s_rq s 0) = Some 1 \<and> s_cpu_count s = 2 \<and> s_online s 0 \<and>
     t_priority (s_thread s 0) = 32 \<and> t_nice (s_thread s 0) = 0 \<and> t_vruntime (s_thread s 0) = 0 \<and> t_last_start_ns (s_thread s 0) = 0 \<and>
     t_vruntime_stamp_ns (s_thread s 0) = 0"

lemma FAIR_32: "FAIR_LEVEL = 32" by (simp add: FAIR_LEVEL_def SCHED_PRIO_DEFAULT_def)

lemma order_woken:
  obtains s where "sched_wake 0 order_blocked = Some (s, True)" "boot_queued s [0]" "s_thread s 5 = s_thread order_start 5"
    "s_pick_rotor s = 0" "rq_nr_running (s_rq s 0) = 1" "rq_fair_min (s_rq s 0) = 0"
proof -
  note F = order_facts
  let ?s = "upd_thread 0 (\<lambda>th. th\<lparr>t_state := THREAD_READY\<rparr>) order_blocked"
  have th: "\<not> t_queued (s_thread ?s 0)" "prio_ok (s_thread ?s 0)" "level (s_thread ?s 0) = 32"
    using F(10,12) by (simp_all add: order_blocked_def prio_ok_def SCHED_PRIO_COUNT_def level_def)
  obtain v where e: "rr_enqueue 0 0 False ?s = Some (enqueued ?s 0 0 [] [] v)" "v = 0"
    by (rule rr_enqueue_eq [OF th(1,2), of 0 False])
      (use F(6,7,12,13,16) th(3) in \<open>auto simp: FAIR_32 order_blocked_def fair_place_def sat_sub_def\<close>)
  let ?e = "enqueued ?s 0 0 [] [] v"
  have "sched_wake 0 order_blocked = Some (if outranks 0 (t_priority (s_thread ?e 0)) ?e then request_resched 0 ?e else ?e, True)"
    using e(1) F(9) by (simp add: sched_wake_def order_blocked_def)
  moreover have "boot_queued ?e [0]" using F e(2) th(3) by (simp add: boot_queued_def enqueued_def enqueued_thread_def order_blocked_def)
  then have "boot_queued (if b then request_resched 0 ?e else ?e) [0]" for b by (simp add: boot_queued_def request_resched_def)
  ultimately show ?thesis using that F(5,7,21)
    by (simp add: request_resched_def set_resched_def enqueued_def order_blocked_def u32_def upd_thread_def)
qed

lemma order_new:
  assumes "boot_queued s [0]" and "s_thread s 5 = s_thread order_start 5" and "s_pick_rotor s = 0" and "rq_nr_running (s_rq s 0) = 1"
    and "rq_fair_min (s_rq s 0) = 0"
  obtains s' where "sched_enqueue_new 1 5 s = Some s'" "boot_queued s' [0, 5]" "t_vruntime (s_thread s' 5) = 0" "s_clock s' = s_clock s"
proof -
  define s1 where "s1 = s\<lparr>s_pick_rotor := 1\<rparr>"
  note B = assms(1) [unfolded boot_queued_def]
  have "has (CPUMASK_OF 0) (CPUMASK_OF 0)" "\<not> has (CPUMASK_OF 0) (CPUMASK_OF 1)" by (simp_all add: CPUMASK_OF_def flag_simps)
  then have p: "pick_cpu 1 5 s = (s1, 0)"
    using B assms(2-4) order_facts(17) by (simp add: pick_cpu_def Let_def s1_def sched_cpu_load_def u32_def CONFIG_MAX_CPUS_def upt_rec)
  let ?s = "rr_slice_new 5 (upd_thread 5 (\<lambda>th. th\<lparr>t_cpu := 0, t_state := THREAD_READY\<rparr>) s1)"
  have th: "\<not> t_queued (s_thread ?s 5)" "prio_ok (s_thread ?s 5)" "level (s_thread ?s 5) = 32" "t_priority (s_thread ?s 5) = 32"
      "t_vruntime (s_thread ?s 5) = 0" "\<not> t_yield_pending (s_thread ?s 5)"
    using assms(2) order_facts(17)
    by (simp_all add: rr_slice_new_def s1_def thread_alloc_def prio_ok_def SCHED_PRIO_COUNT_def SCHED_PRIO_DEFAULT_def level_def)
  have rd: "ready ?s 0 32 = [0]" "fair_vruntime ?s 0 = 0" "rq_fair_min (s_rq ?s 0) = 0"
    using B assms(5) by (simp_all add: rr_slice_new_def s1_def fair_vruntime_def)
  obtain v where e: "rr_enqueue 0 5 False ?s = Some (enqueued ?s 0 5 [0] [] v)" "v = 0"
  proof (rule rr_enqueue_eq [OF th(1,2), of 0 False])
    fix xs ys v
    assume e: "rr_enqueue 0 5 False ?s = Some (enqueued ?s 0 5 xs ys v)" "ready ?s 0 (level (s_thread ?s 5)) = xs @ ys"
      and f: "t_priority (s_thread ?s 5) = FAIR_LEVEL \<longrightarrow>
        (if t_yield_pending (s_thread ?s 5) then ys = [] \<and> v = (if xs = [] then t_vruntime (s_thread ?s 5) else max (t_vruntime (s_thread ?s 5)) (fair_vruntime ?s (last xs)))
         else v = fair_place (t_vruntime (s_thread ?s 5)) (rq_fair_min (s_rq ?s 0)) FAIR_WAKE_BONUS_NS \<and>
           (\<forall>u \<in> set ys. v < fair_vruntime ?s u) \<and> (xs \<noteq> [] \<longrightarrow> fair_vruntime ?s (last xs) \<le> v))"
    have pf: "t_priority (s_thread ?s 5) = FAIR_LEVEL" using th(4) FAIR_32 by argo
    have g: "v = fair_place (t_vruntime (s_thread ?s 5)) (rq_fair_min (s_rq ?s 0)) FAIR_WAKE_BONUS_NS" "\<forall>u \<in> set ys. v < fair_vruntime ?s u"
      using mp [OF f pf, unfolded if_not_P [OF th(6)]] by blast+
    then have v: "v = 0" using th(5) rd(3) by (simp add: fair_place_def sat_sub_def)
    have "xs @ ys = [0]" using e(2) th(3) rd(1) by simp
    then have "ys = []" "xs = [0]" using g(2) v rd(2) by (auto simp: append_eq_Cons_conv)
    then show thesis using that e(1) v by simp
  qed
  let ?e = "enqueued ?s 0 5 [0] [] v"
  have "boot_queued ?e [0, 5]" "t_vruntime (s_thread ?e 5) = 0" "s_clock ?e = s_clock s"
    using B th(3) e(2) by (simp_all add: boot_queued_def enqueued_def enqueued_thread_def rr_slice_new_def s1_def)
  then have "boot_queued (if b then request_resched 0 ?e else ?e) [0, 5]" "t_vruntime (s_thread (if b then request_resched 0 ?e else ?e) 5) = 0"
      "s_clock (if b then request_resched 0 ?e else ?e) = s_clock s" for b by (simp_all add: boot_queued_def request_resched_def)
  then show ?thesis using that p e(1) by (simp add: sched_enqueue_new_def)
qed

lemma order_tick:
  assumes "boot_queued s [0, 5]" and "t_vruntime (s_thread s 5) = 0" and "s_clock s = 1000000000"
  obtains s' where "sched_tick 0 1 s = Some s'" "ready s' 0 32 = [0, 5]" "t_vruntime (s_thread s' 0) = 1000000000" "t_vruntime (s_thread s' 5) = 0"
proof -
  note B = assms(1) [unfolded boot_queued_def]
  have w: "fair_weight 0 = 1024" by (simp add: fair_weight_def WEIGHTS_def)
  have c: "fair_charge 0 1000000000 1024 = 1000000000" by (subst fair_charge_exact) simp_all
  define s1 where "s1 = rr_charge 0 0 1000000000 s"
  have 1: "ready s1 0 32 = [0, 5]" "t_vruntime (s_thread s1 0) = 1000000000" "t_vruntime (s_thread s1 5) = 0" "t_priority (s_thread s1 0) = FAIR_LEVEL"
      "s_cpu_count s1 = 2" "rq_current (s_rq s1 0) = Some 0" "rq_idle (s_rq s1 0) = Some 1"
    using B assms(2) w c by (simp_all add: s1_def rr_charge_def Let_def clock_delta_ns_def FAIR_32)
  define s2 where "s2 = rr_tick 0 0 TICK_NS s1"
  have "s2 = s1 \<or> s2 = set_resched 0 True s1" using 1(4) by (auto simp: s2_def rr_tick_def Let_def)
  then have 2: "ready s2 0 32 = [0, 5]" "t_vruntime (s_thread s2 0) = 1000000000" "t_vruntime (s_thread s2 5) = 0"
      "rq_current (s_rq s2 0) = Some 0" "rq_idle (s_rq s2 0) = Some 1"
    using 1 by auto
  have "sched_tick 0 1 s = balance_tick 0 1 s2"
    using B assms(3) by (simp add: sched_tick_def s2_def s1_def)
  also have "\<dots> = Some s2" using 2(4,5) by (simp add: balance_tick_def Let_def SCHED_BALANCE_TICKS_def)
  finally show ?thesis using that 2 by blast
qed

text \<open>
  C25. The order can be lost. There is a legal run after which the fair level of a CPU has a thread
  with a virtual run time of a second before one with none, so that the next pass picks the one that has run more.
\<close>

theorem fair_order_lost:
  "legal_run (sched_boot 2) order_ops \<and>
   (\<exists>s. run order_ops (sched_boot 2) = Some s \<and> ready s 0 32 = [0, 5] \<and> t_vruntime (s_thread s 5) < t_vruntime (s_thread s 0))"
proof -
  note F = order_facts
  have b: "sched_prepare_block_current 0 order_start = Some order_blocked"
    using F(3,8) by (simp add: sched_prepare_block_current_def order_blocked_def)
  obtain s3 where 3: "sched_wake 0 order_blocked = Some (s3, True)" "boot_queued s3 [0]" "s_thread s3 5 = s_thread order_start 5"
      "s_pick_rotor s3 = 0" "rq_nr_running (s_rq s3 0) = 1" "rq_fair_min (s_rq s3 0) = 0"
    by (rule order_woken)
  obtain s4 where 4: "sched_enqueue_new 1 5 s3 = Some s4" "boot_queued s4 [0, 5]" "t_vruntime (s_thread s4 5) = 0"
    by (rule order_new [OF 3(2-6)])
  let ?s5 = "s4\<lparr>s_clock := 1000000000\<rparr>"
  have "boot_queued ?s5 [0, 5]" "t_vruntime (s_thread ?s5 5) = 0" "s_clock ?s5 = 1000000000" using 4(2,3) by (simp_all add: boot_queued_def)
  then obtain s6 where 6: "sched_tick 0 1 ?s5 = Some s6" "ready s6 0 32 = [0, 5]" "t_vruntime (s_thread s6 0) = 1000000000" "t_vruntime (s_thread s6 5) = 0"
    by (rule order_tick)
  have "run order_ops (sched_boot 2) = Some s6" using b 3(1) 4(1) 6(1) by (simp add: order_ops_def order_start_def)
  moreover have "unused s3 5" using 3(3) F(17) by (simp add: unused_def thread_alloc_def MAX_THREADS_def)
  then have "legal_run (sched_boot 2) order_ops"
    using b 3(1) 4(1) 6(1) order_boot(2) F(1,2,9)
    by (simp add: order_ops_def order_start_def [symmetric] order_blocked_def MAX_THREADS_def)
  ultimately show ?thesis using 6 by auto
qed

end
