(* ===== verification/Spec2Isabelle.thy ===== *)
theory Spec2Isabelle
  imports KList Pmm_Boot Slab_Contract Sha512 Blake2b Chacha20 Lz4 Vdist_Props Asid_Isolation Sched_Moves Sched_Types Sched_Live Sched_Order
begin

text \<open>
  A verification library for CosmoOS.
\<close>

end
